(* ===== verification/Gc_Prelude.thy ===== *)
theory Gc_Prelude
  imports Main "HOL-Library.Word" "HOL-Library.Multiset"
begin

text \<open>
  Shared vocabulary of the development: machine integers, the result type of the modelled
  functions, its reasoning rules, vectors, and a few generic facts on lists and maps.

  Every modelled function that can fail or loop has the result type \<open>'a prog\<close>:
  \<open>None\<close> is a loop that never ends, \<open>Some (Inl e)\<close> is the failure \<open>e\<close> (a panic of the
  Rust code, or a memory access that is undefined behaviour) and \<open>Some (Inr x)\<close> is a normal
  return of \<open>x\<close>. The predicate \<open>returns m P\<close> is total correctness: \<open>m\<close> ends, does not
  fail, and its value satisfies \<open>P\<close>.
\<close>

text \<open>
  The collection \<open>exec\<close> holds equations that evaluate the model on concrete inputs by simplification:
  definitions, and for every loop its equations on the constructors of the argument it inspects.
\<close>

named_theorems exec

section \<open>Machine integers and failures\<close>

type_synonym usize = "64 word"
type_synonym u8 = "8 word"
type_synonym addr = nat

abbreviation usize_MAX :: usize where
  "usize_MAX \<equiv> - 1"

datatype error =
    UseAfterFree addr   \<comment> \<open>a raw pointer is dereferenced and no box lives at its address\<close>
  | Overflow            \<comment> \<open>the panic of checked arithmetic in a debug build\<close>
  | ContextAlreadySet   \<comment> \<open>the panic of \<open>set_current_context\<close>\<close>

type_synonym 'a prog = "(error + 'a) option"

definition ret :: "'a \<Rightarrow> 'a prog" where
  "ret x = Some (Inr x)"

definition raise :: "error \<Rightarrow> 'a prog" where
  "raise e = Some (Inl e)"

definition bind_prog :: "'a prog \<Rightarrow> ('a \<Rightarrow> 'b prog) \<Rightarrow> 'b prog" where
  "bind_prog m f = Option.bind m (\<lambda>r. case r of Inl e \<Rightarrow> Some (Inl e) | Inr x \<Rightarrow> f x)"

definition returns :: "'a prog \<Rightarrow> ('a \<Rightarrow> bool) \<Rightarrow> bool" where
  "returns m P \<longleftrightarrow> (\<exists>x. m = Some (Inr x) \<and> P x)"

text \<open>The two build profiles: arithmetic is checked in a debug build and wraps in a release build.\<close>

datatype profile = Debug | Release

definition add_usize :: "profile \<Rightarrow> usize \<Rightarrow> usize \<Rightarrow> usize prog" where
  "add_usize p a b =
     (if p = Debug \<and> 2 ^ 64 \<le> unat a + unat b then raise Overflow else ret (a + b))"

definition mul_usize :: "profile \<Rightarrow> usize \<Rightarrow> usize \<Rightarrow> usize prog" where
  "mul_usize p a b =
     (if p = Debug \<and> 2 ^ 64 \<le> unat a * unat b then raise Overflow else ret (a * b))"

definition sub_usize :: "profile \<Rightarrow> usize \<Rightarrow> usize \<Rightarrow> usize prog" where
  "sub_usize p a b =
     (if p = Debug \<and> unat a < unat b then raise Overflow else ret (a - b))"

section \<open>Vectors\<close>

text \<open>A \<open>Vec\<close> is a list whose last element is the one \<open>pop\<close> removes.\<close>

definition vec_push :: "'a list \<Rightarrow> 'a \<Rightarrow> 'a list" where
  "vec_push xs x = xs @ [x]"

definition vec_pop :: "'a list \<Rightarrow> ('a \<times> 'a list) option" where
  "vec_pop xs = (if xs = [] then None else Some (last xs, butlast xs))"

text \<open>A \<open>for\<close> loop whose body threads a state and may fail.\<close>

primrec for_each :: "('a \<Rightarrow> 's \<Rightarrow> 's prog) \<Rightarrow> 'a list \<Rightarrow> 's \<Rightarrow> 's prog" where
  "for_each f [] s = ret s"
| "for_each f (x # xs) s = bind_prog (f x s) (for_each f xs)"

section \<open>Rules of the result type\<close>

named_theorems prog_simps
named_theorems prog_intros

lemma bind_ret [simp, prog_simps]: "bind_prog (ret x) f = f x"
  by (simp add: bind_prog_def ret_def)

lemma bind_raise [simp, prog_simps]: "bind_prog (raise e) f = raise e"
  by (simp add: bind_prog_def raise_def)

lemma bind_ret_right [simp]: "bind_prog m ret = m"
  by (cases m) (auto simp: bind_prog_def ret_def split: sum.splits)

lemma bind_assoc: "bind_prog (bind_prog m f) g = bind_prog m (\<lambda>x. bind_prog (f x) g)"
  by (cases m) (auto simp: bind_prog_def split: sum.splits)

lemma bind_cong: "m = m' \<Longrightarrow> (\<And>x. m' = ret x \<Longrightarrow> f x = g x) \<Longrightarrow> bind_prog m f = bind_prog m' g"
  by (cases m') (auto simp: bind_prog_def ret_def split: sum.splits)

lemma ret_eq_iff [simp]: "ret x = ret y \<longleftrightarrow> x = y"
  by (simp add: ret_def)

lemma ret_neq_raise [simp]: "ret x \<noteq> raise e" "raise e \<noteq> ret x"
  by (simp_all add: ret_def raise_def)

lemma bind_eq_ret_iff: "bind_prog m f = ret y \<longleftrightarrow> (\<exists>x. m = ret x \<and> f x = ret y)"
  by (cases m) (auto simp: bind_prog_def ret_def split: sum.splits)

lemma bind_prog_mono [partial_function_mono]:
  assumes "mono_option B" and "\<And>y. mono_option (C y)"
  shows "mono_option (\<lambda>f. bind_prog (B f) (\<lambda>y. C y f))"
proof -
  have "mono_option (\<lambda>f. case r of Inl e \<Rightarrow> Some (Inl e) | Inr x \<Rightarrow> C x f)" for r
    by (cases r) (auto intro: assms partial_function_mono)
  then show ?thesis
    unfolding bind_prog_def by (intro bind_mono assms(1))
qed

lemma returns_ret [simp, prog_intros]: "returns (ret x) P \<longleftrightarrow> P x"
  by (simp add: returns_def ret_def)

lemma returns_raise [simp]: "\<not> returns (raise e) P"
  by (simp add: returns_def raise_def)

lemma returns_iff: "returns m P \<longleftrightarrow> (\<exists>x. m = ret x \<and> P x)"
  by (simp add: returns_def ret_def)

lemma returnsI [intro?]: "m = ret x \<Longrightarrow> P x \<Longrightarrow> returns m P"
  by (auto simp: returns_iff)

lemma returnsE [elim?]: "returns m P \<Longrightarrow> (\<And>x. m = ret x \<Longrightarrow> P x \<Longrightarrow> thesis) \<Longrightarrow> thesis"
  by (auto simp: returns_iff)

lemma returns_bindI:
  "returns m P \<Longrightarrow> (\<And>x. P x \<Longrightarrow> returns (f x) Q) \<Longrightarrow> returns (bind_prog m f) Q"
  by (auto simp: returns_iff)

lemma returns_bindI_eq:
  "returns m P \<Longrightarrow> (\<And>x. m = ret x \<Longrightarrow> P x \<Longrightarrow> returns (f x) Q) \<Longrightarrow> returns (bind_prog m f) Q"
  by (auto simp: returns_iff)

lemma returns_mono: "returns m P \<Longrightarrow> (\<And>x. P x \<Longrightarrow> Q x) \<Longrightarrow> returns m Q"
  by (auto simp: returns_iff)

lemma case_ret [simp]: "(case ret x of None \<Rightarrow> a | Some r \<Rightarrow> f r) = f (Inr x)"
  by (simp add: ret_def)

lemma returns_bind_snd:
  "returns m (\<lambda>r. P (snd r)) \<Longrightarrow> returns (bind_prog m (\<lambda>(_, y). ret y)) P"
  by (auto simp: returns_iff)

lemma returns_conj: "returns m P \<Longrightarrow> returns m Q \<Longrightarrow> returns m (\<lambda>x. P x \<and> Q x)"
  by (auto simp: returns_iff)

lemma for_each_Nil: "for_each f [] = ret"
  by (rule ext) simp

lemma for_each_cong [fundef_cong]:
  assumes "xs = ys" and "s = t" and "\<And>x u. x \<in> set ys \<Longrightarrow> f x u = g x u"
  shows "for_each f xs s = for_each g ys t"
proof -
  have "for_each f ys s = for_each g ys s" for s
    using assms(3) by (induction ys arbitrary: s) (auto intro: bind_cong)
  with assms(1,2) show ?thesis by simp
qed

lemma for_each_append:
  "for_each f (xs @ ys) s = bind_prog (for_each f xs s) (for_each f ys)"
  by (induction xs arbitrary: s) (auto simp: bind_assoc intro: bind_cong)

lemma for_each_concat_map:
  "(\<And>x s. x \<in> set xs \<Longrightarrow> f x s = for_each g (h x) s) \<Longrightarrow>
   for_each f xs s = for_each g (concat (map h xs)) s"
  by (induction xs arbitrary: s) (auto simp: for_each_append intro: bind_cong)

text \<open>The rule for a loop whose body keeps an invariant.\<close>

lemma for_each_returns:
  assumes "I s" and "\<And>x s. x \<in> set xs \<Longrightarrow> I s \<Longrightarrow> returns (f x s) I"
  shows "returns (for_each f xs s) I"
  using assms
proof (induction xs arbitrary: s)
  case (Cons x xs)
  then show ?case
    by (auto intro!: returns_bindI [where P = I])
qed simp

section \<open>Arithmetic that does not overflow\<close>

lemma add_usize_ok [simp]: "unat a + unat b < 2 ^ 64 \<Longrightarrow> add_usize p a b = ret (a + b)"
  by (simp add: add_usize_def)

lemma mul_usize_ok [simp]: "unat a * unat b < 2 ^ 64 \<Longrightarrow> mul_usize p a b = ret (a * b)"
  by (simp add: mul_usize_def)

lemma sub_usize_ok [simp]: "unat b \<le> unat a \<Longrightarrow> sub_usize p a b = ret (a - b)"
  by (simp add: sub_usize_def)

lemma usize_lt: "unat (x :: usize) < 2 ^ 64"
  using unsigned_less [of x, where ?'a = nat] by simp

lemma unat_usize_MAX [simp]: "unat usize_MAX = 2 ^ 64 - 1"
  by (simp add: unsigned_minus_1_eq_mask mask_eq_exp_minus_1)

lemma unat_add_usize: "unat a + unat b < 2 ^ 64 \<Longrightarrow> unat (a + b :: usize) = unat a + unat b"
  by (simp add: unat_word_ariths)

lemma unat_mul_usize: "unat a * unat b < 2 ^ 64 \<Longrightarrow> unat (a * b :: usize) = unat a * unat b"
  by (simp add: unat_word_ariths)

lemma unat_sub_usize: "unat b \<le> unat a \<Longrightarrow> unat (a - b :: usize) = unat a - unat b"
  by (simp add: unat_sub word_le_nat_alt)

section \<open>Vectors and lists\<close>

lemma vec_push_set [simp]: "set (vec_push xs x) = insert x (set xs)"
  by (simp add: vec_push_def)

lemma vec_push_length [simp]: "length (vec_push xs x) = Suc (length xs)"
  by (simp add: vec_push_def)

lemma vec_push_mset [simp]: "mset (vec_push xs x) = add_mset x (mset xs)"
  by (simp add: vec_push_def)

lemma vec_pop_None [simp]: "vec_pop xs = None \<longleftrightarrow> xs = []"
  by (simp add: vec_pop_def)

lemma vec_pop_Some: "vec_pop xs = Some (x, ys) \<longleftrightarrow> xs = vec_push ys x"
  by (auto simp: vec_pop_def vec_push_def)

lemma vec_pop_push [simp]: "vec_pop (vec_push xs x) = Some (x, xs)"
  by (simp add: vec_pop_Some)

lemma list_all2_in_set2: "list_all2 P xs ys \<Longrightarrow> y \<in> set ys \<Longrightarrow> \<exists>x\<in>set xs. P x y"
  by (induction rule: list_all2_induct) auto

lemma sum_list_filter_split:
  "(\<Sum>x\<leftarrow>xs. f x) = (\<Sum>x\<leftarrow>filter P xs. f x) + (\<Sum>x\<leftarrow>filter (\<lambda>x. \<not> P x) xs. f x :: nat)"
  by (induction xs) auto

lemma sum_list_filter_le: "(\<Sum>x\<leftarrow>filter P xs. f x) \<le> (\<Sum>x\<leftarrow>xs. f x :: nat)"
  by (induction xs) auto

lemma concat_map_update_subset:
  assumes i: "i < length xs" and y: "set (g y) \<subseteq> set (g (xs ! i)) \<union> P"
  shows "set (concat (map g (xs[i := y]))) \<subseteq> set (concat (map g xs)) \<union> P"
proof
  fix z assume "z \<in> set (concat (map g (xs[i := y])))"
  then obtain x where x: "x \<in> set (xs[i := y])" "z \<in> set (g x)" by auto
  then have "x \<in> set xs \<or> x = y" using set_update_subset_insert by fastforce
  then show "z \<in> set (concat (map g xs)) \<union> P"
    using x(2) y nth_mem [OF i] by auto
qed

lemmas arith_exec [exec] = add_usize_def mul_usize_def sub_usize_def vec_push_def vec_pop_def

section \<open>Machines\<close>

text \<open>
  A machine has operations that fail or loop only where they are not allowed and that keep an
  invariant; a safe machine moreover keeps what is live. Everything about sequences of operations
  follows from these contracts.
\<close>

primrec run_ops :: "('o \<Rightarrow> 's \<Rightarrow> 's prog) \<Rightarrow> 'o list \<Rightarrow> 's \<Rightarrow> 's prog" where
  "run_ops run [] s = ret s"
| "run_ops run (x # xs) s = bind_prog (run x s) (run_ops run xs)"

primrec all_allowed :: "('o \<Rightarrow> 's \<Rightarrow> 's prog) \<Rightarrow> ('o \<Rightarrow> 's \<Rightarrow> bool) \<Rightarrow> 'o list \<Rightarrow> 's \<Rightarrow> bool" where
  "all_allowed run ok [] s = True"
| "all_allowed run ok (x # xs) s =
     (ok x s \<and> (case run x s of Some (Inr s') \<Rightarrow> all_allowed run ok xs s' | _ \<Rightarrow> True))"

lemma run_ops_append: "run_ops run (xs @ ys) s = bind_prog (run_ops run xs s) (run_ops run ys)"
  by (induction xs arbitrary: s) (auto simp: bind_assoc intro: bind_cong)

lemma all_allowed_append:
  "run_ops run xs s = ret s' \<Longrightarrow> all_allowed run ok (xs @ ys) s \<longleftrightarrow> all_allowed run ok xs s \<and> all_allowed run ok ys s'"
  by (induction xs arbitrary: s) (auto simp: bind_eq_ret_iff)

lemma all_allowed_const:
  "all_allowed run (\<lambda>x s. P x) xs s \<Longrightarrow> run_ops run xs s = ret t \<Longrightarrow> \<forall>x\<in>set xs. P x"
  by (induction xs arbitrary: s) (auto simp: bind_eq_ret_iff)

locale machine =
  fixes run :: "'o \<Rightarrow> 's \<Rightarrow> 's prog"
    and ok :: "'o \<Rightarrow> 's \<Rightarrow> bool"
    and inv :: "'s \<Rightarrow> bool"
  assumes run_inv: "inv s \<Longrightarrow> ok x s \<Longrightarrow> returns (run x s) inv"
begin

lemma run_ops_inv:
  assumes "inv s" and "all_allowed run ok xs s"
  shows "returns (run_ops run xs s) inv"
  using assms
proof (induction xs arbitrary: s)
  case (Cons x xs)
  from Cons.prems have "ok x s" by simp
  from run_inv [OF Cons.prems(1) this] obtain s' where s': "run x s = ret s'" "inv s'" by (rule returnsE)
  then have "all_allowed run ok xs s'" using Cons.prems(2) by (simp add: ret_def)
  with s' show ?case using Cons.IH by simp
qed simp

end

locale safe_machine = machine run ok inv
  for run :: "'o \<Rightarrow> 's \<Rightarrow> 's prog" and ok :: "'o \<Rightarrow> 's \<Rightarrow> bool" and inv :: "'s \<Rightarrow> bool" +
  fixes live :: "'s \<Rightarrow> 'k set"
    and present :: "'s \<Rightarrow> 'k set"
  assumes keeps_live: "inv s \<Longrightarrow> ok x s \<Longrightarrow> run x s = ret s' \<Longrightarrow> live s \<subseteq> present s'"
    and live_present: "inv s \<Longrightarrow> live s \<subseteq> present s"
begin

lemma live_after:
  assumes "inv s" and "all_allowed run ok xs s" and "run_ops run xs s = ret s'"
  shows "live s' \<subseteq> present s'"
  using run_ops_inv [OF assms(1,2)] assms(3) live_present by (simp add: returns_iff)

end

text \<open>
  A machine that can always go on until it is finished, each time lowering a rank, has a run that finishes.
\<close>

locale progressing =
  fixes run :: "'o \<Rightarrow> 's \<Rightarrow> 's prog"
    and ok :: "'o \<Rightarrow> 's \<Rightarrow> bool"
    and inv :: "'s \<Rightarrow> bool"
    and finished :: "'s \<Rightarrow> bool"
    and rank :: "'s \<Rightarrow> nat"
  assumes progress: "inv s \<Longrightarrow> \<not> finished s \<Longrightarrow> \<exists>x s'. ok x s \<and> run x s = ret s' \<and> inv s' \<and> rank s' < rank s"
begin

lemma completes:
  assumes "inv s"
  shows "\<exists>xs s'. length xs \<le> rank s \<and> all_allowed run ok xs s \<and> run_ops run xs s = ret s' \<and> inv s' \<and> finished s'"
  using assms
proof (induction "rank s" arbitrary: s rule: less_induct)
  case less
  show ?case
  proof (cases "finished s")
    case True
    then show ?thesis using less.prems by (intro exI [of _ "[]"]) simp
  next
    case False
    from progress [OF less.prems this] obtain x t where x: "ok x s" "run x s = ret t" "inv t" "rank t < rank s" by blast
    from less.hyps [OF x(4,3)] obtain xs s' where "length xs \<le> rank t" "all_allowed run ok xs t"
      "run_ops run xs t = ret s'" "inv s'" "finished s'" by blast
    then show ?thesis using x by (intro exI [of _ "x # xs"] exI [of _ s']) simp
  qed
qed

end

text \<open>
  A machine refines a specification when every allowed operation is a step of the specification on the
  abstract view of its states; then every run is a run of the specification.
\<close>

primrec trace_of :: "('o \<Rightarrow> 'a \<Rightarrow> 'a \<Rightarrow> bool) \<Rightarrow> 'o list \<Rightarrow> 'a \<Rightarrow> 'a \<Rightarrow> bool" where
  "trace_of step [] a b \<longleftrightarrow> a = b"
| "trace_of step (x # xs) a b \<longleftrightarrow> (\<exists>c. step x a c \<and> trace_of step xs c b)"

locale simulation = machine run ok inv
  for run :: "'o \<Rightarrow> 's \<Rightarrow> 's prog" and ok :: "'o \<Rightarrow> 's \<Rightarrow> bool" and inv :: "'s \<Rightarrow> bool" +
  fixes view :: "'s \<Rightarrow> 'a"
    and spec_step :: "'o \<Rightarrow> 'a \<Rightarrow> 'a \<Rightarrow> bool"
  assumes simulates: "inv s \<Longrightarrow> ok x s \<Longrightarrow> run x s = ret s' \<Longrightarrow> spec_step x (view s) (view s')"
begin

lemma run_ops_simulates:
  assumes "inv s" and "all_allowed run ok xs s" and "run_ops run xs s = ret s'"
  shows "trace_of spec_step xs (view s) (view s')"
  using assms
proof (induction xs arbitrary: s)
  case (Cons x xs)
  then have ok: "ok x s" by simp
  from run_inv [OF Cons.prems(1) this] obtain t where t: "run x s = ret t" "inv t" by (rule returnsE)
  then have "all_allowed run ok xs t" "run_ops run xs t = ret s'" using Cons.prems(2,3) by simp_all
  with t Cons.IH simulates [OF Cons.prems(1) ok t(1)] show ?case by auto
qed simp

end

end
