(* ===== verification/Gc_Color.thy ===== *)
theory Gc_Color
  imports Gc_Prelude
begin

text \<open>
  Model of \<open>src/src/color.rs\<close>: the three colours, their \<open>u8\<close> representation, and the
  operations of \<open>AtomicColor\<close>. An \<open>AtomicColor\<close> is its inner byte; an operation that
  writes returns the new byte. Each operation is one atomic access in the code, so one function
  call is one atomic step. The memory orderings have no counterpart: the model interleaves atomic
  steps sequentially consistently.

  The locale \<open>color_protocol\<close> is the contract the marker and the sweeper rely on; it is
  interpreted on the byte operations at the end of the theory.
\<close>

section \<open>Colours\<close>

datatype Color = White | Gray | Black

text \<open>\<open>color as u8\<close>, from the explicit discriminants.\<close>

fun color_as_u8 :: "Color \<Rightarrow> u8" where
  "color_as_u8 White = 0"
| "color_as_u8 Gray = 1"
| "color_as_u8 Black = 2"

definition color_from :: "u8 \<Rightarrow> Color" where
  "color_from value =
     (if value = 0 then White else if value = 1 then Gray else if value = 2 then Black else White)"

section \<open>AtomicColor\<close>

type_synonym atomic_color = u8

definition atomic_color_new :: "Color \<Rightarrow> atomic_color" where
  "atomic_color_new c = color_as_u8 c"

definition color_load :: "atomic_color \<Rightarrow> Color" where
  "color_load inner = color_from inner"

definition color_store :: "atomic_color \<Rightarrow> Color \<Rightarrow> atomic_color" where
  "color_store inner c = color_as_u8 c"

text \<open>\<open>compare_exchange\<close>: \<open>Inr\<close> is \<open>Ok\<close>, \<open>Inl\<close> is \<open>Err\<close>; both carry the previous value.\<close>

definition color_compare_exchange ::
    "atomic_color \<Rightarrow> Color \<Rightarrow> Color \<Rightarrow> (Color + Color) \<times> atomic_color" where
  "color_compare_exchange inner current new =
     (if inner = color_as_u8 current then (Inr (color_from inner), color_as_u8 new)
      else (Inl (color_from inner), inner))"

definition mark_white_to_gray :: "atomic_color \<Rightarrow> bool \<times> atomic_color" where
  "mark_white_to_gray inner =
     (case color_compare_exchange inner White Gray of
        (Inr _, inner') \<Rightarrow> (True, inner')
      | (Inl _, inner') \<Rightarrow> (False, inner'))"

definition mark_black :: "atomic_color \<Rightarrow> atomic_color" where
  "mark_black inner = color_store inner Black"

definition reset_white :: "atomic_color \<Rightarrow> atomic_color" where
  "reset_white inner = color_store inner White"

definition color_is_white :: "atomic_color \<Rightarrow> bool" where
  "color_is_white inner = (color_load inner = White)"

text \<open>
  A byte that \<open>AtomicColor\<close> can hold: every constructor and every store writes a
  discriminant, so the fallback of \<open>From<u8>\<close> is never taken on such a byte.
\<close>

definition color_valid :: "atomic_color \<Rightarrow> bool" where
  "color_valid inner = (inner = 0 \<or> inner = 1 \<or> inner = 2)"

section \<open>The contract of a colour cell\<close>

text \<open>
  \<open>attempts f n c\<close> are the results of \<open>n\<close> threads applying \<open>f\<close> to the same cell,
  one after the other.

  What the marker and the sweeper use of a colour: it starts white, shading succeeds exactly on
  a white cell and leaves it non-white, a failed shading changes nothing, blackening leaves it
  non-white, resetting makes it white.
\<close>

primrec attempts :: "('c \<Rightarrow> bool \<times> 'c) \<Rightarrow> nat \<Rightarrow> 'c \<Rightarrow> bool list" where
  "attempts f 0 c = []"
| "attempts f (Suc n) c = fst (f c) # attempts f n (snd (f c))"

locale color_protocol =
  fixes valid :: "'c \<Rightarrow> bool"
    and white :: "'c \<Rightarrow> bool"
    and shade :: "'c \<Rightarrow> bool \<times> 'c"
    and blacken :: "'c \<Rightarrow> 'c"
    and whiten :: "'c \<Rightarrow> 'c"
  assumes shade_result: "valid c \<Longrightarrow> fst (shade c) = white c"
    and shade_nonwhite: "valid c \<Longrightarrow> \<not> white (snd (shade c))"
    and shade_fails: "valid c \<Longrightarrow> \<not> white c \<Longrightarrow> snd (shade c) = c"
    and blacken_nonwhite: "\<not> white (blacken c)"
    and whiten_white: "white (whiten c)"
    and valid_shade: "valid c \<Longrightarrow> valid (snd (shade c))"
    and valid_blacken: "valid (blacken c)"
    and valid_whiten: "valid (whiten c)"
begin

lemma attempts_nonwhite: "valid c \<Longrightarrow> \<not> white c \<Longrightarrow> attempts shade n c = replicate n False"
  by (induction n) (simp_all add: shade_result shade_fails)

text \<open>However many threads try, exactly one wins: an object is enqueued once per white phase.\<close>

lemma attempts_once: "valid c \<Longrightarrow> white c \<Longrightarrow> attempts shade (Suc n) c = True # replicate n False"
  by (simp add: shade_result attempts_nonwhite valid_shade shade_nonwhite)

end

section \<open>AtomicColor fulfils the contract\<close>

lemma color_from_as_u8 [simp]: "color_from (color_as_u8 c) = c"
  by (cases c) (simp_all add: color_from_def)

lemma color_as_u8_inject [simp]: "color_as_u8 c = color_as_u8 d \<longleftrightarrow> c = d"
  by (metis color_from_as_u8)

lemma color_valid_as_u8 [simp]: "color_valid (color_as_u8 c)"
  by (cases c) (simp_all add: color_valid_def)

lemma color_valid_iff: "color_valid b \<longleftrightarrow> (\<exists>c. b = color_as_u8 c)"
  by (metis color_as_u8.simps color_valid_as_u8 color_valid_def)

lemmas color_defs = atomic_color_new_def color_load_def color_store_def color_compare_exchange_def
  mark_white_to_gray_def mark_black_def reset_white_def color_is_white_def

lemma color_is_white_iff: "color_valid b \<Longrightarrow> color_is_white b \<longleftrightarrow> b = 0"
  by (auto simp: color_defs color_valid_def color_from_def)

lemma mark_white_to_gray_eq:
  "mark_white_to_gray b = (if b = 0 then (True, 1) else (False, b))"
  by (simp add: color_defs)

lemma mark_black_eq [simp]: "mark_black b = 2"
  by (simp add: color_defs)

lemma reset_white_eq [simp]: "reset_white b = 0"
  by (simp add: color_defs)

lemma color_is_white_simps [simp]:
  "color_is_white 0" "\<not> color_is_white 1" "\<not> color_is_white 2"
  by (simp_all add: color_defs color_from_def)

lemma color_valid_simps [simp]: "color_valid 0" "color_valid 1" "color_valid 2"
  by (simp_all add: color_valid_def)

interpretation ac: color_protocol color_valid color_is_white mark_white_to_gray mark_black reset_white
  by unfold_locales (auto simp: mark_white_to_gray_eq color_is_white_iff color_valid_def)

section \<open>Properties\<close>


text \<open>
  Shading is exclusive. When any number of threads apply \<open>mark_white_to_gray\<close> to the same
  white byte, in any order, the first succeeds and every later one fails, so the object is put on a
  gray queue exactly once.
\<close>

theorem mark_white_to_gray_exclusive:
  "attempts mark_white_to_gray (Suc n) (atomic_color_new White) = True # replicate n False"
  by (rule ac.attempts_once) (simp_all add: atomic_color_new_def)

end
