(* ===== verification/Trace_Values.thy ===== *)
theory Trace_Values
  imports Gc_Prelude
begin

text \<open>
  The values the collector traces and the type-level half of \<open>src/src/trace.rs\<close>: the constant
  \<open>Trace::NO_TRACE\<close> of every type with a \<open>Trace\<close> implementation.

  A type is known to the collector only through its \<open>Trace\<close> implementation, so \<open>ty\<close> has
  one constructor per implementation (or macro-generated family of implementations). A
  \<open>GcPtr<T>\<close> uses of its pointee type only \<open>T::NO_TRACE\<close>, so both the type
  \<open>TGcPtr\<close> and the value \<open>VPtr\<close> carry that constant; this also makes recursive types such as
  \<open>struct Node { next: Option<GcPtr<Node>> }\<close> finite terms.

  A user type is not part of the repository's library: its \<open>Trace\<close> implementation is a
  parameter, given by the constant \<open>NO_TRACE\<close> it declares and, for each field, whether its
  \<open>trace\<close> method traces that field. The safety contract of the trait (every \<open>GcPtr\<close>
  field is traced, and \<open>NO_TRACE\<close> is only declared without such fields) is the predicate
  \<open>trace_contract\<close>, which the theorems that need it assume by name.
\<close>

section \<open>Types with a Trace implementation\<close>

datatype prim =
    P_unit | P_i8 | P_i16 | P_i32 | P_i64 | P_i128 | P_isize
  | P_u8 | P_u16 | P_u32 | P_u64 | P_u128 | P_usize | P_f32 | P_f64
  | P_bool | P_char | P_String | P_str | P_Infallible | P_PhantomData

datatype deref_kind = K_Box | K_Rc | K_Arc

datatype iter_kind = K_Vec | K_VecDeque | K_HashSet | K_BTreeSet

datatype map_kind = K_HashMap | K_BTreeMap

datatype ty =
    TPrim prim
  | TDeref deref_kind ty
  | TIter iter_kind ty
  | TMap map_kind ty ty
  | TResult ty ty
  | TOption ty
  | TArray ty nat
  | TGcPtr bool
  | TGcCell ty
  | TStruct bool "(bool \<times> ty) list"

text \<open>The associated constant of each implementation; \<open>GcPtr\<close> and \<open>GcCell\<close> keep the trait's default.\<close>

primrec NO_TRACE :: "ty \<Rightarrow> bool" where
  "NO_TRACE (TPrim p) = True"
| "NO_TRACE (TDeref k t) = NO_TRACE t"
| "NO_TRACE (TIter k t) = NO_TRACE t"
| "NO_TRACE (TMap k t u) = (NO_TRACE t \<and> NO_TRACE u)"
| "NO_TRACE (TResult t e) = (NO_TRACE t \<and> NO_TRACE e)"
| "NO_TRACE (TOption t) = NO_TRACE t"
| "NO_TRACE (TArray t n) = NO_TRACE t"
| "NO_TRACE (TGcPtr nt) = False"
| "NO_TRACE (TGcCell t) = False"
| "NO_TRACE (TStruct nt fs) = nt"

section \<open>Values\<close>

text \<open>
  \<open>VSeq\<close> is any iterable in its iteration order (vector, deque, set, array), \<open>VMap\<close> a map
  in its iteration order; the payload of a primitive is irrelevant to the collector and kept as an
  integer so that values can be told apart.
\<close>

datatype val =
    VPrim int
  | VDeref val
  | VSeq "val list"
  | VMap "(val \<times> val) list"
  | VOk val
  | VErr val
  | VNone
  | VSome val
  | VPtr bool addr
  | VCell val
  | VStruct "(bool \<times> val) list"

primrec has_type :: "ty \<Rightarrow> val \<Rightarrow> bool" where
  "has_type (TPrim p) v = (case v of VPrim n \<Rightarrow> True | _ \<Rightarrow> False)"
| "has_type (TDeref k t) v = (case v of VDeref w \<Rightarrow> has_type t w | _ \<Rightarrow> False)"
| "has_type (TIter k t) v = (case v of VSeq ws \<Rightarrow> list_all (has_type t) ws | _ \<Rightarrow> False)"
| "has_type (TMap k t u) v =
     (case v of VMap kvs \<Rightarrow> list_all (\<lambda>kv. has_type t (fst kv) \<and> has_type u (snd kv)) kvs | _ \<Rightarrow> False)"
| "has_type (TResult t e) v =
     (case v of VOk w \<Rightarrow> has_type t w | VErr w \<Rightarrow> has_type e w | _ \<Rightarrow> False)"
| "has_type (TOption t) v = (case v of VNone \<Rightarrow> True | VSome w \<Rightarrow> has_type t w | _ \<Rightarrow> False)"
| "has_type (TArray t n) v =
     (case v of VSeq ws \<Rightarrow> length ws = n \<and> list_all (has_type t) ws | _ \<Rightarrow> False)"
| "has_type (TGcPtr nt) v = (case v of VPtr nt' a \<Rightarrow> nt = nt' | _ \<Rightarrow> False)"
| "has_type (TGcCell t) v = (case v of VCell w \<Rightarrow> has_type t w | _ \<Rightarrow> False)"
| "has_type (TStruct nt fs) v =
     (case v of
        VStruct ws \<Rightarrow> list_all2 (\<lambda>f w. fst f = fst w \<and> snd f (snd w)) (map (map_prod id has_type) fs) ws
      | _ \<Rightarrow> False)"

text \<open>All pointers stored in a value, with the pointee's \<open>NO_TRACE\<close>.\<close>

fun gc_ptrs :: "val \<Rightarrow> (bool \<times> addr) list" where
  "gc_ptrs (VPrim n) = []"
| "gc_ptrs (VDeref v) = gc_ptrs v"
| "gc_ptrs (VSeq vs) = concat (map gc_ptrs vs)"
| "gc_ptrs (VMap kvs) = concat (map (\<lambda>kv. gc_ptrs (fst kv) @ gc_ptrs (snd kv)) kvs)"
| "gc_ptrs (VOk v) = gc_ptrs v"
| "gc_ptrs (VErr v) = gc_ptrs v"
| "gc_ptrs VNone = []"
| "gc_ptrs (VSome v) = gc_ptrs v"
| "gc_ptrs (VPtr nt a) = [(nt, a)]"
| "gc_ptrs (VCell v) = gc_ptrs v"
| "gc_ptrs (VStruct vs) = concat (map (\<lambda>bv. gc_ptrs (snd bv)) vs)"

text \<open>The pointers among them on which the value's \<open>trace\<close> method calls \<open>Tracer::mark\<close>, in call order.\<close>

fun traced_ptrs :: "val \<Rightarrow> (bool \<times> addr) list" where
  "traced_ptrs (VPrim n) = []"
| "traced_ptrs (VDeref v) = traced_ptrs v"
| "traced_ptrs (VSeq vs) = concat (map traced_ptrs vs)"
| "traced_ptrs (VMap kvs) = concat (map (\<lambda>kv. traced_ptrs (fst kv) @ traced_ptrs (snd kv)) kvs)"
| "traced_ptrs (VOk v) = traced_ptrs v"
| "traced_ptrs (VErr v) = traced_ptrs v"
| "traced_ptrs VNone = []"
| "traced_ptrs (VSome v) = traced_ptrs v"
| "traced_ptrs (VPtr nt a) = [(nt, a)]"
| "traced_ptrs (VCell v) = traced_ptrs v"
| "traced_ptrs (VStruct vs) = concat (map (\<lambda>bv. if fst bv then traced_ptrs (snd bv) else []) vs)"

text \<open>
  The safety contract of \<open>unsafe trait Trace\<close> for the user types inside a type: a field whose
  type can hold a pointer (\<open>may_point\<close>) is traced, and a type that declares \<open>NO_TRACE\<close>
  has no such field.
\<close>

fun may_point :: "ty \<Rightarrow> bool" where
  "may_point (TPrim p) = False"
| "may_point (TDeref k t) = may_point t"
| "may_point (TIter k t) = may_point t"
| "may_point (TMap k t u) = (may_point t \<or> may_point u)"
| "may_point (TResult t e) = (may_point t \<or> may_point e)"
| "may_point (TOption t) = may_point t"
| "may_point (TArray t n) = may_point t"
| "may_point (TGcPtr nt) = True"
| "may_point (TGcCell t) = may_point t"
| "may_point (TStruct nt fs) = (\<exists>f\<in>set fs. may_point (snd f))"

fun trace_contract :: "ty \<Rightarrow> bool" where
  "trace_contract (TPrim p) = True"
| "trace_contract (TDeref k t) = trace_contract t"
| "trace_contract (TIter k t) = trace_contract t"
| "trace_contract (TMap k t u) = (trace_contract t \<and> trace_contract u)"
| "trace_contract (TResult t e) = (trace_contract t \<and> trace_contract e)"
| "trace_contract (TOption t) = trace_contract t"
| "trace_contract (TArray t n) = trace_contract t"
| "trace_contract (TGcPtr nt) = True"
| "trace_contract (TGcCell t) = trace_contract t"
| "trace_contract (TStruct nt fs) =
     ((\<forall>f\<in>set fs. (may_point (snd f) \<longrightarrow> fst f) \<and> trace_contract (snd f)) \<and>
      (nt \<longrightarrow> (\<forall>f\<in>set fs. \<not> may_point (snd f))))"

text \<open>The \<open>Node\<close> of the tests and examples: \<open>value\<close> is not traced, \<open>next\<close> is marked if present.\<close>

definition Node :: ty where
  "Node = TStruct False [(False, TPrim P_usize), (True, TOption (TGcPtr False))]"

definition node_val :: "int \<Rightarrow> addr option \<Rightarrow> val" where
  "node_val value nxt =
     VStruct [(False, VPrim value),
              (True, case nxt of None \<Rightarrow> VNone | Some a \<Rightarrow> VSome (VPtr False a))]"

section \<open>The NO_TRACE constants are sound\<close>

lemma NO_TRACE_no_point: "trace_contract t \<Longrightarrow> NO_TRACE t \<Longrightarrow> \<not> may_point t"
  by (induction t) auto

lemma snd_in_snds: "snd f \<in> Basic_BNFs.snds f"
  by (cases f) simp

lemma no_point_no_ptrs: "has_type t v \<Longrightarrow> \<not> may_point t \<Longrightarrow> gc_ptrs v = []"
proof (induction t arbitrary: v)
  case (TStruct nt fs)
  then obtain ws where v: "v = VStruct ws" and
    all: "list_all2 (\<lambda>f w. fst f = fst w \<and> has_type (snd f) (snd w)) fs ws"
    by (auto split: val.splits simp: list_all2_map1)
  have "gc_ptrs (snd w) = []" if w: "w \<in> set ws" for w
  proof -
    obtain f where f: "f \<in> set fs" "has_type (snd f) (snd w)"
      using list_all2_in_set2 [OF all w] by blast
    have "\<not> may_point (snd f)" using TStruct.prems(2) f(1) by auto
    with TStruct.IH [OF f(1) snd_in_snds] f(2) show ?thesis by blast
  qed
  with v show ?case by simp
qed (auto split: val.splits simp: list_all_iff)

text \<open>A field of a user struct contributes the same pointers traced as stored.\<close>

lemma contract_field:
  assumes "fst f = fst w" and "may_point (snd f) \<longrightarrow> fst f" and "has_type (snd f) (snd w)"
    and "set (traced_ptrs (snd w)) = set (gc_ptrs (snd w))"
  shows "set (if fst w then traced_ptrs (snd w) else []) = set (gc_ptrs (snd w))"
  using assms no_point_no_ptrs [of "snd f" "snd w"] by auto

lemma contract_traces_all:
  "has_type t v \<Longrightarrow> trace_contract t \<Longrightarrow> set (traced_ptrs v) = set (gc_ptrs v)"
proof (induction t arbitrary: v)
  case (TStruct nt fs)
  then obtain ws where v: "v = VStruct ws" and
    all: "list_all2 (\<lambda>f w. fst f = fst w \<and> has_type (snd f) (snd w)) fs ws"
    by (auto split: val.splits simp: list_all2_map1)
  have "set (if fst w then traced_ptrs (snd w) else []) = set (gc_ptrs (snd w))"
    if w: "w \<in> set ws" for w
  proof -
    obtain f where f: "f \<in> set fs" "fst f = fst w" "has_type (snd f) (snd w)"
      using list_all2_in_set2 [OF all w] by blast
    show ?thesis
    proof (rule contract_field [OF f(2)])
      show "may_point (snd f) \<longrightarrow> fst f" using TStruct.prems(2) f(1) by simp
      show "has_type (snd f) (snd w)" by (rule f(3))
      show "set (traced_ptrs (snd w)) = set (gc_ptrs (snd w))"
        using TStruct.IH [OF f(1) snd_in_snds f(3)] TStruct.prems(2) f(1) by simp
    qed
  qed
  then have "(\<Union>w\<in>set ws. set (if fst w then traced_ptrs (snd w) else [])) =
      (\<Union>w\<in>set ws. set (gc_ptrs (snd w)))"
    by (intro SUP_cong refl)
  then show ?case unfolding v traced_ptrs.simps gc_ptrs.simps set_concat set_map image_image .
qed (fastforce split: val.splits simp: list_all_iff)+

section \<open>Properties\<close>



end
