(* ===== verification/Gc_Box.thy ===== *)
theory Gc_Box
  imports Gc_Color Trace_Values
begin

text \<open>
  Model of \<open>src/src/gc_box.rs\<close>: the vtable, the header and the box of a managed object, and
  the memory the boxes live in. A memory maps the address of a live \<open>GcBox\<close> to its contents;
  \<open>Box::leak(Box::new(..))\<close> adds an entry at the address the allocator returns (an argument of
  \<open>box_new\<close>, fresh by the allocator's contract) and dropping the box removes it. A read through
  a raw pointer whose box is gone is undefined behaviour in the code and the failure
  \<open>UseAfterFree\<close> here. The size of \<open>Layout::new::<GcBox<T>>()\<close> is fixed by the compiler
  and an argument of \<open>vtable_new\<close>.
\<close>

section \<open>Vtable, header, box\<close>

datatype trace_fn = trace_noop | trace_impl

text \<open>
  The function pointer \<open>drop_impl::<T>\<close> is an instance of a generic function; the model keeps
  the \<open>T\<close> it was instantiated with, which is also the type of the data behind the header.
\<close>

datatype drop_fn = drop_impl_for ty

record gc_vtable =
  vt_trace :: trace_fn
  vt_drop :: drop_fn
  vt_size :: usize

definition vtable_new :: "ty \<Rightarrow> usize \<Rightarrow> gc_vtable" where
  "vtable_new t sz =
     \<lparr> vt_trace = (if NO_TRACE t then trace_noop else trace_impl), vt_drop = drop_impl_for t,
       vt_size = sz \<rparr>"

definition vt_ty :: "gc_vtable \<Rightarrow> ty" where
  "vt_ty vt = (case vt_drop vt of drop_impl_for t \<Rightarrow> t)"

record gc_header =
  color :: atomic_color
  root_count :: usize
  nxt :: "addr option"
  vtable :: gc_vtable

definition header_new :: "gc_vtable \<Rightarrow> gc_header" where
  "header_new vt =
     \<lparr> color = atomic_color_new White, root_count = 1, nxt = None, vtable = vt \<rparr>"

definition inc_root :: "gc_header \<Rightarrow> gc_header" where
  "inc_root h = h\<lparr>root_count := root_count h + 1\<rparr>"

definition dec_root :: "gc_header \<Rightarrow> gc_header" where
  "dec_root h = h\<lparr>root_count := root_count h - 1\<rparr>"

definition is_root :: "gc_header \<Rightarrow> bool" where
  "is_root h = (root_count h > 0)"

definition header_is_white :: "gc_header \<Rightarrow> bool" where
  "header_is_white h = (color_is_white (color h) \<and> \<not> is_root h)"

record gc_box =
  header :: gc_header
  data :: val

type_synonym mem = "addr \<rightharpoonup> gc_box"

section \<open>Allocation, access and deallocation of boxes\<close>

definition box_new :: "mem \<Rightarrow> addr \<Rightarrow> ty \<Rightarrow> usize \<Rightarrow> val \<Rightarrow> mem" where
  "box_new m a t sz v = m(a \<mapsto> \<lparr> header = header_new (vtable_new t sz), data = v \<rparr>)"

text \<open>\<open>&*ptr\<close> and updates through it.\<close>

definition deref :: "mem \<Rightarrow> addr \<Rightarrow> gc_box prog" where
  "deref m a = (case m a of None \<Rightarrow> raise (UseAfterFree a) | Some b \<Rightarrow> ret b)"

definition modify_header :: "mem \<Rightarrow> addr \<Rightarrow> (gc_header \<Rightarrow> gc_header) \<Rightarrow> mem prog" where
  "modify_header m a f =
     bind_prog (deref m a) (\<lambda>b. ret (m(a \<mapsto> b\<lparr>header := f (header b)\<rparr>)))"

text \<open>\<open>(header.vtable.drop)(ptr)\<close>: \<open>Box::from_raw\<close> takes the box back and frees it.\<close>

definition drop_impl :: "mem \<Rightarrow> addr \<Rightarrow> mem prog" where
  "drop_impl m a = bind_prog (deref m a) (\<lambda>b. ret (m(a := None)))"

section \<open>Views of the memory\<close>

text \<open>
  The object graph of a memory: colours, roots and the edges given by the stored pointers. These
  read the memory totally (an address without a box has no colour, no root and no edge).
\<close>

definition white_at :: "mem \<Rightarrow> addr \<Rightarrow> bool" where
  "white_at m a = (case m a of None \<Rightarrow> False | Some b \<Rightarrow> color_is_white (color (header b)))"

definition gray_at :: "mem \<Rightarrow> addr \<Rightarrow> bool" where
  "gray_at m a = (case m a of None \<Rightarrow> False | Some b \<Rightarrow> color (header b) = color_as_u8 Gray)"

definition black_at :: "mem \<Rightarrow> addr \<Rightarrow> bool" where
  "black_at m a = (case m a of None \<Rightarrow> False | Some b \<Rightarrow> color (header b) = color_as_u8 Black)"

definition root_at :: "mem \<Rightarrow> addr \<Rightarrow> bool" where
  "root_at m a = (case m a of None \<Rightarrow> False | Some b \<Rightarrow> is_root (header b))"

definition size_at :: "mem \<Rightarrow> addr \<Rightarrow> usize" where
  "size_at m a = (case m a of None \<Rightarrow> 0 | Some b \<Rightarrow> vt_size (vtable (header b)))"

definition succs :: "mem \<Rightarrow> addr \<Rightarrow> addr set" where
  "succs m a = (case m a of None \<Rightarrow> {} | Some b \<Rightarrow> snd ` set (gc_ptrs (data b)))"

definition leaf_at :: "mem \<Rightarrow> addr \<Rightarrow> bool" where
  "leaf_at m a = (case m a of None \<Rightarrow> False | Some b \<Rightarrow> vt_trace (vtable (header b)) = trace_noop)"

text \<open>Reachability: the objects a mutator can still get at from its roots.\<close>

inductive_set reach :: "mem \<Rightarrow> addr set" for m :: mem where
  reach_root: "root_at m a \<Longrightarrow> a \<in> reach m"
| reach_step: "a \<in> reach m \<Longrightarrow> b \<in> succs m a \<Longrightarrow> b \<in> reach m"

text \<open>
  A well-formed box: its colour byte is a discriminant, its data has the type its vtable was built
  for, that type respects the safety contract of \<open>Trace\<close>, and its vtable has the trace function
  that \<open>GcVTable::new\<close> chooses for the type.
\<close>

definition box_ok :: "gc_box \<Rightarrow> bool" where
  "box_ok b =
     (color_valid (color (header b)) \<and>
      has_type (vt_ty (vtable (header b))) (data b) \<and> trace_contract (vt_ty (vtable (header b))) \<and>
      vt_trace (vtable (header b)) =
        (if NO_TRACE (vt_ty (vtable (header b))) then trace_noop else trace_impl))"

text \<open>
  A well-formed pointer: it points to a live box, and if its static type says \<open>NO_TRACE\<close> the box
  has the no-op trace function.
\<close>

definition ptr_ok :: "mem \<Rightarrow> bool \<times> addr \<Rightarrow> bool" where
  "ptr_ok m p = (snd p \<in> dom m \<and> (fst p \<longrightarrow> leaf_at m (snd p)))"

definition mem_ok :: "mem \<Rightarrow> bool" where
  "mem_ok m = (\<forall>a b. m a = Some b \<longrightarrow> box_ok b \<and> (\<forall>p\<in>set (gc_ptrs (data b)). ptr_ok m p))"

text \<open>
  Two memories with the same objects up to the collector's own bookkeeping (colour and list link):
  same addresses, same data, root counts and vtables.
\<close>

definition same_obj :: "gc_box \<Rightarrow> gc_box \<Rightarrow> bool" where
  "same_obj b c =
     (data b = data c \<and> root_count (header b) = root_count (header c) \<and>
      vtable (header b) = vtable (header c))"

definition same_objs :: "mem \<Rightarrow> mem \<Rightarrow> bool" where
  "same_objs m n = (\<forall>a. rel_option same_obj (m a) (n a))"

section \<open>Lemmas\<close>

named_theorems mem_views

lemma deref_Some [simp]: "m a = Some b \<Longrightarrow> deref m a = ret b"
  by (simp add: deref_def)

lemma deref_None [simp]: "m a = None \<Longrightarrow> deref m a = raise (UseAfterFree a)"
  by (simp add: deref_def)

lemma modify_header_Some [simp]:
  "m a = Some b \<Longrightarrow> modify_header m a f = ret (m(a \<mapsto> b\<lparr>header := f (header b)\<rparr>))"
  by (simp add: modify_header_def)

lemma modify_header_None [simp]: "m a = None \<Longrightarrow> modify_header m a f = raise (UseAfterFree a)"
  by (simp add: modify_header_def)

lemma drop_impl_Some [simp]: "m a = Some b \<Longrightarrow> drop_impl m a = ret (m(a := None))"
  by (simp add: drop_impl_def)

lemma drop_impl_None [simp]: "m a = None \<Longrightarrow> drop_impl m a = raise (UseAfterFree a)"
  by (simp add: drop_impl_def)

lemma vt_ty_new [simp]: "vt_ty (vtable_new t sz) = t" "vt_size (vtable_new t sz) = sz"
  "vt_trace (vtable_new t sz) = (if NO_TRACE t then trace_noop else trace_impl)"
  by (simp_all add: vt_ty_def vtable_new_def)

lemma box_okD:
  assumes "box_ok b"
  shows "color_valid (color (header b))"
    and "vt_trace (vtable (header b)) = trace_noop \<Longrightarrow> gc_ptrs (data b) = []"
    and "set (traced_ptrs (data b)) = set (gc_ptrs (data b))"
  using assms NO_TRACE_no_point no_point_no_ptrs contract_traces_all
  by (auto simp: box_ok_def split: if_splits)

lemmas box_exec [exec] = box_new_def header_new_def atomic_color_new_def is_root_def header_is_white_def
  inc_root_def dec_root_def node_val_def

lemmas view_defs = white_at_def gray_at_def black_at_def root_at_def size_at_def succs_def leaf_at_def

lemma view_upd [simp]:
  "white_at (m(a \<mapsto> b)) c = (if c = a then color_is_white (color (header b)) else white_at m c)"
  "gray_at (m(a \<mapsto> b)) c = (if c = a then color (header b) = color_as_u8 Gray else gray_at m c)"
  "black_at (m(a \<mapsto> b)) c = (if c = a then color (header b) = color_as_u8 Black else black_at m c)"
  "root_at (m(a \<mapsto> b)) c = (if c = a then is_root (header b) else root_at m c)"
  "size_at (m(a \<mapsto> b)) c = (if c = a then vt_size (vtable (header b)) else size_at m c)"
  "succs (m(a \<mapsto> b)) c = (if c = a then snd ` set (gc_ptrs (data b)) else succs m c)"
  "leaf_at (m(a \<mapsto> b)) c = (if c = a then vt_trace (vtable (header b)) = trace_noop else leaf_at m c)"
  by (simp_all add: view_defs)

lemma view_del [simp]:
  "white_at (m(a := None)) c = (c \<noteq> a \<and> white_at m c)"
  "root_at (m(a := None)) c = (c \<noteq> a \<and> root_at m c)"
  "size_at (m(a := None)) c = (if c = a then 0 else size_at m c)"
  "succs (m(a := None)) c = (if c = a then {} else succs m c)"
  "leaf_at (m(a := None)) c = (c \<noteq> a \<and> leaf_at m c)"
  by (simp_all add: view_defs)

lemma view_dom:
  "white_at m a \<Longrightarrow> a \<in> dom m" "gray_at m a \<Longrightarrow> a \<in> dom m" "black_at m a \<Longrightarrow> a \<in> dom m"
  "root_at m a \<Longrightarrow> a \<in> dom m" "leaf_at m a \<Longrightarrow> a \<in> dom m" "c \<in> succs m a \<Longrightarrow> a \<in> dom m"
  by (auto simp: view_defs split: option.splits)

text \<open>Exactly one colour per live object.\<close>

lemma color_cases:
  assumes "mem_ok m" and "a \<in> dom m"
  obtains "white_at m a" "\<not> gray_at m a" "\<not> black_at m a"
  | "gray_at m a" "\<not> white_at m a" "\<not> black_at m a"
  | "black_at m a" "\<not> white_at m a" "\<not> gray_at m a"
proof -
  obtain b where b: "m a = Some b" using assms(2) by blast
  with assms(1) have "color_valid (color (header b))" by (auto simp: mem_ok_def dest: box_okD(1))
  then consider "color (header b) = 0" | "color (header b) = 1" | "color (header b) = 2"
    by (auto simp: color_valid_def)
  then show thesis using b that by cases (auto simp: view_defs)
qed

lemma mem_okD:
  "mem_ok m \<Longrightarrow> m a = Some b \<Longrightarrow> box_ok b"
  "mem_ok m \<Longrightarrow> m a = Some b \<Longrightarrow> p \<in> set (gc_ptrs (data b)) \<Longrightarrow> ptr_ok m p"
  by (auto simp: mem_ok_def)

lemma succs_dom: "mem_ok m \<Longrightarrow> c \<in> succs m a \<Longrightarrow> c \<in> dom m"
  by (auto simp: succs_def ptr_ok_def dest: mem_okD(2) split: option.splits)

lemma reach_dom: "a \<in> reach m \<Longrightarrow> mem_ok m \<Longrightarrow> a \<in> dom m"
  by (induction rule: reach.induct) (metis view_dom(4), metis succs_dom)

text \<open>
  The abstract argument behind every tracing collector: a set that contains the roots and is closed
  under edges contains everything reachable.
\<close>

lemma reach_least:
  assumes "\<And>a. root_at m a \<Longrightarrow> a \<in> S" and "\<And>a. a \<in> S \<Longrightarrow> succs m a \<subseteq> S"
  shows "reach m \<subseteq> S"
proof
  fix a assume "a \<in> reach m"
  then show "a \<in> S" by induction (use assms in blast)+
qed

lemma same_obj_refl [simp]: "same_obj b b"
  by (simp add: same_obj_def)

lemma same_obj_color [simp]:
  "same_obj b (b\<lparr>header := (header b)\<lparr>color := c\<rparr>\<rparr>)"
  "same_obj b (b\<lparr>header := (header b)\<lparr>nxt := n\<rparr>\<rparr>)"
  by (simp_all add: same_obj_def)

lemma same_objs_refl [simp]: "same_objs m m"
  by (simp add: same_objs_def option.rel_refl)

lemma same_objs_trans [trans]: "same_objs m n \<Longrightarrow> same_objs n k \<Longrightarrow> same_objs m k"
  unfolding same_objs_def
proof (intro allI)
  fix a
  assume "\<forall>a. rel_option same_obj (m a) (n a)" and "\<forall>a. rel_option same_obj (n a) (k a)"
  then have "rel_option same_obj (m a) (n a)" and "rel_option same_obj (n a) (k a)" by blast+
  then show "rel_option same_obj (m a) (k a)"
    by (cases "m a"; cases "n a"; cases "k a") (auto simp: same_obj_def)
qed

lemma same_objs_upd: "m a = Some b \<Longrightarrow> same_obj b c \<Longrightarrow> same_objs m (m(a \<mapsto> c))"
  by (auto simp: same_objs_def intro: option.rel_refl)

lemma same_objs_dom: "same_objs m n \<Longrightarrow> dom m = dom n"
  by (auto simp: same_objs_def dom_def) (metis option.rel_distinct(2) not_Some_eq option.rel_distinct(1))+

lemma same_objs_views:
  assumes "same_objs m n"
  shows "root_at m = root_at n" and "size_at m = size_at n" and "succs m = succs n"
    and "leaf_at m = leaf_at n"
proof -
  have "root_at m a = root_at n a \<and> size_at m a = size_at n a \<and> succs m a = succs n a
      \<and> leaf_at m a = leaf_at n a" for a
    using assms by (cases "m a"; cases "n a")
      (auto simp: same_objs_def view_defs same_obj_def is_root_def dest!: spec [of _ a])
  then show "root_at m = root_at n" "size_at m = size_at n" "succs m = succs n" "leaf_at m = leaf_at n"
    by auto
qed

lemma reach_mono:
  assumes "\<And>a. root_at m a \<Longrightarrow> root_at n a" and "\<And>a. succs m a \<subseteq> succs n a"
  shows "reach m \<subseteq> reach n"
  using assms by (intro reach_least) (auto intro: reach.intros)

lemma same_objs_reach: "same_objs m n \<Longrightarrow> reach m = reach n"
  by (intro equalityI reach_mono) (simp_all add: same_objs_views)

lemma same_objs_ptr_ok: "same_objs m n \<Longrightarrow> ptr_ok m = ptr_ok n"
  by (auto simp: ptr_ok_def same_objs_views same_objs_dom)

text \<open>Recolouring a box with a valid colour keeps the memory well formed.\<close>

lemma mem_ok_upd:
  assumes "mem_ok m" and "m a = Some b" and "same_obj b c" and "color_valid (color (header c))"
  shows "mem_ok (m(a \<mapsto> c))"
proof -
  have eq: "ptr_ok (m(a \<mapsto> c)) = ptr_ok m"
    using same_objs_ptr_ok [OF same_objs_upd [of m a b c]] assms(2,3) by simp
  have "box_ok c" using mem_okD(1) [OF assms(1,2)] assms(3,4) by (auto simp: box_ok_def same_obj_def)
  moreover have "data c = data b" using assms(3) by (simp add: same_obj_def)
  ultimately show ?thesis
    using assms(1,2) unfolding mem_ok_def eq by (auto simp: fun_upd_apply)
qed

text \<open>A freshly built box is well formed, white and rooted once.\<close>

lemma box_ok_new:
  "has_type t v \<Longrightarrow> trace_contract t \<Longrightarrow>
   box_ok \<lparr> header = header_new (vtable_new t sz), data = v \<rparr>"
  by (simp add: box_ok_def header_new_def atomic_color_new_def)

lemma ptr_ok_mono: "ptr_ok m p \<Longrightarrow> m a = None \<Longrightarrow> ptr_ok (m(a \<mapsto> b)) p"
  by (auto simp: ptr_ok_def)

lemma mem_ok_box_new:
  assumes "mem_ok m" and "m a = None" and "has_type t v" and "trace_contract t"
    and "\<forall>p\<in>set (gc_ptrs v). ptr_ok m p"
  shows "mem_ok (box_new m a t sz v)"
  unfolding mem_ok_def box_new_def
proof (intro allI impI)
  fix c b
  let ?b = "\<lparr> header = header_new (vtable_new t sz), data = v \<rparr>"
  assume c: "(m(a \<mapsto> ?b)) c = Some b"
  show "box_ok b \<and> (\<forall>p\<in>set (gc_ptrs (data b)). ptr_ok (m(a \<mapsto> ?b)) p)"
  proof (cases "c = a")
    case True
    with c have b: "b = ?b" by simp
    show ?thesis
      unfolding b using box_ok_new [OF assms(3,4)] assms(2,5) by (simp add: ptr_ok_mono)
  next
    case False
    with c have "m c = Some b" by simp
    then show ?thesis using assms(1,2) mem_okD by (auto intro: ptr_ok_mono)
  qed
qed

section \<open>An example memory\<close>

text \<open>Two list nodes as in the tracing example: the node at 2 points to the node at 3; both are rooted.\<close>

definition chain_mem :: mem where
  "chain_mem = box_new (box_new Map.empty 3 Node 48 (node_val 3 None)) 2 Node 48 (node_val 2 (Some 3))"

lemma Node_ok [simp]: "has_type Node (node_val i n)" "trace_contract Node" "NO_TRACE Node = False"
  by (simp_all add: Node_def node_val_def split: option.splits)

lemma gc_ptrs_node [simp]:
  "gc_ptrs (node_val i None) = []" "gc_ptrs (node_val i (Some a)) = [(False, a)]"
  by (simp_all add: node_val_def)

lemma mem_ok_empty [simp]: "mem_ok Map.empty"
  by (simp add: mem_ok_def)

lemma mem_ok_chain_mem: "mem_ok chain_mem"
  unfolding chain_mem_def
  by (intro mem_ok_box_new) (auto simp: ptr_ok_def box_new_def)

section \<open>Properties\<close>

text \<open>
  Root counting. An object stays a root through any balanced use of its handles: after one
  increment and one decrement the header is unchanged, an increment makes it a root unless the
  64-bit counter wraps from its maximum to zero, and a decrement ends its being a root exactly when
  the count was one. The counter wraps, it does not panic: a surplus decrement of a count of zero
  roots the object for good.
\<close>

theorem root_count_behaviour:
  "dec_root (inc_root h) = h \<and>
   (is_root (inc_root h) \<longleftrightarrow> root_count h \<noteq> usize_MAX) \<and>
   (\<not> is_root (dec_root h) \<longleftrightarrow> root_count h = 1) \<and>
   root_count (dec_root (h\<lparr>root_count := 0\<rparr>)) = usize_MAX"
  by (simp add: dec_root_def inc_root_def is_root_def word_gt_0)
     (metis add.right_inverse add_cancel_left_right eq_neg_iff_add_eq_0 right_minus_eq)

end
