(* ===== verification/Tracer.thy ===== *)
theory Tracer
  imports Gc_Box
begin

text \<open>
  Model of the runtime half of \<open>src/src/trace.rs\<close>: the \<open>Tracer\<close> (a vector of gray objects)
  and the \<open>trace\<close> methods. A method that shades objects runs on the pair of the memory and the
  tracer's vector and returns the new pair.

  The relation \<open>shades A s s'\<close> says what such a run did: exactly the objects of \<open>A\<close> became
  non-white, those that were white and need scanning were pushed once, and nothing but colours
  changed. The locale \<open>object_tracer\<close> is the contract between a vtable's trace function and the
  mark loop; it is interpreted on \<open>vtable_trace\<close>.
\<close>

section \<open>The work list\<close>

type_synonym tracer = "addr list"

definition tracer_new :: tracer where
  "tracer_new = []"

text \<open>\<open>dest.append(&mut self)\<close>: returns the emptied tracer and the extended destination.\<close>

definition append_to :: "tracer \<Rightarrow> addr list \<Rightarrow> tracer \<times> addr list" where
  "append_to tr dest = ([], dest @ tr)"

primrec steal_loop :: "nat \<Rightarrow> tracer \<Rightarrow> addr list \<Rightarrow> tracer \<times> addr list" where
  "steal_loop 0 tr src = (tr, src)"
| "steal_loop (Suc num_items) tr src =
     (case vec_pop src of
        Some (item, src') \<Rightarrow> steal_loop num_items (vec_push tr item) src'
      | None \<Rightarrow> (tr, src))"

definition steal_from :: "tracer \<Rightarrow> usize \<Rightarrow> addr list \<Rightarrow> bool \<times> tracer \<times> addr list" where
  "steal_from tr num_items src =
     (if src = [] \<or> num_items = 0 then (False, tr, src)
      else (True, steal_loop (unat num_items) tr src))"

definition pop_work :: "tracer \<Rightarrow> (addr \<times> tracer) option" where
  "pop_work tr = vec_pop tr"

definition has_work :: "tracer \<Rightarrow> bool" where
  "has_work tr = (tr \<noteq> [])"

section \<open>Marking\<close>

definition set_color :: "atomic_color \<Rightarrow> gc_box \<Rightarrow> gc_box" where
  "set_color c b = b\<lparr>header := (header b)\<lparr>color := c\<rparr>\<rparr>"

definition mark_header :: "addr \<Rightarrow> mem \<times> tracer \<Rightarrow> (mem \<times> tracer) prog" where
  "mark_header a s =
     bind_prog (deref (fst s) a) (\<lambda>b.
       let (won, c') = mark_white_to_gray (color (header b))
       in ret ((fst s)(a \<mapsto> set_color c' b), if won then vec_push (snd s) a else snd s))"

text \<open>\<open>Tracer::mark\<close> on a \<open>GcPtr<T>\<close>; the pointer carries \<open>T::NO_TRACE\<close>.\<close>

definition mark :: "bool \<times> addr \<Rightarrow> mem \<times> tracer \<Rightarrow> (mem \<times> tracer) prog" where
  "mark ptr s =
     (if fst ptr then
        bind_prog (deref (fst s) (snd ptr)) (\<lambda>b.
          ret ((fst s)(snd ptr \<mapsto> set_color (mark_black (color (header b))) b), snd s))
      else mark_header (snd ptr) s)"

text \<open>The \<open>trace\<close> method of every implementation, in the order of the source.\<close>

fun trace :: "val \<Rightarrow> mem \<times> tracer \<Rightarrow> (mem \<times> tracer) prog" where
  "trace (VPrim n) s = ret s"
| "trace (VDeref v) s = trace v s"
| "trace (VSeq vs) s = for_each (\<lambda>item. trace item) vs s"
| "trace (VMap kvs) s = for_each (\<lambda>kv s. bind_prog (trace (fst kv) s) (\<lambda>s. trace (snd kv) s)) kvs s"
| "trace (VOk v) s = trace v s"
| "trace (VErr v) s = trace v s"
| "trace VNone s = ret s"
| "trace (VSome v) s = trace v s"
| "trace (VPtr nt a) s = mark (nt, a) s"
| "trace (VCell v) s = trace v s"
| "trace (VStruct vs) s = for_each (\<lambda>bv s. if fst bv then trace (snd bv) s else ret s) vs s"

text \<open>The trace function a vtable holds: the no-op, or \<open>trace_impl\<close>, which traces the data.\<close>

definition vtable_trace :: "addr \<Rightarrow> mem \<times> tracer \<Rightarrow> (mem \<times> tracer) prog" where
  "vtable_trace a s =
     bind_prog (deref (fst s) a) (\<lambda>b.
       case vt_trace (vtable (header b)) of
         trace_noop \<Rightarrow> ret s
       | trace_impl \<Rightarrow> trace (data b) s)"

lemma steal_loop_exec [exec]:
  "steal_loop n tr [] = (tr, [])"
  "steal_loop (numeral k) tr (x # src) =
     steal_loop (pred_numeral k) (vec_push tr (last (x # src))) (butlast (x # src))"
  "steal_loop (Suc n) tr (x # src) = steal_loop n (vec_push tr (last (x # src))) (butlast (x # src))"
  by (cases n, simp_all add: vec_pop_def numeral_eq_Suc)

lemmas tracer_exec [exec] = tracer_new_def append_to_def steal_from_def pop_work_def has_work_def
  set_color_def mark_header_def mark_def vtable_trace_def mark_white_to_gray_eq

section \<open>What a run of trace does\<close>

definition nonwhite :: "mem \<Rightarrow> addr set" where
  "nonwhite m = {a \<in> dom m. \<not> white_at m a}"

text \<open>Same memory up to colours.\<close>

definition recolored :: "mem \<Rightarrow> mem \<Rightarrow> bool" where
  "recolored m n \<longleftrightarrow> (\<forall>a. n a = None \<longleftrightarrow> m a = None) \<and>
     (\<forall>a b. m a = Some b \<longrightarrow> (\<exists>k. n a = Some (set_color k b)))"

definition shades :: "addr set \<Rightarrow> mem \<times> tracer \<Rightarrow> mem \<times> tracer \<Rightarrow> bool" where
  "shades A s s' \<longleftrightarrow>
     recolored (fst s) (fst s') \<and> mem_ok (fst s') \<and>
     nonwhite (fst s') = nonwhite (fst s) \<union> A \<and>
     (\<exists>new. snd s' = snd s @ new \<and> distinct new \<and> set new \<subseteq> A \<inter> Collect (white_at (fst s)) \<and>
        (\<forall>c. gray_at (fst s') c \<longrightarrow> gray_at (fst s) c \<or> c \<in> set new)) \<and>
     (\<forall>c. black_at (fst s') c \<longrightarrow> black_at (fst s) c \<or> leaf_at (fst s) c)"

text \<open>
  The tricolour invariant with a pending set: pending objects are live and non-white, every gray
  object is pending, and no black object points to a white one.
\<close>

definition tricolor :: "mem \<Rightarrow> addr set \<Rightarrow> bool" where
  "tricolor m P \<longleftrightarrow>
     mem_ok m \<and> P \<subseteq> nonwhite m \<and> (\<forall>a. gray_at m a \<longrightarrow> a \<in> P) \<and>
     (\<forall>a. black_at m a \<longrightarrow> succs m a \<subseteq> nonwhite m)"

text \<open>The number of objects still to be discovered; a marking step never increases it.\<close>

definition n_white :: "mem \<Rightarrow> nat" where
  "n_white m = card {a \<in> dom m. white_at m a}"

section \<open>The contract of a work list\<close>

text \<open>What the mark loop relies on: no object is lost or duplicated by the queue operations.\<close>

locale worklist =
  fixes items :: "'q \<Rightarrow> 'a multiset"
    and push :: "'q \<Rightarrow> 'a \<Rightarrow> 'q"
    and pop :: "'q \<Rightarrow> ('a \<times> 'q) option"
  assumes items_push: "items (push q x) = add_mset x (items q)"
    and pop_Some: "pop q = Some (x, q') \<Longrightarrow> items q = add_mset x (items q')"
    and pop_None: "pop q = None \<Longrightarrow> items q = {#}"
begin

text \<open>Moving an item between two queues conserves the items.\<close>

lemma move_conserves:
  "pop q = Some (x, q') \<Longrightarrow> items (push r x) + items q' = items r + items q"
  by (simp add: items_push pop_Some)

lemma pop_push_items: "pop (push q x) = Some (y, q') \<Longrightarrow> add_mset y (items q') = add_mset x (items q)"
  using pop_Some items_push by metis

end

interpretation wl: worklist mset vec_push vec_pop
  by unfold_locales (auto simp: vec_pop_Some)

lemma steal_loop_conserves:
  "steal_loop n tr src = (tr', src') \<Longrightarrow> mset tr' + mset src' = mset tr + mset src"
proof (induction n arbitrary: tr src)
  case (Suc n)
  then show ?case
    using wl.move_conserves by (fastforce split: option.splits)
qed simp

lemma steal_loop_length:
  "steal_loop n tr src = (tr', src') \<Longrightarrow>
   length src' = length src - n \<and> length tr' = length tr + min n (length src)"
proof (induction n arbitrary: tr src)
  case (Suc n)
  then show ?case by (fastforce split: option.splits simp: vec_pop_Some)
qed simp

text \<open>Stealing and merging move work and lose none.\<close>

lemma steal_from_items:
  assumes "steal_from tr n src = (ok, tr', src')"
  shows "mset tr' + mset src' = mset tr + mset src" and "ok \<longleftrightarrow> src \<noteq> [] \<and> n \<noteq> 0"
    and "ok \<Longrightarrow> length src' < length src" and "ok \<Longrightarrow> tr' \<noteq> []"
proof -
  have n: "n \<noteq> 0 \<Longrightarrow> 0 < unat n" by (simp add: unat_gt_0)
  note conserves = steal_loop_conserves [of "unat n" tr src tr' src']
  note lengths = steal_loop_length [of "unat n" tr src tr' src']
  show "mset tr' + mset src' = mset tr + mset src" "ok \<longleftrightarrow> src \<noteq> [] \<and> n \<noteq> 0"
    using assms conserves by (auto simp: steal_from_def split: if_splits)
  show "length src' < length src" if ok
    using assms lengths n that by (auto simp: steal_from_def split: if_splits)
  have "0 < length tr'" if ok
  proof -
    have "0 < min (unat n) (length src)" "length tr' = length tr + min (unat n) (length src)"
      using assms lengths n that by (auto simp: steal_from_def split: if_splits)
    then show ?thesis by linarith
  qed
  then show "tr' \<noteq> []" if ok using that by simp
qed

lemma steal_from_set:
  "steal_from tr n src = (ok, tr', src') \<Longrightarrow> set tr' \<union> set src' = set tr \<union> set src"
  using steal_from_items(1) by (metis set_mset_mset set_mset_union)

section \<open>Recolouring\<close>

lemma set_color_simps [simp]:
  "color (header (set_color c b)) = c" "root_count (header (set_color c b)) = root_count (header b)"
  "nxt (header (set_color c b)) = nxt (header b)" "vtable (header (set_color c b)) = vtable (header b)"
  "data (set_color c b) = data b" "set_color c (set_color d b) = set_color c b"
  "is_root (header (set_color c b)) = is_root (header b)" "same_obj b (set_color c b)"
  by (simp_all add: set_color_def is_root_def same_obj_def)

lemma set_color_same [simp]: "set_color (color (header b)) b = b"
  by (simp add: set_color_def)

lemma recolored_refl [simp]: "recolored m m"
  unfolding recolored_def by (metis set_color_same)

lemma recolored_trans [trans]: "recolored m n \<Longrightarrow> recolored n k \<Longrightarrow> recolored m k"
  unfolding recolored_def by (metis set_color_simps(6))

lemma recolored_upd: "m a = Some b \<Longrightarrow> recolored m (m(a \<mapsto> set_color c b))"
  using recolored_refl [of m] unfolding recolored_def by auto

lemma recolored_same_objs:
  assumes "recolored m n"
  shows "same_objs m n"
  unfolding same_objs_def
proof
  fix a show "rel_option same_obj (m a) (n a)"
  proof (cases "m a")
    case None
    then show ?thesis using assms by (simp add: recolored_def)
  next
    case (Some b)
    then obtain k where "n a = Some (set_color k b)" using assms unfolding recolored_def by blast
    with Some show ?thesis by simp
  qed
qed

lemma recolored_dom: "recolored m n \<Longrightarrow> dom n = dom m"
  using same_objs_dom [OF recolored_same_objs] by metis

lemma recolored_nxt:
  "recolored m n \<Longrightarrow> m a = Some b \<Longrightarrow> \<exists>c. n a = Some c \<and> nxt (header c) = nxt (header b)"
  unfolding recolored_def by (metis set_color_simps(3))

lemma nonwhite_dom: "nonwhite m \<subseteq> dom m"
  by (auto simp: nonwhite_def)

lemma nonwhite_iff:
  assumes "mem_ok m"
  shows "a \<in> nonwhite m \<longleftrightarrow> gray_at m a \<or> black_at m a"
proof (cases "a \<in> dom m")
  case True
  with assms show ?thesis by (rule color_cases) (simp_all add: nonwhite_def True)
next
  case False
  then show ?thesis using view_dom(2,3) [of m a] nonwhite_dom [of m] by blast
qed

lemma nonwhite_upd:
  "m a = Some b \<Longrightarrow> nonwhite (m(a \<mapsto> c)) =
     (if color_is_white (color (header c)) then nonwhite m - {a} else insert a (nonwhite m))"
  by (auto simp: nonwhite_def)

section \<open>Shading\<close>

lemma shades_refl [simp]: "mem_ok (fst s) \<Longrightarrow> shades {} s s"
  by (auto simp: shades_def)

lemma shades_mem_ok: "shades A s s' \<Longrightarrow> mem_ok (fst s')"
  by (simp add: shades_def)

lemma shades_same_objs: "shades A s s' \<Longrightarrow> same_objs (fst s) (fst s')"
  by (simp add: shades_def recolored_same_objs)

lemma shades_trans:
  assumes 1: "shades A s t" and 2: "shades B t u"
  shows "shades (A \<union> B) s u"
proof -
  obtain n1 where n1: "snd t = snd s @ n1" "distinct n1" "set n1 \<subseteq> A \<inter> Collect (white_at (fst s))"
      "\<forall>c. gray_at (fst t) c \<longrightarrow> gray_at (fst s) c \<or> c \<in> set n1"
    using 1 by (auto simp: shades_def)
  obtain n2 where n2: "snd u = snd t @ n2" "distinct n2" "set n2 \<subseteq> B \<inter> Collect (white_at (fst t))"
      "\<forall>c. gray_at (fst u) c \<longrightarrow> gray_at (fst t) c \<or> c \<in> set n2"
    using 2 by (auto simp: shades_def)
  have nw: "nonwhite (fst t) = nonwhite (fst s) \<union> A" using 1 by (simp add: shades_def)
  have dom: "dom (fst s) = dom (fst t)" by (rule same_objs_dom [OF shades_same_objs [OF 1]])
  have was_white: "white_at (fst s) c \<and> c \<notin> A" if "white_at (fst t) c" for c
    using that nw view_dom(1) [OF that] dom unfolding nonwhite_def by blast
  have dis: "distinct (n1 @ n2)" using n1 n2 was_white by fastforce
  have sub: "set (n1 @ n2) \<subseteq> (A \<union> B) \<inter> Collect (white_at (fst s))" using n1 n2 was_white by fastforce
  have gray: "\<forall>c. gray_at (fst u) c \<longrightarrow> gray_at (fst s) c \<or> c \<in> set (n1 @ n2)"
    using n1(4) n2(4) by auto
  have leaf: "leaf_at (fst s) = leaf_at (fst t)" by (rule same_objs_views(4) [OF shades_same_objs [OF 1]])
  have black: "\<forall>c. black_at (fst u) c \<longrightarrow> black_at (fst s) c \<or> leaf_at (fst s) c"
    using 1 2 leaf by (auto simp: shades_def)
  have "recolored (fst s) (fst u)" using 1 2 recolored_trans by (auto simp: shades_def)
  moreover have "nonwhite (fst u) = nonwhite (fst s) \<union> (A \<union> B)" using 2 nw by (auto simp: shades_def)
  moreover have "snd u = snd s @ (n1 @ n2)" using n1(1) n2(1) by simp
  ultimately show ?thesis
    using dis sub gray black shades_mem_ok [OF 2] unfolding shades_def by blast
qed

lemma shades_upd:
  assumes "mem_ok m" and "m a = Some b" and "color_valid k" and "k \<noteq> 0"
    and "k = color_as_u8 Gray \<Longrightarrow> gray_at m a \<or> (white_at m a \<and> new = [a])"
    and "k = color_as_u8 Black \<Longrightarrow> black_at m a \<or> leaf_at m a"
    and "new = [] \<or> (white_at m a \<and> new = [a])"
  shows "shades {a} (m, tr) (m(a \<mapsto> set_color k b), tr @ new)"
proof -
  have "mem_ok (m(a \<mapsto> set_color k b))" using assms(1-3) by (intro mem_ok_upd) auto
  moreover have "nonwhite (m(a \<mapsto> set_color k b)) = nonwhite m \<union> {a}"
    using assms(2-4) by (simp add: nonwhite_upd color_is_white_iff)
  ultimately show ?thesis
    using assms recolored_upd [of m a b k] unfolding shades_def by (fastforce split: if_splits)
qed

lemma mark_header_shades:
  assumes "mem_ok m" and "a \<in> dom m"
  shows "returns (mark_header a (m, tr)) (shades {a} (m, tr))"
proof -
  obtain b where b: "m a = Some b" using assms(2) by blast
  have v: "color_valid (color (header b))" using mem_okD(1) [OF assms(1) b] by (rule box_okD(1))
  show ?thesis
  proof (cases "color (header b) = 0")
    case True
    then have "shades {a} (m, tr) (m(a \<mapsto> set_color 1 b), tr @ [a])"
      using assms(1) b by (intro shades_upd) (auto simp: view_defs)
    then show ?thesis
      using b True by (simp add: mark_header_def mark_white_to_gray_eq vec_push_def)
  next
    case False
    have "shades {a} (m, tr) (m(a \<mapsto> set_color (color (header b)) b), tr @ [])"
      using assms(1) b v False by (intro shades_upd) (auto simp: view_defs color_valid_def)
    then show ?thesis
      using b False by (simp add: mark_header_def mark_white_to_gray_eq)
  qed
qed

lemma mark_shades:
  assumes "mem_ok m" and "ptr_ok m p"
  shows "returns (mark p (m, tr)) (shades {snd p} (m, tr))"
proof (cases "fst p")
  case True
  obtain b where b: "m (snd p) = Some b" using assms(2) by (auto simp: ptr_ok_def)
  have "leaf_at m (snd p)" using assms(2) True by (simp add: ptr_ok_def)
  then have "shades {snd p} (m, tr) (m(snd p \<mapsto> set_color 2 b), tr @ [])"
    using assms(1) b by (intro shades_upd) auto
  then show ?thesis using b True by (simp add: mark_def)
next
  case False
  then show ?thesis
    using mark_header_shades [OF assms(1)] assms(2) by (simp add: mark_def ptr_ok_def)
qed

text \<open>Every \<open>trace\<close> method is a loop of \<open>mark\<close> over the traced pointers.\<close>

lemma trace_eq_marks: "trace v s = for_each mark (traced_ptrs v) s"
proof (induction v arbitrary: s)
  case (VSeq vs)
  then show ?case by (auto intro: for_each_concat_map)
next
  case (VMap kvs)
  have "bind_prog (trace (fst kv) s) (trace (snd kv)) =
      for_each mark (traced_ptrs (fst kv) @ traced_ptrs (snd kv)) s" if "kv \<in> set kvs" for kv s
    using VMap [OF that] by (cases kv) (auto simp: for_each_append intro: bind_cong)
  then show ?case by (auto intro: for_each_concat_map)
next
  case (VStruct vs)
  have "(if fst bv then trace (snd bv) s else ret s) =
      for_each mark (if fst bv then traced_ptrs (snd bv) else []) s" if "bv \<in> set vs" for bv s
    using VStruct [OF that] by (cases bv) auto
  then show ?case by (auto intro: for_each_concat_map)
qed (auto simp: for_each_Nil)

lemma marks_shade:
  assumes "mem_ok (fst s)" and "\<forall>p\<in>set ps. ptr_ok (fst s) p"
  shows "returns (for_each mark ps s) (shades (snd ` set ps) s)"
  using assms
proof (induction ps arbitrary: s)
  case (Cons p ps)
  have "returns (mark p s) (shades {snd p} s)"
    using mark_shades [of "fst s" p "snd s"] Cons.prems by simp
  then show ?case
    unfolding for_each.simps
  proof (rule returns_bindI)
    fix t assume t: "shades {snd p} s t"
    then have "ptr_ok (fst t) = ptr_ok (fst s)" using same_objs_ptr_ok [OF shades_same_objs] by metis
    then have "returns (for_each mark ps t) (shades (snd ` set ps) t)"
      using Cons.IH [of t] Cons.prems(2) shades_mem_ok [OF t] by simp
    then show "returns (for_each mark ps t) (shades (snd ` set (p # ps)) s)"
      by (rule returns_mono) (use shades_trans [OF t] in simp)
  qed
qed simp

section \<open>The contract of a vtable's trace function\<close>

definition blacken :: "addr \<Rightarrow> mem \<times> tracer \<Rightarrow> (mem \<times> tracer) prog" where
  "blacken a s =
     bind_prog (deref (fst s) a) (\<lambda>b.
       ret ((fst s)(a \<mapsto> set_color (mark_black (color (header b))) b), snd s))"

text \<open>The outcome of scanning \<open>a\<close> while the objects of \<open>Q\<close> wait in the shared queue.\<close>

definition scanned :: "addr set \<Rightarrow> addr \<Rightarrow> mem \<times> tracer \<Rightarrow> mem \<times> tracer \<Rightarrow> bool" where
  "scanned Q a s s' \<longleftrightarrow>
     recolored (fst s) (fst s') \<and> tricolor (fst s') (Q \<union> set (snd s')) \<and>
     nonwhite (fst s') = nonwhite (fst s) \<union> succs (fst s) a \<and>
     n_white (fst s') + length (snd s') \<le> n_white (fst s) + length (snd s)"

lemma leaf_succs: "mem_ok m \<Longrightarrow> leaf_at m a \<Longrightarrow> succs m a = {}"
  by (auto simp: view_defs dest!: mem_okD(1) dest: box_okD(2) split: option.splits)

lemma tricolorD:
  "tricolor m P \<Longrightarrow> mem_ok m" "tricolor m P \<Longrightarrow> a \<in> P \<Longrightarrow> a \<in> dom m"
  "tricolor m P \<Longrightarrow> a \<in> P \<Longrightarrow> a \<in> nonwhite m"
  by (auto simp: tricolor_def nonwhite_def)

lemma recolored_succs: "recolored m n \<Longrightarrow> succs n = succs m"
  using same_objs_views(3) [OF recolored_same_objs] by metis

lemma tricolor_shades:
  assumes inv: "tricolor (fst s) (Q \<union> set (snd s))" and sh: "shades A s s'"
  shows "tricolor (fst s') (Q \<union> set (snd s'))"
proof -
  obtain new where new: "snd s' = snd s @ new" "set new \<subseteq> A"
      "\<forall>c. gray_at (fst s') c \<longrightarrow> gray_at (fst s) c \<or> c \<in> set new"
    using sh by (auto simp: shades_def)
  have nw: "nonwhite (fst s') = nonwhite (fst s) \<union> A" using sh by (simp add: shades_def)
  have eq: "succs (fst s') = succs (fst s)" using sh recolored_succs by (auto simp: shades_def)
  have "succs (fst s') a \<subseteq> nonwhite (fst s')" if "black_at (fst s') a" for a
  proof -
    have "black_at (fst s) a \<or> leaf_at (fst s) a" using sh that by (simp add: shades_def)
    then have "succs (fst s) a \<subseteq> nonwhite (fst s)"
      using inv leaf_succs by (auto simp: tricolor_def)
    then show ?thesis using eq nw by auto
  qed
  moreover have "Q \<union> set (snd s') \<subseteq> nonwhite (fst s')"
    using inv new nw by (auto simp: tricolor_def)
  moreover have "gray_at (fst s') a \<longrightarrow> a \<in> Q \<union> set (snd s')" for a
    using inv new by (auto simp: tricolor_def)
  ultimately show ?thesis using shades_mem_ok [OF sh] by (auto simp: tricolor_def)
qed

lemma tricolor_blacken:
  assumes inv: "tricolor m (insert a P)" and a: "m a = Some b" and s: "succs m a \<subseteq> nonwhite m"
  shows "tricolor (m(a \<mapsto> set_color 2 b)) P"
proof -
  let ?m = "m(a \<mapsto> set_color 2 b)"
  have ok: "mem_ok ?m" using tricolorD(1) [OF inv] a by (intro mem_ok_upd) auto
  have nw: "nonwhite ?m = nonwhite m" using a tricolorD(3) [OF inv] by (auto simp: nonwhite_upd)
  have eq: "succs ?m = succs m" using recolored_succs [OF recolored_upd] a by metis
  show ?thesis
    using inv s unfolding tricolor_def nw eq by (auto simp: ok split: if_splits)
qed

lemma shades_measure:
  assumes sh: "shades A s s'" and fin: "finite (dom (fst s))"
  shows "n_white (fst s') + length (snd s') \<le> n_white (fst s) + length (snd s)"
proof -
  obtain new where new: "snd s' = snd s @ new" "distinct new"
      "set new \<subseteq> A \<inter> Collect (white_at (fst s))"
    using sh by (auto simp: shades_def)
  let ?W = "{a \<in> dom (fst s). white_at (fst s) a}" and ?W' = "{a \<in> dom (fst s'). white_at (fst s') a}"
  have dom: "dom (fst s') = dom (fst s)" using same_objs_dom [OF shades_same_objs [OF sh]] by simp
  have nw: "nonwhite (fst s') = nonwhite (fst s) \<union> A" using sh by (simp add: shades_def)
  have "?W' \<union> set new \<subseteq> ?W" "?W' \<inter> set new = {}"
    using new(3) nw dom view_dom(1) [of "fst s"] unfolding nonwhite_def by blast+
  then have "card ?W' + card (set new) \<le> card ?W"
    by (metis (no_types, lifting) card_Un_disjoint card_mono fin finite_Un finite_subset mem_Collect_eq subsetI)
  then show ?thesis using new by (simp add: n_white_def distinct_card)
qed

lemma n_white_blacken:
  assumes "finite (dom m)" and "m a = Some b"
  shows "n_white (m(a \<mapsto> set_color 2 b)) \<le> n_white m"
  unfolding n_white_def using assms by (intro card_mono) auto

locale object_tracer =
  fixes trace_object :: "addr \<Rightarrow> mem \<times> tracer \<Rightarrow> (mem \<times> tracer) prog"
  assumes shades_succs:
    "mem_ok m \<Longrightarrow> a \<in> dom m \<Longrightarrow> returns (trace_object a (m, tr)) (shades (succs m a) (m, tr))"
begin

text \<open>Tracing an object and then blackening it keeps the tricolour invariant and takes it off the pending set.\<close>

lemma scan_step:
  assumes inv: "tricolor m (insert a (Q \<union> set tr))" and fin: "finite (dom m)"
  shows "returns (bind_prog (trace_object a (m, tr)) (blacken a)) (scanned Q a (m, tr))"
proof (rule returns_bindI)
  have ad: "a \<in> dom m" using tricolorD(2) [OF inv] by simp
  then show "returns (trace_object a (m, tr)) (shades (succs m a) (m, tr))"
    by (intro shades_succs tricolorD(1) [OF inv])
  fix s assume sh: "shades (succs m a) (m, tr) s"
  have rc: "recolored m (fst s)" and nw: "nonwhite (fst s) = nonwhite m \<union> succs m a"
    using sh by (auto simp: shades_def)
  have "dom (fst s) = dom m" using same_objs_dom [OF shades_same_objs [OF sh]] by simp
  then obtain b where b: "fst s a = Some b" using ad by blast
  have "tricolor (fst s) (insert a Q \<union> set (snd s))"
    by (rule tricolor_shades [OF _ sh]) (use inv in simp)
  then have tri: "tricolor ((fst s)(a \<mapsto> set_color 2 b)) (Q \<union> set (snd s))"
    using b nw recolored_succs [OF rc] by (intro tricolor_blacken) auto
  have "nonwhite ((fst s)(a \<mapsto> set_color 2 b)) = nonwhite m \<union> succs m a"
    using b nw tricolorD(3) [OF inv, of a] by (auto simp: nonwhite_upd)
  moreover have "n_white ((fst s)(a \<mapsto> set_color 2 b)) + length (snd s) \<le> n_white m + length tr"
    using n_white_blacken [of "fst s" a b] shades_measure [OF sh] b fin \<open>dom (fst s) = dom m\<close> by simp
  moreover have "recolored m ((fst s)(a \<mapsto> set_color 2 b))"
    using recolored_trans [OF rc recolored_upd [of "fst s" a b 2, OF b]] .
  ultimately show "returns (blacken a s) (scanned Q a (m, tr))"
    using b tri by (simp add: blacken_def scanned_def)
qed

end

text \<open>The trace function of a vtable shades exactly the objects its box points to.\<close>

lemma vtable_trace_shades:
  assumes "mem_ok m" and "a \<in> dom m"
  shows "returns (vtable_trace a (m, tr)) (shades (succs m a) (m, tr))"
proof -
  obtain b where b: "m a = Some b" using assms(2) by blast
  note ok = mem_okD(1) [OF assms(1) b]
  show ?thesis
  proof (cases "vt_trace (vtable (header b))")
    case trace_noop
    then have "succs m a = {}" using box_okD(2) [OF ok] b by (simp add: succs_def)
    then show ?thesis using b trace_noop assms(1) by (simp add: vtable_trace_def)
  next
    case trace_impl
    have "snd ` set (traced_ptrs (data b)) = succs m a"
      using box_okD(3) [OF ok] b by (simp add: succs_def)
    moreover have "returns (for_each mark (traced_ptrs (data b)) (m, tr))
        (shades (snd ` set (traced_ptrs (data b))) (m, tr))"
      using assms(1) mem_okD(2) [OF assms(1) b] box_okD(3) [OF ok] by (intro marks_shade) auto
    ultimately show ?thesis using b trace_impl by (simp add: vtable_trace_def trace_eq_marks)
  qed
qed

interpretation vt: object_tracer vtable_trace
  by unfold_locales (rule vtable_trace_shades)

section \<open>Properties\<close>

text \<open>
  The queue operations lose no work. Merging a tracer into the shared queue empties it and
  keeps every gray object; stealing moves at most the requested number of objects, keeps all of
  them, and reports success exactly when there was something to steal and something was asked for.
\<close>

theorem queue_conserves_work:
  "mset (snd (append_to tr dest)) = mset tr + mset dest \<and> fst (append_to tr dest) = [] \<and>
   (case steal_from tr n src of (ok, tr', src') \<Rightarrow>
      mset tr' + mset src' = mset tr + mset src \<and> (ok \<longleftrightarrow> src \<noteq> [] \<and> n \<noteq> 0) \<and>
      length src - length src' \<le> unat n)"
proof -
  obtain ok tr' src' where st: "steal_from tr n src = (ok, tr', src')"
    by (metis prod_cases3)
  have "length src - length src' \<le> unat n"
    using st steal_loop_length [of "unat n" tr src tr' src'] by (auto simp: steal_from_def split: if_splits)
  then show ?thesis using st steal_from_items [OF st] by (simp add: append_to_def)
qed

text \<open>
  Tracing is exact and memory safe. In a well-formed memory, calling the trace function of a
  live object ends without touching freed memory, and the objects that are non-white afterwards are
  those that were before together with exactly the objects the traced one points to. Nothing but
  colours changes.
\<close>

theorem vtable_trace_exact:
  assumes "mem_ok m" and "a \<in> dom m"
  shows "\<exists>m' tr'. vtable_trace a (m, tr) = ret (m', tr') \<and> nonwhite m' = nonwhite m \<union> succs m a \<and>
    recolored m m'"
proof -
  obtain s where "vtable_trace a (m, tr) = ret s" "shades (succs m a) (m, tr) s"
    using vt.shades_succs [OF assms, of tr] by (rule returnsE)
  then show ?thesis by (cases s) (auto simp: shades_def)
qed

theorem vtable_trace_exact_witness:
  "\<exists>m' tr'. vtable_trace 2 (chain_mem, []) = ret (m', tr') \<and>
    nonwhite m' = nonwhite chain_mem \<union> {3} \<and> recolored chain_mem m'"
proof -
  have "2 \<in> dom chain_mem" "succs chain_mem 2 = {3}"
    by (simp_all add: chain_mem_def box_new_def succs_def node_val_def)
  then show ?thesis
    using vtable_trace_exact [OF mem_ok_chain_mem, of 2 "[]"] by simp
qed

end
