(* ===== verification/Gc_Options.thy ===== *)
theory Gc_Options
  imports Gc_Prelude
begin

text \<open>
  Model of \<open>GcOptions\<close> in \<open>src/src/heap.rs\<close>: the tuning record, its presets, the switches
  derived from it and the pacing function \<open>calculate_threshold\<close>. A \<open>Duration\<close> is its number of
  nanoseconds. The pacing arithmetic is on \<open>usize\<close>, so it is modelled on 64-bit words with the
  build profile deciding whether an overflow panics or wraps; \<open>threshold_nat\<close> is the same
  calculation on unbounded numbers and the two agree whenever nothing overflows.
\<close>

section \<open>Options\<close>

record gc_options =
  collection_interval :: nat
  incremental_work_budget :: usize
  assist_work_budget :: usize
  threshold_percent :: usize
  threshold_shrink_percent :: usize
  min_threshold_bytes :: usize
  limit_bytes :: usize

definition from_millis :: "nat \<Rightarrow> nat" where
  "from_millis ms = ms * 1000000"

definition as_millis :: "nat \<Rightarrow> nat" where
  "as_millis d = d div 1000000"

definition options_DEFAULT :: gc_options where
  "options_DEFAULT =
     \<lparr> collection_interval = from_millis 100, incremental_work_budget = 100, assist_work_budget = 5,
       threshold_percent = 30, threshold_shrink_percent = 30, min_threshold_bytes = 1024 * 1024,
       limit_bytes = usize_MAX \<rparr>"

definition options_OFF :: gc_options where
  "options_OFF =
     \<lparr> collection_interval = from_millis 0, incremental_work_budget = usize_MAX,
       assist_work_budget = 0, threshold_percent = usize_MAX, threshold_shrink_percent = 0,
       min_threshold_bytes = usize_MAX, limit_bytes = usize_MAX \<rparr>"

definition options_new :: gc_options where
  "options_new = options_DEFAULT"

definition options_off :: gc_options where
  "options_off = options_OFF"

definition options_default :: gc_options where
  "options_default = options_DEFAULT"

definition is_threshold_off :: "gc_options \<Rightarrow> bool" where
  "is_threshold_off o' = (threshold_percent o' = 0 \<or> threshold_percent o' = usize_MAX)"

definition is_limit_off :: "gc_options \<Rightarrow> bool" where
  "is_limit_off o' = (limit_bytes o' = usize_MAX)"

definition is_background_collection_off :: "gc_options \<Rightarrow> bool" where
  "is_background_collection_off o' =
     (is_threshold_off o' \<or> as_millis (collection_interval o') = 0)"

definition is_completely_off :: "gc_options \<Rightarrow> bool" where
  "is_completely_off o' = (is_threshold_off o' \<and> is_limit_off o')"

section \<open>Pacing\<close>

definition calculate_threshold :: "profile \<Rightarrow> gc_options \<Rightarrow> usize \<Rightarrow> usize \<Rightarrow> usize prog" where
  "calculate_threshold p o' old_threshold live_usage =
     (if is_threshold_off o' then ret usize_MAX
      else
        bind_prog (mul_usize p live_usage (threshold_percent o')) (\<lambda>prod.
        bind_prog (add_usize p live_usage (prod div 100)) (\<lambda>new_threshold.
        let finish = ret (if new_threshold < min_threshold_bytes o' then min_threshold_bytes o'
                          else new_threshold)
        in if new_threshold < old_threshold then
             if threshold_shrink_percent o' = 0 then ret old_threshold
             else if threshold_shrink_percent o' < 100 then
               bind_prog (mul_usize p old_threshold (threshold_shrink_percent o')) (\<lambda>prod.
               if new_threshold > prod div 100 then ret old_threshold else finish)
             else finish
           else finish)))"

text \<open>The same pacing on unbounded numbers.\<close>

definition goal_nat :: "gc_options \<Rightarrow> nat \<Rightarrow> nat" where
  "goal_nat o' live = live + live * unat (threshold_percent o') div 100"

definition keeps_old :: "gc_options \<Rightarrow> nat \<Rightarrow> nat \<Rightarrow> bool" where
  "keeps_old o' old goal =
     (goal < old \<and> (threshold_shrink_percent o' = 0 \<or>
        (threshold_shrink_percent o' < 100 \<and> goal > old * unat (threshold_shrink_percent o') div 100)))"

definition threshold_nat :: "gc_options \<Rightarrow> nat \<Rightarrow> nat \<Rightarrow> nat" where
  "threshold_nat o' old live =
     (if is_threshold_off o' then 2 ^ 64 - 1
      else if keeps_old o' old (goal_nat o' live) then old
      else max (unat (min_threshold_bytes o')) (goal_nat o' live))"

text \<open>No step of the pacing overflows.\<close>

definition pacing_fits :: "gc_options \<Rightarrow> nat \<Rightarrow> nat \<Rightarrow> bool" where
  "pacing_fits o' old live =
     (is_threshold_off o' \<or>
      live * unat (threshold_percent o') < 2 ^ 64 \<and> goal_nat o' live < 2 ^ 64 \<and>
      (goal_nat o' live < old \<and> threshold_shrink_percent o' \<noteq> 0 \<and> threshold_shrink_percent o' < 100
        \<longrightarrow> old * unat (threshold_shrink_percent o') < 2 ^ 64))"

section \<open>Lemmas\<close>

lemma unat_div_100 [simp]: "unat (x div 100 :: usize) = unat x div 100"
  by (simp add: unat_div)

lemma calculate_threshold_fits:
  assumes fits: "pacing_fits o' (unat old) (unat live)"
  shows "returns (calculate_threshold p o' old live) (\<lambda>r. unat r = threshold_nat o' (unat old) (unat live))"
proof (cases "is_threshold_off o'")
  case True
  then show ?thesis
    by (simp add: calculate_threshold_def threshold_nat_def)
next
  case False
  let ?pct = "threshold_percent o'" and ?shr = "threshold_shrink_percent o'"
  have m: "unat live * unat ?pct < 2 ^ 64" using fits False by (simp add: pacing_fits_def)
  have um: "unat (live * ?pct) = unat live * unat ?pct" using m by (rule unat_mul_usize)
  have g: "unat live + unat (live * ?pct div 100) < 2 ^ 64"
    using fits False by (simp add: pacing_fits_def goal_nat_def um)
  have ug: "unat (live + live * ?pct div 100) = goal_nat o' (unat live)"
    using unat_add_usize [OF g] by (simp add: goal_nat_def um)
  have lt: "live + live * ?pct div 100 < w \<longleftrightarrow> goal_nat o' (unat live) < unat w" for w
    by (simp add: word_less_nat_alt ug)
  show ?thesis
  proof (cases "goal_nat o' (unat live) < unat old \<and> ?shr \<noteq> 0 \<and> ?shr < 100")
    case True
    then have s: "unat old * unat ?shr < 2 ^ 64"
      using fits False by (simp add: pacing_fits_def)
    have gt: "live + live * ?pct div 100 > old * ?shr div 100 \<longleftrightarrow>
        goal_nat o' (unat live) > unat old * unat ?shr div 100"
      by (simp add: word_less_nat_alt ug unat_mul_usize [OF s])
    show ?thesis
      using False True m g s
      by (simp add: calculate_threshold_def threshold_nat_def keeps_old_def lt gt ug max_def Let_def)
  next
    case other: False
    then show ?thesis
      using False m g
      by (auto simp: calculate_threshold_def threshold_nat_def keeps_old_def lt ug max_def Let_def)
  qed
qed

lemma threshold_nat_ge_live: "live < 2 ^ 64 \<Longrightarrow> live \<le> threshold_nat o' old live"
  by (auto simp: threshold_nat_def keeps_old_def goal_nat_def)

lemma threshold_nat_ge_min:
  "unat (min_threshold_bytes o') \<le> old \<Longrightarrow> unat (min_threshold_bytes o') \<le> threshold_nat o' old live"
  using usize_lt [of "min_threshold_bytes o'"] by (auto simp: threshold_nat_def)

lemma pacing_fits_mono:
  assumes "pacing_fits o' old live" and "live' \<le> live"
    and "threshold_shrink_percent o' < 100 \<longrightarrow> old * unat (threshold_shrink_percent o') < 2 ^ 64"
  shows "pacing_fits o' old live'"
proof -
  have "live' * unat (threshold_percent o') \<le> live * unat (threshold_percent o')"
    using assms(2) by simp
  moreover have "goal_nat o' live' \<le> goal_nat o' live"
    using assms(2) by (auto simp: goal_nat_def intro!: add_mono div_le_mono)
  ultimately show ?thesis using assms(1,3) unfolding pacing_fits_def by (meson le_less_trans)
qed

section \<open>Properties\<close>

text \<open>
  C26: the pacing is exact and bounded. As long as no intermediate product overflows, both build
  profiles compute the threshold of the unbounded formula; it is never below the live usage (so a
  finished collection does not at once ask for the next one), and never falls below the configured
  minimum once it has been there.
\<close>

theorem calculate_threshold_correct:
  assumes "pacing_fits o' (unat old) (unat live)"
  shows "\<exists>r. calculate_threshold p o' old live = ret r \<and>
    unat r = threshold_nat o' (unat old) (unat live) \<and> live \<le> r \<and>
    (min_threshold_bytes o' \<le> old \<longrightarrow> min_threshold_bytes o' \<le> r)"
proof -
  obtain r where r: "calculate_threshold p o' old live = ret r"
      "unat r = threshold_nat o' (unat old) (unat live)"
    using calculate_threshold_fits [OF assms] by (rule returnsE)
  then show ?thesis
    using threshold_nat_ge_live [of "unat live" o' "unat old"] threshold_nat_ge_min [of o' "unat old"]
      usize_lt [of live] by (auto simp: word_le_nat_alt)
qed

theorem calculate_threshold_correct_witness:
  "pacing_fits options_DEFAULT (unat (1048576 :: usize)) (unat (2000000 :: usize)) \<and>
   calculate_threshold Debug options_DEFAULT 1048576 2000000 = ret 2600000"
proof -
  have f: "pacing_fits options_DEFAULT (unat (1048576 :: usize)) (unat (2000000 :: usize))"
    by (simp add: pacing_fits_def options_DEFAULT_def goal_nat_def)
  obtain r where r: "calculate_threshold Debug options_DEFAULT 1048576 2000000 = ret r"
      "unat r = threshold_nat options_DEFAULT (unat (1048576 :: usize)) (unat (2000000 :: usize))"
    using calculate_threshold_correct [OF f, of Debug] by blast
  have "threshold_nat options_DEFAULT (unat (1048576 :: usize)) (unat (2000000 :: usize)) = 2600000"
    by (simp add: threshold_nat_def is_threshold_off_def keeps_old_def goal_nat_def options_DEFAULT_def)
  then have "unat r = unat (2600000 :: usize)" using r(2) by simp
  then have "r = 2600000" using word_unat_eq_iff by blast
  then show ?thesis using f r(1) by simp
qed

text \<open>
  C27: the pacing panics in a debug build exactly when one of its products or its sum leaves the
  range of \<open>usize\<close>; a release build never panics and wraps instead.
\<close>

theorem calculate_threshold_panics_iff:
  "(calculate_threshold Debug o' old live = raise Overflow \<longleftrightarrow>
     \<not> pacing_fits o' (unat old) (unat live)) \<and>
   (\<exists>r. calculate_threshold Release o' old live = ret r)"
proof -
  let ?pct = "threshold_percent o'"
  have "calculate_threshold Debug o' old live = raise Overflow"
    if nf: "\<not> pacing_fits o' (unat old) (unat live)"
  proof (cases "unat live * unat ?pct < 2 ^ 64")
    case m: True
    have off: "\<not> is_threshold_off o'" using nf by (simp add: pacing_fits_def)
    have um: "unat (live * ?pct) = unat live * unat ?pct" using m by (rule unat_mul_usize)
    show ?thesis
    proof (cases "goal_nat o' (unat live) < 2 ^ 64")
      case g: True
      then have gs: "unat live + unat (live * ?pct div 100) < 2 ^ 64" by (simp add: goal_nat_def um)
      then have "unat (live + live * ?pct div 100) = goal_nat o' (unat live)"
        using unat_add_usize [OF gs] by (simp add: goal_nat_def um)
      then have lt: "live + live * ?pct div 100 < old \<longleftrightarrow> goal_nat o' (unat live) < unat old"
        by (simp add: word_less_nat_alt)
      show ?thesis
        using nf off m g gs
        by (auto simp: calculate_threshold_def pacing_fits_def lt mul_usize_def [of _ old] Let_def)
    next
      case False
      then show ?thesis using off m um
        by (simp add: calculate_threshold_def add_usize_def goal_nat_def)
    qed
  next
    case False
    then show ?thesis using nf
      by (simp add: calculate_threshold_def pacing_fits_def mul_usize_def)
  qed
  moreover have "pacing_fits o' (unat old) (unat live)
      \<Longrightarrow> calculate_threshold Debug o' old live \<noteq> raise Overflow"
    using calculate_threshold_fits [of o' old live Debug] by (auto simp: returns_iff)
  moreover have "\<exists>r. calculate_threshold Release o' old live = ret r"
    by (simp add: calculate_threshold_def mul_usize_def add_usize_def Let_def)
  ultimately show ?thesis by blast
qed

end
