(* ===== verification/Stop_Handle.thy ===== *)
theory Stop_Handle
  imports Gc_Prelude
begin

text \<open>
  Model of \<open>StartStopJoinHandle\<close> and \<open>StopCondition\<close> in \<open>src/src/heap.rs\<close>: the
  generation counter and join handle behind the background thread. Each method holds the mutex for
  its whole body, so one function call is one atomic step. \<open>start\<close> returns the condition the
  spawned thread receives; \<open>stop\<close> returns the thread to be joined after the mutex is released
  (the join itself is a blocking step of the caller). The outcome of the condition variable's
  timed wait belongs to the \<open>parking_lot\<close> crate and is an argument of \<open>wait_stopped\<close>.
\<close>

section \<open>The handle\<close>

type_synonym thread_id = nat

type_synonym stop_condition = usize

record start_stop =
  generation :: usize
  join_handle :: "thread_id option"

definition ssj_new :: start_stop where
  "ssj_new = \<lparr> generation = 0, join_handle = None \<rparr>"

definition ssj_start :: "profile \<Rightarrow> start_stop \<Rightarrow> thread_id \<Rightarrow> (stop_condition option \<times> start_stop) prog" where
  "ssj_start p g tid =
     (case join_handle g of
        Some _ \<Rightarrow> ret (None, g)
      | None \<Rightarrow>
          bind_prog (add_usize p (generation g) 1) (\<lambda>counter.
            ret (Some counter, g\<lparr>generation := counter, join_handle := Some tid\<rparr>)))"

definition ssj_stop :: "start_stop \<Rightarrow> thread_id option \<times> start_stop" where
  "ssj_stop g =
     (case join_handle g of
        Some h \<Rightarrow> (Some h, g\<lparr>join_handle := None\<rparr>)
      | None \<Rightarrow> (None, g))"

definition is_stopped :: "start_stop \<Rightarrow> stop_condition \<Rightarrow> bool" where
  "is_stopped g c = (join_handle g = None \<or> generation g \<noteq> c)"

definition wait_stopped :: "start_stop \<Rightarrow> stop_condition \<Rightarrow> bool \<Rightarrow> bool" where
  "wait_stopped g c timed_out = (if is_stopped g c then True else \<not> timed_out)"

definition is_started :: "start_stop \<Rightarrow> bool" where
  "is_started g = (join_handle g \<noteq> None)"

text \<open>Dropping the handle stops the thread; the result is the thread that is joined.\<close>

definition ssj_drop :: "start_stop \<Rightarrow> thread_id option \<times> start_stop" where
  "ssj_drop g = ssj_stop g"

section \<open>Sequences of starts and stops\<close>

datatype ssj_event = Start thread_id | Stop

text \<open>A run of starts and stops in a release build; the result lists the conditions handed out, newest first.\<close>

fun ssj_run :: "ssj_event list \<Rightarrow> stop_condition list \<times> start_stop \<Rightarrow> stop_condition list \<times> start_stop" where
  "ssj_run [] s = s"
| "ssj_run (Start tid # es) (cs, g) =
     (case ssj_start Release g tid of
        Some (Inr (Some c, g')) \<Rightarrow> ssj_run es (c # cs, g')
      | _ \<Rightarrow> ssj_run es (cs, g))"
| "ssj_run (Stop # es) (cs, g) = ssj_run es (cs, snd (ssj_stop g))"

text \<open>The conditions handed out so far are \<open>1, ..., generation\<close>, and a running thread has the newest.\<close>

definition ssj_inv :: "stop_condition list \<times> start_stop \<Rightarrow> bool" where
  "ssj_inv s \<longleftrightarrow>
     unat (generation (snd s)) = length (fst s) \<and>
     (\<forall>i < length (fst s). unat (fst s ! i) = length (fst s) - i) \<and>
     (is_started (snd s) \<longrightarrow> fst s \<noteq> [])"

lemmas ssj_defs = ssj_new_def ssj_start_def ssj_stop_def is_stopped_def wait_stopped_def is_started_def

lemma ssj_start_eq:
  "ssj_start Release g tid = ret (case join_handle g of Some _ \<Rightarrow> (None, g)
     | None \<Rightarrow> (Some (generation g + 1), g\<lparr>generation := generation g + 1, join_handle := Some tid\<rparr>))"
  by (simp add: ssj_start_def add_usize_def split: option.split)

lemma ssj_inv_start:
  assumes inv: "ssj_inv (cs, g)" and none: "join_handle g = None" and small: "length cs + 1 < 2 ^ 64"
  shows "ssj_inv ((generation g + 1) # cs, g\<lparr>generation := generation g + 1, join_handle := Some tid\<rparr>)"
proof -
  have u: "unat (generation g + 1) = length cs + 1"
    using inv small unat_add_usize [of "generation g" 1] by (simp add: ssj_inv_def)
  have "unat (((generation g + 1) # cs) ! i) = length cs + 1 - i" if "i < length cs + 1" for i
    using that inv u by (cases i) (auto simp: ssj_inv_def)
  then show ?thesis using u by (simp add: ssj_inv_def)
qed

lemma ssj_inv_stop: "ssj_inv (cs, g) \<Longrightarrow> ssj_inv (cs, snd (ssj_stop g))"
  by (auto simp: ssj_inv_def ssj_defs split: option.splits)

lemma ssj_run_inv:
  "ssj_inv (cs, g) \<Longrightarrow> length cs + length es < 2 ^ 64 \<Longrightarrow> ssj_inv (ssj_run es (cs, g))"
proof (induction es arbitrary: cs g)
  case (Cons e es)
  show ?case
  proof (cases e)
    case (Start tid)
    show ?thesis
    proof (cases "join_handle g")
      case None
      have "ssj_inv ((generation g + 1) # cs, g\<lparr>generation := generation g + 1, join_handle := Some tid\<rparr>)"
        using None Cons.prems by (intro ssj_inv_start) auto
      from Cons.IH [OF this] None Start Cons.prems(2) show ?thesis
        by (simp add: ssj_start_eq ret_def)
    next
      case (Some h)
      then show ?thesis using Cons Start by (simp add: ssj_start_eq ret_def)
    qed
  next
    case Stop
    then show ?thesis using Cons.IH [OF ssj_inv_stop] Cons.prems by simp
  qed
qed simp

text \<open>After the drop every condition reads as stopped, and a running thread was handed out to be joined.\<close>

lemma ssj_drop_stops: "is_stopped (snd (ssj_drop g)) c" "fst (ssj_drop g) = join_handle g" "\<not> is_started (snd (ssj_drop g))"
  by (simp_all add: ssj_drop_def ssj_defs split: option.split)

section \<open>Properties\<close>

text \<open>
  Stop conditions are per generation. After any sequence of starts and stops (fewer than
  $2^{64}$), a condition handed out by an earlier start reads as stopped, and the newest one reads as
  stopped exactly when no thread is started: a background thread is never mistaken for its successor,
  and a stop followed by a quick restart still ends the old thread.
\<close>

theorem stop_condition_generations:
  assumes "length es < 2 ^ 64" and "ssj_run es ([], ssj_new) = (c # cs, g)"
  shows "(is_stopped g c \<longleftrightarrow> \<not> is_started g) \<and> (\<forall>c'\<in>set cs. is_stopped g c')"
proof -
  have "ssj_inv ([], ssj_new)" by (simp add: ssj_inv_def ssj_defs)
  then have inv: "ssj_inv (c # cs, g)"
    using ssj_run_inv [of "[]" ssj_new es] assms by simp
  then have uc: "unat (generation g) = Suc (length cs)" "unat c = Suc (length cs)"
    by (auto simp: ssj_inv_def)
  then have "generation g = c" using word_unat_eq_iff by metis
  moreover have "generation g \<noteq> c'" if "c' \<in> set cs" for c'
  proof -
    obtain i where i: "i < length cs" "cs ! i = c'" using \<open>c' \<in> set cs\<close> by (auto simp: in_set_conv_nth)
    have "\<forall>j < Suc (length cs). unat ((c # cs) ! j) = Suc (length cs) - j"
      using inv by (simp add: ssj_inv_def)
    then have "unat c' = Suc (length cs) - Suc i" using i by force
    then show ?thesis using uc by auto
  qed
  ultimately show ?thesis by (auto simp: is_stopped_def is_started_def)
qed

theorem stop_condition_generations_witness:
  "ssj_run [Start 5, Stop, Start 6] ([], ssj_new) = ([2, 1], \<lparr>generation = 2, join_handle = Some 6\<rparr>) \<and>
   is_stopped \<lparr>generation = 2, join_handle = Some 6\<rparr> 1 \<and>
   \<not> is_stopped \<lparr>generation = 2, join_handle = Some 6\<rparr> 2"
proof -
  have run: "ssj_run [Start 5, Stop, Start 6] ([], ssj_new) =
      ([2, 1], \<lparr>generation = 2, join_handle = Some 6\<rparr>)"
    by (simp add: ssj_start_eq ssj_new_def ssj_stop_def ret_def)
  show ?thesis
    using run stop_condition_generations [OF _ run] by (simp add: is_started_def)
qed

end
