(* ===== verification/Heap.thy ===== *)
theory Heap
  imports Tracer Gc_Options Stop_Handle
begin

text \<open>
  Model of the \<open>Heap\<close> of \<open>src/src/heap.rs\<close>: its state, construction, the phase machine, the
  counter of busy markers, the shared gray queue, the trigger and the walk of the intrusive
  allocation list; and the heap invariant the later theories preserve.

  The record \<open>heap\<close> has the fields of the struct, plus \<open>mem\<close>, the memory its boxes live in. An
  atomic field is its value. The functions model one call running without interference; the
  interleavings of several threads are the subject of \<open>Mutator\<close>, \<open>Background\<close> and \<open>Insertion\<close>. The intrusive list is the
  real pointer structure: \<open>head\<close> and the \<open>nxt\<close> field of the headers; \<open>chain m p xs\<close> says
  that following the links from \<open>p\<close> visits exactly the addresses \<open>xs\<close>.
\<close>

section \<open>Phases\<close>

datatype GcPhase = Idle | Marking | Sweeping

fun phase_as_u8 :: "GcPhase \<Rightarrow> u8" where
  "phase_as_u8 Idle = 0"
| "phase_as_u8 Marking = 1"
| "phase_as_u8 Sweeping = 2"

definition phase_from :: "u8 \<Rightarrow> GcPhase" where
  "phase_from value = (if value = 1 then Marking else if value = 2 then Sweeping else Idle)"

section \<open>State\<close>

record heap =
  mem :: mem
  head :: "addr option"
  options :: gc_options
  bytes_allocated :: usize
  current_threshold :: usize
  gray_queue :: "addr list"
  phase :: u8
  bg_thread :: start_stop
  n_busy_marking :: usize

section \<open>Construction and the background thread's switch\<close>

text \<open>The result of \<open>start_background_collection\<close> is the condition the new thread runs with, if one was started.\<close>

definition start_background_collection ::
    "profile \<Rightarrow> heap \<Rightarrow> thread_id \<Rightarrow> (stop_condition option \<times> heap) prog" where
  "start_background_collection p h tid =
     (if is_background_collection_off (options h) \<or> is_started (bg_thread h) then ret (None, h)
      else bind_prog (ssj_start p (bg_thread h) tid) (\<lambda>(c, g). ret (c, h\<lparr>bg_thread := g\<rparr>)))"

definition stop_background_collection :: "heap \<Rightarrow> thread_id option \<times> heap" where
  "stop_background_collection h =
     (let (t, g) = ssj_stop (bg_thread h) in (t, h\<lparr>bg_thread := g\<rparr>))"

definition gray_queue_new :: "addr list" where
  "gray_queue_new = []"

declare gray_queue_new_def [simp]

definition heap_init :: "gc_options \<Rightarrow> heap" where
  "heap_init o' =
     \<lparr> mem = Map.empty, head = None, options = o', bytes_allocated = 0,
       current_threshold = min_threshold_bytes o', gray_queue = gray_queue_new, phase = phase_as_u8 Idle,
       bg_thread = ssj_new, n_busy_marking = 0 \<rparr>"

definition heap_with_options :: "profile \<Rightarrow> gc_options \<Rightarrow> thread_id \<Rightarrow> (stop_condition option \<times> heap) prog" where
  "heap_with_options p o' tid = start_background_collection p (heap_init o') tid"

definition heap_new :: "profile \<Rightarrow> thread_id \<Rightarrow> (stop_condition option \<times> heap) prog" where
  "heap_new p tid = heap_with_options p options_new tid"

definition heap_off :: "profile \<Rightarrow> thread_id \<Rightarrow> (stop_condition option \<times> heap) prog" where
  "heap_off p tid = heap_with_options p options_off tid"

section \<open>Phase machine and busy counter\<close>

definition is_marking :: "heap \<Rightarrow> bool" where
  "is_marking h = (phase_from (phase h) = Marking)"

definition check_is_marking_and_increment_busy :: "heap \<Rightarrow> bool \<times> heap" where
  "check_is_marking_and_increment_busy h =
     (let h1 = h\<lparr>n_busy_marking := n_busy_marking h + 1\<rparr>
      in if is_marking h1 then (True, h1)
         else (False, h1\<lparr>n_busy_marking := n_busy_marking h1 - 1\<rparr>))"

definition decrement_busy_marking :: "heap \<Rightarrow> heap" where
  "decrement_busy_marking h = h\<lparr>n_busy_marking := n_busy_marking h - 1\<rparr>"

definition try_start_marking :: "heap \<Rightarrow> bool \<times> heap" where
  "try_start_marking h =
     (if phase h = phase_as_u8 Idle then (True, h\<lparr>phase := phase_as_u8 Marking\<rparr>) else (False, h))"

definition start_sweeping :: "heap \<Rightarrow> heap" where
  "start_sweeping h = h\<lparr>phase := phase_as_u8 Sweeping\<rparr>"

definition finish_gc :: "heap \<Rightarrow> heap" where
  "finish_gc h = h\<lparr>phase := phase_as_u8 Idle\<rparr>"

text \<open>\<open>yield_once_if_marking_busy\<close>: the yield has no effect on the heap, only the answer matters.\<close>

definition yield_once_if_marking_busy :: "heap \<Rightarrow> bool" where
  "yield_once_if_marking_busy h = (n_busy_marking h > 0)"

section \<open>The shared gray queue\<close>

definition steal_work :: "heap \<Rightarrow> tracer \<Rightarrow> usize \<Rightarrow> bool \<times> heap \<times> tracer" where
  "steal_work h tr max_items =
     (let (ok, tr', q) = steal_from tr max_items (gray_queue h)
      in (ok, h\<lparr>gray_queue := q\<rparr>, tr'))"

definition merge_work :: "heap \<Rightarrow> tracer \<Rightarrow> heap \<times> tracer" where
  "merge_work h tr =
     (let (tr', q) = append_to tr (gray_queue h) in (h\<lparr>gray_queue := q\<rparr>, tr'))"

section \<open>Trigger\<close>

definition update_threshold :: "profile \<Rightarrow> heap \<Rightarrow> usize \<Rightarrow> heap prog" where
  "update_threshold p h live_bytes =
     bind_prog (calculate_threshold p (options h) (current_threshold h) live_bytes)
       (\<lambda>new_threshold. ret (h\<lparr>current_threshold := new_threshold\<rparr>))"

definition should_collect :: "heap \<Rightarrow> bool" where
  "should_collect h =
     (if is_completely_off (options h) then False
      else if \<not> is_limit_off (options h) \<and> bytes_allocated h > limit_bytes (options h) then True
      else bytes_allocated h > current_threshold h)"

section \<open>Walking the allocation list\<close>

partial_function (option) count_loop :: "mem \<Rightarrow> addr option \<Rightarrow> nat \<Rightarrow> nat prog" where
  "count_loop m current cnt =
     (case current of
        None \<Rightarrow> ret cnt
      | Some a \<Rightarrow> bind_prog (deref m a) (\<lambda>b. count_loop m (nxt (header b)) (cnt + 1)))"

definition allocation_count :: "heap \<Rightarrow> nat prog" where
  "allocation_count h = count_loop (mem h) (head h) 0"

text \<open>\<open>Drop for Heap\<close>: every box of the list is dropped; \<open>next\<close> is read before the drop.\<close>

partial_function (option) drop_loop :: "mem \<Rightarrow> addr option \<Rightarrow> mem prog" where
  "drop_loop m current =
     (case current of
        None \<Rightarrow> ret m
      | Some a \<Rightarrow>
          bind_prog (deref m a) (\<lambda>b.
          bind_prog (drop_impl m a) (\<lambda>m'. drop_loop m' (nxt (header b)))))"

definition heap_drop :: "heap \<Rightarrow> mem prog" where
  "heap_drop h = drop_loop (mem h) (head h)"

lemma walk_exec [exec]:
  "count_loop m None k = ret k"
  "count_loop m (Some a) k = bind_prog (deref m a) (\<lambda>b. count_loop m (nxt (header b)) (k + 1))"
  "drop_loop m None = ret m"
  "drop_loop m (Some a) = bind_prog (deref m a) (\<lambda>b.
     bind_prog (drop_impl m a) (\<lambda>m'. drop_loop m' (nxt (header b))))"
  by (simp_all add: count_loop.simps [of m] drop_loop.simps [of m])

lemmas heap_exec [exec] = heap_init_def is_marking_def check_is_marking_and_increment_busy_def
  decrement_busy_marking_def try_start_marking_def start_sweeping_def finish_gc_def
  yield_once_if_marking_busy_def steal_work_def merge_work_def update_threshold_def should_collect_def
  calculate_threshold_def is_threshold_off_def is_limit_off_def is_completely_off_def
  allocation_count_def heap_drop_def

section \<open>The heap invariant\<close>

primrec chain :: "mem \<Rightarrow> addr option \<Rightarrow> addr list \<Rightarrow> bool" where
  "chain m p [] = (p = None)"
| "chain m p (a # as) = (p = Some a \<and> (\<exists>b. m a = Some b \<and> chain m (nxt (header b)) as))"

definition heap_inv :: "addr list \<Rightarrow> heap \<Rightarrow> bool" where
  "heap_inv xs h \<longleftrightarrow>
     chain (mem h) (head h) xs \<and> set xs = dom (mem h) \<and> mem_ok (mem h) \<and>
     unat (bytes_allocated h) = (\<Sum>a\<leftarrow>xs. unat (size_at (mem h) a))"

text \<open>Between two collections: idle phase, all objects white, no pending work.\<close>

definition quiescent :: "heap \<Rightarrow> bool" where
  "quiescent h \<longleftrightarrow>
     phase h = phase_as_u8 Idle \<and> nonwhite (mem h) = {} \<and> gray_queue h = []"

section \<open>Lemmas on the list\<close>

lemma chain_None [simp]: "chain m None xs \<longleftrightarrow> xs = []"
  by (cases xs) auto

lemma chain_Some: "chain m (Some a) xs \<longleftrightarrow>
    (\<exists>b ys. xs = a # ys \<and> m a = Some b \<and> chain m (nxt (header b)) ys)"
  by (cases xs) auto

lemma chain_unique: "chain m p xs \<Longrightarrow> chain m p ys \<Longrightarrow> xs = ys"
  by (induction xs arbitrary: p ys) (auto simp: chain_Some)

lemma chain_suffix: "chain m p (xs @ ys) \<Longrightarrow> \<exists>q. chain m q ys"
  by (induction xs arbitrary: p) auto

lemma chain_suffix_from: "chain m p (xs @ a # ys) \<Longrightarrow> chain m (Some a) (a # ys)"
  by (induction xs arbitrary: p) auto

lemma chain_distinct: "chain m p xs \<Longrightarrow> distinct xs"
proof (induction xs arbitrary: p)
  case (Cons a as)
  then obtain b where b: "m a = Some b" "chain m (nxt (header b)) as" by auto
  have "a \<notin> set as"
  proof
    assume "a \<in> set as"
    then obtain us vs where as: "as = us @ a # vs" by (meson split_list)
    have "chain m (Some a) (a # vs)" using chain_suffix_from b(2) as by blast
    moreover have "chain m (Some a) (a # as)" using b by auto
    ultimately have "a # vs = a # as" by (rule chain_unique)
    then show False using as by simp
  qed
  with Cons.IH [OF b(2)] show ?case by simp
qed simp

lemma chain_dom: "chain m p xs \<Longrightarrow> set xs \<subseteq> dom m"
  by (induction xs arbitrary: p) auto

text \<open>Only the links of the members matter.\<close>

lemma chain_cong:
  assumes "chain m p xs" and "\<And>a b. a \<in> set xs \<Longrightarrow> m a = Some b \<Longrightarrow>
      \<exists>c. n a = Some c \<and> nxt (header c) = nxt (header b)"
  shows "chain n p xs"
  using assms
proof (induction xs arbitrary: p)
  case (Cons a as)
  then obtain b where b: "p = Some a" "m a = Some b" "chain m (nxt (header b)) as" by auto
  obtain c where c: "n a = Some c" "nxt (header c) = nxt (header b)" using Cons.prems(2) b(2) by auto
  have "chain n (nxt (header b)) as" using Cons.IH [OF b(3)] Cons.prems(2) by auto
  then show ?case using b c by simp
qed simp

lemma chain_recolored: "chain m p xs \<Longrightarrow> recolored m n \<Longrightarrow> chain n p xs"
  using chain_cong recolored_nxt by metis

lemma chain_other: "chain m p xs \<Longrightarrow> a \<notin> set xs \<Longrightarrow> chain (m(a := v)) p xs"
  by (rule chain_cong) auto

lemma heap_invD:
  assumes "heap_inv xs h"
  shows "chain (mem h) (head h) xs" and "set xs = dom (mem h)" and "mem_ok (mem h)"
    and "unat (bytes_allocated h) = (\<Sum>a\<leftarrow>xs. unat (size_at (mem h) a))"
    and "distinct xs" and "finite (dom (mem h))"
  using assms chain_distinct unfolding heap_inv_def by (auto) (metis List.finite_set)

text \<open>The invariant does not depend on colours, nor on the fields the collector uses for itself.\<close>

lemma heap_inv_recolored:
  assumes "heap_inv xs h" and "recolored (mem h) m" and "mem_ok m"
    and "mem h' = m" and "head h' = head h" and "bytes_allocated h' = bytes_allocated h"
  shows "heap_inv xs h'"
  using assms same_objs_views(2) [OF recolored_same_objs [OF assms(2)]]
    same_objs_dom [OF recolored_same_objs [OF assms(2)]] chain_recolored
  by (auto simp: heap_inv_def)

lemma heap_inv_update [simp]:
  "heap_inv xs (h\<lparr>phase := v1\<rparr>) = heap_inv xs h"
  "heap_inv xs (h\<lparr>gray_queue := v2\<rparr>) = heap_inv xs h"
  "heap_inv xs (h\<lparr>current_threshold := v3\<rparr>) = heap_inv xs h"
  "heap_inv xs (h\<lparr>n_busy_marking := v4\<rparr>) = heap_inv xs h"
  "heap_inv xs (h\<lparr>bg_thread := v5\<rparr>) = heap_inv xs h"
  by (simp_all add: heap_inv_def)

lemma phase_from_as_u8 [simp]: "phase_from (phase_as_u8 p) = p"
  by (cases p) (simp_all add: phase_from_def)

lemma phase_from_consts [simp]: "phase_from 0 = Idle" "phase_from 1 = Marking" "phase_from 2 = Sweeping"
  by (simp_all add: phase_from_def)

lemma phase_as_u8_inject [simp]: "phase_as_u8 p = phase_as_u8 q \<longleftrightarrow> p = q"
  by (metis phase_from_as_u8)

lemma heap_inv_init [simp]: "heap_inv [] (heap_init o')"
  by (simp add: heap_inv_def heap_init_def)

lemma quiescent_init [simp]: "quiescent (heap_init o')"
  by (simp add: quiescent_def heap_init_def nonwhite_def)

section \<open>Walks\<close>

lemma count_loop_chain: "chain m p xs \<Longrightarrow> count_loop m p k = ret (k + length xs)"
  by (induction xs arbitrary: p k) (auto simp: count_loop.simps)

lemma drop_loop_chain:
  "chain m p xs \<Longrightarrow> drop_loop m p = ret (m |` (- set xs))"
proof (induction xs arbitrary: m p)
  case Nil
  then show ?case by (simp add: drop_loop.simps)
next
  case (Cons a as)
  then obtain b where b: "p = Some a" "m a = Some b" "chain m (nxt (header b)) as" by auto
  have "a \<notin> set as" using chain_distinct [OF Cons.prems] by simp
  then have "drop_loop (m(a := None)) (nxt (header b)) = ret ((m(a := None)) |` (- set as))"
    by (rule Cons.IH [OF chain_other [OF b(3)]])
  moreover have "(m(a := None)) |` (- set as) = m |` (- set (a # as))"
    by (auto simp: restrict_map_def)
  ultimately show ?case using b by (subst drop_loop.simps) simp
qed

lemma heap_drop_empty:
  assumes "heap_inv xs h"
  shows "heap_drop h = ret Map.empty"
proof -
  have "mem h |` (- dom (mem h)) = Map.empty" by (auto simp: restrict_map_def)
  then show ?thesis
    using drop_loop_chain [OF heap_invD(1) [OF assms]] heap_invD(2) [OF assms] by (simp add: heap_drop_def)
qed

section \<open>An example heap\<close>

text \<open>The two nodes of \<open>chain_mem\<close>, linked into the allocation list of an otherwise fresh heap.\<close>

definition set_nxt :: "addr option \<Rightarrow> gc_box \<Rightarrow> gc_box" where
  "set_nxt n b = b\<lparr>header := (header b)\<lparr>nxt := n\<rparr>\<rparr>"

lemma set_nxt_simps [simp]:
  "nxt (header (set_nxt n b)) = n" "color (header (set_nxt n b)) = color (header b)"
  "root_count (header (set_nxt n b)) = root_count (header b)"
  "vtable (header (set_nxt n b)) = vtable (header b)" "data (set_nxt n b) = data b"
  "is_root (header (set_nxt n b)) = is_root (header b)" "same_obj b (set_nxt n b)"
  "header_is_white (header (set_nxt n b)) = header_is_white (header b)"
  by (simp_all add: set_nxt_def is_root_def same_obj_def header_is_white_def)

definition chain_heap :: heap where
  "chain_heap = (heap_init options_OFF)
     \<lparr> mem := chain_mem(2 \<mapsto> set_nxt (Some 3) (the (chain_mem 2))), head := Some 2,
       bytes_allocated := 96 \<rparr>"

lemma heap_inv_chain_heap: "heap_inv [2, 3] chain_heap"
proof -
  have "mem_ok (chain_mem(2 \<mapsto> set_nxt (Some 3) (the (chain_mem 2))))"
    by (rule mem_ok_upd [OF mem_ok_chain_mem])
      (auto simp: chain_mem_def box_new_def header_new_def atomic_color_new_def)
  then show ?thesis
    by (auto simp: heap_inv_def chain_heap_def heap_init_def chain_mem_def box_new_def
        header_new_def vtable_new_def size_at_def)
qed

text \<open>
  Three nodes: the node at 2 is rooted and points to the node at 3, which nothing roots; the node at
  4 also points to 3 but is neither rooted nor pointed to.
\<close>

definition node_box :: "usize \<Rightarrow> addr option \<Rightarrow> int \<Rightarrow> addr option \<Rightarrow> gc_box" where
  "node_box roots n i p =
     \<lparr> header = \<lparr> color = 0, root_count = roots, nxt = n, vtable = vtable_new Node 48 \<rparr>, data = node_val i p \<rparr>"

definition demo_mem :: mem where
  "demo_mem = [2 \<mapsto> node_box 1 (Some 3) 2 (Some 3), 3 \<mapsto> node_box 0 (Some 4) 3 None,
               4 \<mapsto> node_box 0 None 4 (Some 3)]"

definition demo_heap :: "gc_options \<Rightarrow> heap" where
  "demo_heap o' = (heap_init o')\<lparr> mem := demo_mem, head := Some 2, bytes_allocated := 144 \<rparr>"

lemma demo_heap_simps [simp]:
  "mem (demo_heap o') = demo_mem" "head (demo_heap o') = Some 2" "options (demo_heap o') = o'"
  "bytes_allocated (demo_heap o') = 144" "current_threshold (demo_heap o') = min_threshold_bytes o'"
  "gray_queue (demo_heap o') = []" "phase (demo_heap o') = 0" "n_busy_marking (demo_heap o') = 0"
  "bg_thread (demo_heap o') = ssj_new"
  by (simp_all add: demo_heap_def heap_init_def)

lemma node_box_simps [simp]:
  "color (header (node_box r n i p)) = 0" "root_count (header (node_box r n i p)) = r"
  "nxt (header (node_box r n i p)) = n" "vtable (header (node_box r n i p)) = vtable_new Node 48"
  "data (node_box r n i p) = node_val i p"
  by (simp_all add: node_box_def)

lemma box_ok_node [simp]: "box_ok (node_box r n i p)"
  by (simp add: box_ok_def)

lemma demo_mem_simps [simp]:
  "demo_mem 2 = Some (node_box 1 (Some 3) 2 (Some 3))" "demo_mem 3 = Some (node_box 0 (Some 4) 3 None)"
  "demo_mem 4 = Some (node_box 0 None 4 (Some 3))" "dom demo_mem = {2, 3, 4}"
  by (auto simp: demo_mem_def)

lemma demo_mem_cases:
  "demo_mem a = Some b \<Longrightarrow> (a = 2 \<and> b = node_box 1 (Some 3) 2 (Some 3)) \<or>
     (a = 3 \<and> b = node_box 0 (Some 4) 3 None) \<or> (a = 4 \<and> b = node_box 0 None 4 (Some 3))"
  by (auto simp: demo_mem_def split: if_splits)

lemma heap_inv_demo: "heap_inv [2, 3, 4] (demo_heap o')"
proof -
  have "mem_ok demo_mem"
    unfolding mem_ok_def by (auto dest!: demo_mem_cases simp: ptr_ok_def)
  then show ?thesis
    by (auto simp: heap_inv_def size_at_def vtable_new_def)
qed

lemma quiescent_demo: "quiescent (demo_heap o')"
  by (auto simp: quiescent_def nonwhite_def white_at_def dest!: demo_mem_cases)

lemma reach_demo: "reach demo_mem = {2, 3}"
proof
  have "root_at demo_mem a \<Longrightarrow> a = 2" for a
    by (auto simp: root_at_def is_root_def split: option.splits dest!: demo_mem_cases)
  moreover have "succs demo_mem a \<subseteq> {3}" for a
    by (auto simp: succs_def split: option.splits dest!: demo_mem_cases)
  ultimately show "reach demo_mem \<subseteq> {2, 3}" by (intro reach_least) auto
  have "2 \<in> reach demo_mem" by (rule reach_root) (simp add: root_at_def is_root_def)
  moreover have "3 \<in> succs demo_mem 2" by (simp add: succs_def)
  ultimately show "{2, 3} \<subseteq> reach demo_mem" using reach_step by blast
qed

section \<open>Properties\<close>

text \<open>
  The phase machine. The compare-and-swap of \<open>try_start_marking\<close> lets at most one of two
  contenders through: the second attempt fails until \<open>finish_gc\<close> has run, and after it an attempt
  succeeds again. A marker is registered as busy exactly while the phase is marking, and the
  decrement undoes the registration.
\<close>

theorem phase_machine:
  "(fst (try_start_marking h) \<longleftrightarrow> phase h = phase_as_u8 Idle) \<and>
   \<not> fst (try_start_marking (snd (try_start_marking h))) \<and>
   \<not> fst (try_start_marking (start_sweeping h)) \<and>
   fst (try_start_marking (finish_gc h)) \<and>
   (fst (check_is_marking_and_increment_busy h) \<longleftrightarrow> phase h = phase_as_u8 Marking) \<and>
   (if phase h = phase_as_u8 Marking
    then decrement_busy_marking (snd (check_is_marking_and_increment_busy h)) = h
    else snd (check_is_marking_and_increment_busy h) = h)"
  by (auto simp: try_start_marking_def start_sweeping_def finish_gc_def Let_def
      check_is_marking_and_increment_busy_def decrement_busy_marking_def is_marking_def phase_from_def)

text \<open>
  Walks of the list: \<open>allocation_count\<close> ends and returns the number of live objects, and dropping the heap ends,
  frees every object exactly once (a second free would be the failure \<open>UseAfterFree\<close>) and
  leaves nothing behind.
\<close>

theorem heap_walks:
  assumes "heap_inv xs h"
  shows "allocation_count h = ret (card (dom (mem h))) \<and> heap_drop h = ret Map.empty"
proof -
  note inv = heap_invD [OF assms]
  have "allocation_count h = ret (length xs)"
    using count_loop_chain [OF inv(1)] by (simp add: allocation_count_def)
  moreover have "length xs = card (dom (mem h))" using inv(2,5) distinct_card by metis
  ultimately show ?thesis using heap_drop_empty [OF assms] by simp
qed

theorem heap_walks_witness:
  "heap_inv [2, 3] chain_heap \<and> allocation_count chain_heap = ret 2 \<and>
   heap_drop chain_heap = ret Map.empty"
proof -
  have "dom (mem chain_heap) = {2, 3}"
    using heap_invD(2) [OF heap_inv_chain_heap] by simp
  then show ?thesis
    using heap_walks [OF heap_inv_chain_heap] heap_inv_chain_heap by simp
qed

end
