(* ===== verification/Marking.thy ===== *)
theory Marking
  imports Heap
begin

text \<open>
  Model of the mark phase of \<open>src/src/heap.rs\<close>: root scanning, the budgeted mark loop with work
  stealing, incremental and full marking. The mark loop is total (each iteration uses up budget or
  shrinks the shared queue); the outer loop of \<open>do_mark_work_full\<close> and the list walk of
  \<open>do_mark_roots\<close> need not end on an arbitrary state, so they are partial functions and their
  termination is proved where it holds.

  The relation \<open>mark_run h tr h' tr' n\<close> collects what \<open>n\<close> units of marking work do: only
  colours and the queue change, the tricolour invariant holds again, the marked set grows inside every
  edge-closed set that contains it, and the work left shrinks by \<open>n\<close>.
\<close>

section \<open>Definitions\<close>

text \<open>One object: \<open>(header.vtable.trace)(ptr, tracer)\<close>, then \<open>mark_black\<close>.\<close>

definition process_object :: "addr \<Rightarrow> mem \<times> tracer \<Rightarrow> (mem \<times> tracer) prog" where
  "process_object ptr s = bind_prog (vtable_trace ptr s) (blacken ptr)"

definition BATCH_SIZE :: usize where
  "BATCH_SIZE = 8"

lemma bind_prog_fundef_cong [fundef_cong]:
  "m = m' \<Longrightarrow> (\<And>x. m' = Some (Inr x) \<Longrightarrow> f x = g x) \<Longrightarrow> bind_prog m f = bind_prog m' g"
  by (rule bind_cong) (auto simp: ret_def)

lemma steal_work_smaller:
  "steal_work h tr n = (True, h', tr') \<Longrightarrow> length (gray_queue h') < length (gray_queue h)"
  using steal_from_items(3) by (fastforce simp: steal_work_def split: prod.splits)

function mark_loop :: "nat \<Rightarrow> nat \<Rightarrow> heap \<Rightarrow> tracer \<Rightarrow> (heap \<times> tracer \<times> nat) prog" where
  "mark_loop work_budget work_done h tr =
     (if work_done < work_budget then
        (case pop_work tr of
           Some (ptr, tr1) \<Rightarrow>
             bind_prog (process_object ptr (mem h, tr1)) (\<lambda>s.
               mark_loop work_budget (work_done + 1) (h\<lparr>mem := fst s\<rparr>) (snd s))
         | None \<Rightarrow>
             (case steal_work h tr BATCH_SIZE of
                (True, h1, tr1) \<Rightarrow> mark_loop work_budget work_done h1 tr1
              | (False, h1, tr1) \<Rightarrow> ret (h1, tr1, work_done)))
      else ret (h, tr, work_done))"
  by pat_completeness auto
termination
  by (relation "measures [\<lambda>(b, k, h, tr). b - k, \<lambda>(b, k, h, tr). length (gray_queue h)]")
    (auto dest!: sym [of _ "steal_work _ _ _"] dest: steal_work_smaller)

declare mark_loop.simps [simp del]

definition do_mark_with_tracer :: "heap \<Rightarrow> tracer \<Rightarrow> usize \<Rightarrow> (heap \<times> tracer \<times> nat) prog" where
  "do_mark_with_tracer h tr work_budget =
     bind_prog (mark_loop (unat work_budget) 0 h tr) (\<lambda>(h1, tr1, work_done).
       if has_work tr1 then (let (h2, tr2) = merge_work h1 tr1 in ret (h2, tr2, work_done))
       else ret (h1, tr1, work_done))"

definition do_mark_incremental :: "heap \<Rightarrow> usize \<Rightarrow> (bool \<times> heap) prog" where
  "do_mark_incremental h work_budget =
     bind_prog (do_mark_with_tracer h tracer_new work_budget) (\<lambda>(h1, _, work_done).
       ret (work_done = 0, h1))"

partial_function (option) do_mark_work_full :: "heap \<Rightarrow> tracer \<Rightarrow> (heap \<times> tracer) prog" where
  "do_mark_work_full h tr =
     bind_prog (do_mark_with_tracer h tr (incremental_work_budget (options h))) (\<lambda>r.
       if snd (snd r) > 0 \<or> yield_once_if_marking_busy (fst r)
       then do_mark_work_full (fst r) (fst (snd r))
       else ret (fst r, fst (snd r)))"

partial_function (option) mark_roots_loop :: "addr option \<Rightarrow> mem \<times> tracer \<Rightarrow> (mem \<times> tracer) prog" where
  "mark_roots_loop current s =
     (case current of
        None \<Rightarrow> ret s
      | Some a \<Rightarrow>
          bind_prog (deref (fst s) a) (\<lambda>b.
          bind_prog (if is_root (header b) then mark_header a s else ret s) (\<lambda>s1.
          bind_prog (deref (fst s1) a) (\<lambda>b1.
          mark_roots_loop (nxt (header b1)) s1))))"

definition do_mark_roots :: "heap \<Rightarrow> tracer \<Rightarrow> (heap \<times> tracer) prog" where
  "do_mark_roots h tr =
     bind_prog (mark_roots_loop (head h) (mem h, tr)) (\<lambda>s.
       ret (merge_work (h\<lparr>mem := fst s\<rparr>) (snd s)))"

definition try_mark_full :: "heap \<Rightarrow> (bool \<times> heap) prog" where
  "try_mark_full h =
     (let (started, h1) = try_start_marking h
      in if \<not> started then ret (False, h1)
         else
           bind_prog (do_mark_roots h1 tracer_new) (\<lambda>(h2, tr2).
           bind_prog (do_mark_work_full h2 tr2) (\<lambda>(h3, tr3). ret (True, h3))))"

lemma mark_roots_exec [exec]:
  "mark_roots_loop None s = ret s"
  "mark_roots_loop (Some a) s = bind_prog (deref (fst s) a) (\<lambda>b.
     bind_prog (if is_root (header b) then mark_header a s else ret s) (\<lambda>s1.
     bind_prog (deref (fst s1) a) (\<lambda>b1. mark_roots_loop (nxt (header b1)) s1)))"
  by (simp_all add: mark_roots_loop.simps)

lemma mark_loop_exec [exec]:
  "mark_loop B k h [] =
     (if k < B then
        (case steal_work h [] BATCH_SIZE of
           (True, h1, tr1) \<Rightarrow> mark_loop B k h1 tr1
         | (False, h1, tr1) \<Rightarrow> ret (h1, tr1, k))
      else ret (h, [], k))"
  "mark_loop B k h (x # tr) =
     (if k < B then
        bind_prog (process_object (last (x # tr)) (mem h, butlast (x # tr))) (\<lambda>s.
          mark_loop B (k + 1) (h\<lparr>mem := fst s\<rparr>) (snd s))
      else ret (h, x # tr, k))"
  by (simp_all add: mark_loop.simps [of B k h] pop_work_def vec_pop_def)

lemma do_mark_work_full_exec [exec]:
  "do_mark_work_full h [] =
     bind_prog (do_mark_with_tracer h [] (incremental_work_budget (options h))) (\<lambda>r.
       if snd (snd r) > 0 \<or> yield_once_if_marking_busy (fst r)
       then do_mark_work_full (fst r) (fst (snd r))
       else ret (fst r, fst (snd r)))"
  by (rule do_mark_work_full.simps)

lemmas marking_exec [exec] = process_object_def blacken_def BATCH_SIZE_def do_mark_with_tracer_def
  do_mark_incremental_def do_mark_roots_def try_mark_full_def

section \<open>What marking work does\<close>

definition work_left :: "heap \<Rightarrow> tracer \<Rightarrow> nat" where
  "work_left h tr = n_white (mem h) + length (gray_queue h) + length tr"

definition marking_inv :: "heap \<Rightarrow> tracer \<Rightarrow> bool" where
  "marking_inv h tr \<longleftrightarrow>
     finite (dom (mem h)) \<and> tricolor (mem h) (set (gray_queue h) \<union> set tr)"

definition mark_run :: "heap \<Rightarrow> tracer \<Rightarrow> heap \<Rightarrow> tracer \<Rightarrow> nat \<Rightarrow> bool" where
  "mark_run h tr h' tr' n \<longleftrightarrow>
     recolored (mem h) (mem h') \<and> marking_inv h' tr' \<and>
     h' = h\<lparr>mem := mem h', gray_queue := gray_queue h'\<rparr> \<and>
     nonwhite (mem h) \<subseteq> nonwhite (mem h') \<and>
     (\<forall>R. nonwhite (mem h) \<subseteq> R \<and> (\<forall>a\<in>R. succs (mem h) a \<subseteq> R) \<longrightarrow> nonwhite (mem h') \<subseteq> R) \<and>
     work_left h' tr' + n \<le> work_left h tr"

lemma mark_run_refl: "marking_inv h tr \<Longrightarrow> mark_run h tr h tr 0"
  by (simp add: mark_run_def)

lemma mark_run_inv: "mark_run h tr h' tr' n \<Longrightarrow> marking_inv h' tr'"
  by (simp add: mark_run_def)

lemma mark_run_trans:
  assumes 1: "mark_run h tr h1 tr1 n" and 2: "mark_run h1 tr1 h2 tr2 k"
  shows "mark_run h tr h2 tr2 (n + k)"
proof -
  have eq: "succs (mem h1) = succs (mem h)"
    using 1 recolored_succs by (auto simp: mark_run_def)
  have "nonwhite (mem h2) \<subseteq> R" if "nonwhite (mem h) \<subseteq> R" "\<forall>a\<in>R. succs (mem h) a \<subseteq> R" for R
    using that 1 2 unfolding mark_run_def eq by blast
  moreover have "recolored (mem h) (mem h2)"
    using 1 2 recolored_trans by (auto simp: mark_run_def)
  moreover have "h2 = h\<lparr>mem := mem h2, gray_queue := gray_queue h2\<rparr>"
  proof -
    have "h1 = h\<lparr>mem := mem h1, gray_queue := gray_queue h1\<rparr>"
      and "h2 = h1\<lparr>mem := mem h2, gray_queue := gray_queue h2\<rparr>"
      using 1 2 by (auto simp: mark_run_def)
    then show ?thesis by (metis heap.surjective heap.update_convs(1,6))
  qed
  ultimately show ?thesis using 1 2 unfolding mark_run_def by auto
qed

section \<open>The mark loop\<close>

lemma mark_run_steal:
  assumes inv: "marking_inv h tr" and st: "steal_work h tr n = (ok, h', tr')"
  shows "mark_run h tr h' tr' 0"
proof -
  obtain q where q: "steal_from tr n (gray_queue h) = (ok, tr', q)" "h' = h\<lparr>gray_queue := q\<rparr>"
    using st by (auto simp: steal_work_def split: prod.splits)
  have "set q \<union> set tr' = set (gray_queue h) \<union> set tr"
    using steal_from_set [OF q(1)] by (simp add: Un_commute)
  moreover have "length tr' + length q = length tr + length (gray_queue h)"
    using steal_from_items(1) [OF q(1)] by (metis size_mset size_union)
  ultimately show ?thesis
    using inv q(2) by (simp add: mark_run_def marking_inv_def work_left_def)
qed

lemma mark_run_process:
  assumes inv: "marking_inv h (vec_push tr a)"
  shows "returns (process_object a (mem h, tr))
    (\<lambda>s. mark_run h (vec_push tr a) (h\<lparr>mem := fst s\<rparr>) (snd s) 1)"
proof -
  have fin: "finite (dom (mem h))" and
    tri: "tricolor (mem h) (insert a (set (gray_queue h) \<union> set tr))"
    using inv by (simp_all add: marking_inv_def)
  have a: "a \<in> nonwhite (mem h)" using tricolorD(3) [OF tri] by simp
  have "returns (process_object a (mem h, tr)) (scanned (set (gray_queue h)) a (mem h, tr))"
    unfolding process_object_def by (rule vt.scan_step [OF tri fin])
  then show ?thesis
  proof (rule returns_mono)
    fix s assume s: "scanned (set (gray_queue h)) a (mem h, tr) s"
    then have "dom (fst s) = dom (mem h)"
      using recolored_dom [of "mem h" "fst s"] by (simp add: scanned_def)
    then show "mark_run h (vec_push tr a) (h\<lparr>mem := fst s\<rparr>) (snd s) 1"
      using s a fin by (auto simp: mark_run_def marking_inv_def scanned_def work_left_def)
  qed
qed

text \<open>The outcome of the loop from \<open>k\<close> units on: within budget, and if it stops early there is no work anywhere.\<close>

definition loop_outcome :: "nat \<Rightarrow> nat \<Rightarrow> heap \<Rightarrow> tracer \<Rightarrow> heap \<times> tracer \<times> nat \<Rightarrow> bool" where
  "loop_outcome budget k h tr r \<longleftrightarrow>
     k \<le> snd (snd r) \<and> snd (snd r) \<le> budget \<and>
     mark_run h tr (fst r) (fst (snd r)) (snd (snd r) - k) \<and>
     (snd (snd r) < budget \<longrightarrow> gray_queue (fst r) = [] \<and> fst (snd r) = [])"

lemma loop_outcome_step:
  "mark_run h tr h1 tr1 n \<Longrightarrow> loop_outcome budget (k + n) h1 tr1 r \<Longrightarrow> loop_outcome budget k h tr r"
  using mark_run_trans [of h tr h1 tr1 n "fst r" "fst (snd r)" "snd (snd r) - (k + n)"]
  by (auto simp: loop_outcome_def)

lemma mark_loop_stop: "\<not> k < budget \<Longrightarrow> mark_loop budget k h tr = ret (h, tr, k)"
  by (subst mark_loop.simps) simp

lemma mark_loop_pop:
  "k < budget \<Longrightarrow> pop_work tr = Some (a, tr1) \<Longrightarrow> mark_loop budget k h tr =
     bind_prog (process_object a (mem h, tr1)) (\<lambda>s. mark_loop budget (k + 1) (h\<lparr>mem := fst s\<rparr>) (snd s))"
  by (subst mark_loop.simps) simp

lemma mark_loop_steal:
  "k < budget \<Longrightarrow> pop_work tr = None \<Longrightarrow> steal_work h tr BATCH_SIZE = (ok, h1, tr1) \<Longrightarrow>
   mark_loop budget k h tr = (if ok then mark_loop budget k h1 tr1 else ret (h1, tr1, k))"
  by (subst mark_loop.simps) simp

lemma steal_work_fails:
  assumes "steal_work h tr BATCH_SIZE = (False, h1, tr1)"
  shows "gray_queue h1 = []" and "tr1 = tr"
  using assms by (auto simp: steal_work_def steal_from_def BATCH_SIZE_def split: if_splits prod.splits)

lemma mark_loop_run:
  "marking_inv h tr \<Longrightarrow> k \<le> budget \<Longrightarrow>
   returns (mark_loop budget k h tr) (loop_outcome budget k h tr)"
proof (induction budget k h tr rule: mark_loop.induct)
  case (1 budget k h tr)
  consider (stop) "\<not> k < budget" | (pop) a tr1 where "k < budget" "pop_work tr = Some (a, tr1)"
    | (steal) "k < budget" "pop_work tr = None"
    by (cases "pop_work tr") auto
  then show ?case
  proof cases
    case stop
    then show ?thesis
      using "1.prems" by (simp add: mark_loop_stop loop_outcome_def mark_run_refl)
  next
    case steal
    obtain ok h1 tr1 where st: "steal_work h tr BATCH_SIZE = (ok, h1, tr1)" by (metis prod_cases3)
    have run: "mark_run h tr h1 tr1 0" by (rule mark_run_steal [OF "1.prems"(1) st])
    show ?thesis
    proof (cases ok)
      case True
      have "returns (mark_loop budget k h1 tr1) (loop_outcome budget k h1 tr1)"
        using "1.IH"(1) [OF steal st [symmetric] _ refl] True mark_run_inv [OF run] "1.prems"(2) by simp
      then show ?thesis
        using loop_outcome_step [OF run] True by (auto simp: mark_loop_steal [OF steal st] elim: returns_mono)
    next
      case False
      then have "loop_outcome budget k h tr (h1, tr1, k)"
        using run "1.prems" steal_work_fails [of h tr h1 tr1] st steal(2)
        by (simp add: loop_outcome_def pop_work_def)
      then show ?thesis using False by (simp add: mark_loop_steal [OF steal st])
    qed
  next
    case pop
    then have tr: "tr = vec_push tr1 a" by (simp add: pop_work_def vec_pop_Some)
    have step: "returns (process_object a (mem h, tr1)) (\<lambda>s. mark_run h tr (h\<lparr>mem := fst s\<rparr>) (snd s) 1)"
      using mark_run_process "1.prems"(1) tr by simp
    show ?thesis
      unfolding mark_loop_pop [OF pop]
    proof (rule returns_bindI_eq [OF step])
      fix s assume eq: "process_object a (mem h, tr1) = ret s"
        and run: "mark_run h tr (h\<lparr>mem := fst s\<rparr>) (snd s) 1"
      have "returns (mark_loop budget (k + 1) (h\<lparr>mem := fst s\<rparr>) (snd s))
          (loop_outcome budget (k + 1) (h\<lparr>mem := fst s\<rparr>) (snd s))"
        using "1.IH"(2) [OF pop refl] eq mark_run_inv [OF run] pop(1) by (simp add: ret_def)
      then show "returns (mark_loop budget (k + 1) (h\<lparr>mem := fst s\<rparr>) (snd s)) (loop_outcome budget k h tr)"
        by (rule returns_mono) (rule loop_outcome_step [OF run])
    qed
  qed
qed

section \<open>Budgeted, incremental and full marking\<close>

text \<open>Merging keeps the pending objects and empties the tracer.\<close>

lemma mark_run_merge:
  assumes "marking_inv h tr"
  shows "mark_run h tr (fst (merge_work h tr)) (snd (merge_work h tr)) 0"
  using assms by (auto simp: mark_run_def marking_inv_def work_left_def merge_work_def append_to_def Un_commute)

definition marked :: "usize \<Rightarrow> heap \<Rightarrow> tracer \<Rightarrow> heap \<times> tracer \<times> nat \<Rightarrow> bool" where
  "marked budget h tr r \<longleftrightarrow>
     fst (snd r) = [] \<and> snd (snd r) \<le> unat budget \<and> mark_run h tr (fst r) [] (snd (snd r)) \<and>
     (snd (snd r) < unat budget \<longrightarrow> gray_queue (fst r) = [])"

lemma do_mark_with_tracer_run:
  assumes "marking_inv h tr"
  shows "returns (do_mark_with_tracer h tr budget) (marked budget h tr)"
  unfolding do_mark_with_tracer_def
proof (rule returns_bindI [OF mark_loop_run [OF assms, of 0 "unat budget"]])
  show "0 \<le> unat budget" by simp
  fix r assume r: "loop_outcome (unat budget) 0 h tr r"
  obtain h1 tr1 n where eq: "r = (h1, tr1, n)" by (metis prod_cases3)
  have run: "mark_run h tr h1 tr1 n" using r eq by (simp add: loop_outcome_def)
  have "mark_run h tr (fst (merge_work h1 tr1)) (snd (merge_work h1 tr1)) n"
    using mark_run_trans [OF run mark_run_merge [OF mark_run_inv [OF run]]] by simp
  then show "returns (case r of (h1, tr1, work_done) \<Rightarrow>
      if has_work tr1 then let (h2, tr2) = merge_work h1 tr1 in ret (h2, tr2, work_done)
      else ret (h1, tr1, work_done)) (marked budget h tr)"
    using r eq by (auto simp: marked_def loop_outcome_def has_work_def merge_work_def append_to_def)
qed

text \<open>Full marking ends with nothing pending, provided the budget is positive and no marker is busy.\<close>

lemma do_mark_work_full_run:
  assumes "marking_inv h tr" and "n_busy_marking h = 0" and "incremental_work_budget (options h) \<noteq> 0"
  shows "returns (do_mark_work_full h tr) (\<lambda>r. \<exists>n. mark_run h tr (fst r) [] n \<and>
      gray_queue (fst r) = [] \<and> snd r = [])"
  using assms
proof (induction "work_left h tr" arbitrary: h tr rule: less_induct)
  case less
  let ?B = "incremental_work_budget (options h)"
  have B: "0 < unat ?B" using less.prems(3) by (simp add: unat_gt_0)
  show ?case
    unfolding do_mark_work_full.simps [of h tr]
  proof (rule returns_bindI [OF do_mark_with_tracer_run [OF less.prems(1)]])
    fix r assume r: "marked ?B h tr r"
    obtain h1 n where eq: "r = (h1, [], n)" using r by (cases r) (auto simp: marked_def)
    have run: "mark_run h tr h1 [] n" using r eq by (simp add: marked_def)
    then have same: "n_busy_marking h1 = 0" "options h1 = options h"
      using less.prems(2) by (metis heap.select_convs heap.surjective heap.update_convs(1,6) mark_run_def)+
    show "returns (if snd (snd r) > 0 \<or> yield_once_if_marking_busy (fst r)
        then do_mark_work_full (fst r) (fst (snd r)) else ret (fst r, fst (snd r)))
      (\<lambda>r. \<exists>n. mark_run h tr (fst r) [] n \<and> gray_queue (fst r) = [] \<and> snd r = [])"
    proof (cases "n = 0")
      case True
      then show ?thesis
        using r eq B run same by (auto simp: marked_def yield_once_if_marking_busy_def)
    next
      case False
      then have "work_left h1 [] < work_left h tr" using run by (simp add: mark_run_def)
      then have "returns (do_mark_work_full h1 []) (\<lambda>r. \<exists>n. mark_run h1 [] (fst r) [] n \<and>
          gray_queue (fst r) = [] \<and> snd r = [])"
        using less.hyps mark_run_inv [OF run] same less.prems(3) by simp
      then show ?thesis
        using False eq mark_run_trans [OF run] by (auto elim!: returns_mono)
    qed
  qed
qed

section \<open>Root scanning\<close>

text \<open>Scanning the list shades exactly the rooted objects.\<close>

lemma mark_roots_loop_shades:
  assumes "chain (fst s) p xs" and "mem_ok (fst s)"
  shows "returns (mark_roots_loop p s) (shades {a \<in> set xs. root_at (fst s) a} s)"
  using assms
proof (induction xs arbitrary: p s)
  case Nil
  then show ?case by (simp add: mark_roots_loop.simps)
next
  case (Cons a as)
  then obtain b where b: "p = Some a" "fst s a = Some b" "chain (fst s) (nxt (header b)) as" by auto
  let ?A = "if is_root (header b) then {a} else {}"
  have "returns (if is_root (header b) then mark_header a s else ret s) (shades ?A s)"
    using mark_header_shades [of "fst s" a "snd s"] Cons.prems(2) b(2) by auto
  then have "returns (bind_prog (if is_root (header b) then mark_header a s else ret s)
      (\<lambda>s1. bind_prog (deref (fst s1) a) (\<lambda>b1. mark_roots_loop (nxt (header b1)) s1)))
    (shades {c \<in> set (a # as). root_at (fst s) c} s)"
  proof (rule returns_bindI)
    fix s1 assume s1: "shades ?A s s1"
    then have rc: "recolored (fst s) (fst s1)" by (simp add: shades_def)
    obtain b1 where b1: "fst s1 a = Some b1" "nxt (header b1) = nxt (header b)"
      using recolored_nxt [OF rc b(2)] by blast
    have roots: "root_at (fst s1) = root_at (fst s)"
      using same_objs_views(1) [OF shades_same_objs [OF s1]] by simp
    have A: "?A \<union> {c \<in> set as. root_at (fst s1) c} = {c \<in> set (a # as). root_at (fst s) c}"
      unfolding roots using b(2) by (auto simp: root_at_def)
    have "returns (mark_roots_loop (nxt (header b1)) s1)
        (shades {a \<in> set as. root_at (fst s1) a} s1)"
      using Cons.IH [OF _ shades_mem_ok [OF s1]] chain_recolored [OF b(3) rc] b1(2) by simp
    then have "returns (mark_roots_loop (nxt (header b1)) s1)
        (shades {c \<in> set (a # as). root_at (fst s) c} s)"
      using shades_trans [OF s1] unfolding A [symmetric] by (rule returns_mono)
    then show "returns (bind_prog (deref (fst s1) a) (\<lambda>b1. mark_roots_loop (nxt (header b1)) s1))
        (shades {c \<in> set (a # as). root_at (fst s) c} s)"
      using b1(1) by simp
  qed
  then show ?case using b by (subst mark_roots_loop.simps) simp
qed

lemma roots_in_chain:
  "heap_inv xs h \<Longrightarrow> {a \<in> set xs. root_at (mem h) a} = Collect (root_at (mem h))"
  using heap_invD(2) view_dom(4) by blast

lemma tricolor_all_white: "mem_ok m \<Longrightarrow> nonwhite m = {} \<Longrightarrow> tricolor m {}"
  using nonwhite_iff [of m] unfolding tricolor_def by blast

text \<open>After root scanning from a quiescent state exactly the roots are marked and the marking invariant holds.\<close>

lemma do_mark_roots_run:
  assumes inv: "heap_inv xs h" and tri: "tricolor (mem h) (set (gray_queue h))"
  shows "returns (do_mark_roots h []) (\<lambda>r. snd r = [] \<and> marking_inv (fst r) [] \<and>
      recolored (mem h) (mem (fst r)) \<and>
      fst r = h\<lparr>mem := mem (fst r), gray_queue := gray_queue (fst r)\<rparr> \<and>
      nonwhite (mem (fst r)) = nonwhite (mem h) \<union> Collect (root_at (mem h)))"
  unfolding do_mark_roots_def
proof (rule returns_bindI)
  show "returns (mark_roots_loop (head h) (mem h, [])) (shades (Collect (root_at (mem h))) (mem h, []))"
    using mark_roots_loop_shades [of "(mem h, [])" "head h" xs] heap_invD(1,3) [OF inv]
    by (simp add: roots_in_chain [OF inv])
  fix s assume s: "shades (Collect (root_at (mem h))) (mem h, []) s"
  have "tricolor (fst s) (set (gray_queue h) \<union> set (snd s))"
    by (rule tricolor_shades [OF _ s]) (simp add: tri)
  then have "marking_inv (h\<lparr>mem := fst s\<rparr>) (snd s)"
    using s recolored_dom [of "mem h" "fst s"] heap_invD(6) [OF inv]
    by (simp add: marking_inv_def shades_def)
  from mark_run_merge [OF this]
  show "returns (ret (merge_work (h\<lparr>mem := fst s\<rparr>) (snd s))) (\<lambda>r. snd r = [] \<and> marking_inv (fst r) [] \<and>
      recolored (mem h) (mem (fst r)) \<and>
      fst r = h\<lparr>mem := mem (fst r), gray_queue := gray_queue (fst r)\<rparr> \<and>
      nonwhite (mem (fst r)) = nonwhite (mem h) \<union> Collect (root_at (mem h)))"
    using s by (simp add: merge_work_def append_to_def shades_def mark_run_def)
qed

section \<open>The contract of a marker\<close>

text \<open>
  What the sweeper relies on: in a state that satisfies the marker's invariant, marked objects that
  are not pending have marked successors. Everything a sweep needs follows: once nothing is pending
  and the roots are marked, every reachable object is marked.
\<close>

locale marker =
  fixes inv :: "'s \<Rightarrow> bool"
    and marked_set :: "'s \<Rightarrow> addr set"
    and pending :: "'s \<Rightarrow> addr set"
    and graph :: "'s \<Rightarrow> mem"
  assumes scanned_closed:
    "inv s \<Longrightarrow> a \<in> marked_set s \<Longrightarrow> a \<notin> pending s \<Longrightarrow> succs (graph s) a \<subseteq> marked_set s"
begin

lemma nothing_reachable_unmarked:
  assumes "inv s" and "pending s = {}" and "Collect (root_at (graph s)) \<subseteq> marked_set s"
  shows "reach (graph s) \<subseteq> marked_set s"
  using assms scanned_closed by (intro reach_least) auto

end

lemma tricolor_closed:
  assumes "tricolor m P" and "a \<in> nonwhite m" and "a \<notin> P"
  shows "succs m a \<subseteq> nonwhite m"
  using assms nonwhite_iff [of m a] unfolding tricolor_def by blast

interpretation mk: marker "\<lambda>s. marking_inv (fst s) (snd s)" "\<lambda>s. nonwhite (mem (fst s))"
    "\<lambda>s. set (gray_queue (fst s)) \<union> set (snd s)" "\<lambda>s. mem (fst s)"
  by unfold_locales (use tricolor_closed in \<open>auto simp: marking_inv_def\<close>)

section \<open>Full marking\<close>

text \<open>The outcome of a full mark from an idle heap, whatever colours an earlier cycle left.\<close>

definition fully_marked :: "heap \<Rightarrow> heap \<Rightarrow> bool" where
  "fully_marked h h' \<longleftrightarrow>
     recolored (mem h) (mem h') \<and> mem_ok (mem h') \<and> gray_queue h' = [] \<and> (\<forall>a. \<not> gray_at (mem h') a) \<and>
     h' = h\<lparr>mem := mem h', gray_queue := [], phase := phase_as_u8 Marking\<rparr> \<and>
     reach (mem h) \<subseteq> nonwhite (mem h') \<and>
     (\<forall>a\<in>nonwhite (mem h'). succs (mem h) a \<subseteq> nonwhite (mem h')) \<and>
     (nonwhite (mem h) = {} \<longrightarrow> nonwhite (mem h') = reach (mem h))"

lemma mark_run_fully_marked:
  assumes roots: "nonwhite (mem h2) = nonwhite (mem h) \<union> Collect (root_at (mem h))"
    and rc: "recolored (mem h) (mem h2)" and run: "mark_run h2 [] h3 [] n" and q: "gray_queue h3 = []"
    and h2: "h2 = h\<lparr>phase := phase_as_u8 Marking, mem := mem h2, gray_queue := gray_queue h2\<rparr>"
  shows "fully_marked h h3"
proof -
  have rc3: "recolored (mem h) (mem h3)" using rc run recolored_trans by (auto simp: mark_run_def)
  have views: "reach (mem h3) = reach (mem h)" "succs (mem h3) = succs (mem h)"
      "root_at (mem h3) = root_at (mem h)" "succs (mem h2) = succs (mem h)"
    using same_objs_reach same_objs_views recolored_same_objs [OF rc3] recolored_same_objs [OF rc] by metis+
  have inv3: "marking_inv h3 []" by (rule mark_run_inv [OF run])
  have sub: "Collect (root_at (mem h3)) \<subseteq> nonwhite (mem h3)"
    using roots run unfolding views by (auto simp: mark_run_def)
  have live: "reach (mem h3) \<subseteq> nonwhite (mem h3)"
    using mk.nothing_reachable_unmarked [of "(h3, [])"] inv3 q sub by simp
  have "\<forall>a\<in>nonwhite (mem h3). succs (mem h) a \<subseteq> nonwhite (mem h3)"
    using mk.scanned_closed [of "(h3, [])"] inv3 q views by simp
  moreover have "nonwhite (mem h3) = reach (mem h)" if "nonwhite (mem h) = {}"
  proof -
    have "nonwhite (mem h2) \<subseteq> reach (mem h)" using roots that by (auto intro: reach.intros)
    moreover have "\<forall>a\<in>reach (mem h). succs (mem h2) a \<subseteq> reach (mem h)"
      unfolding views by (auto intro: reach.intros)
    ultimately have "nonwhite (mem h3) \<subseteq> reach (mem h)" using run unfolding mark_run_def by blast
    then show ?thesis using live views by auto
  qed
  moreover have "h3 = h\<lparr>mem := mem h3, gray_queue := [], phase := phase_as_u8 Marking\<rparr>"
    using run h2 q unfolding mark_run_def by (cases h; cases h2; cases h3) simp
  ultimately show ?thesis
    using live rc3 q inv3 views by (auto simp: fully_marked_def marking_inv_def tricolor_def)
qed

lemma try_mark_full_run:
  assumes inv: "heap_inv xs h" and tri: "tricolor (mem h) (set (gray_queue h))"
    and idle: "phase h = phase_as_u8 Idle" and busy: "n_busy_marking h = 0"
    and budget: "incremental_work_budget (options h) \<noteq> 0"
  shows "returns (try_mark_full h) (\<lambda>r. fst r \<and> fully_marked h (snd r))"
proof -
  let ?h1 = "h\<lparr>phase := phase_as_u8 Marking\<rparr>"
  have "returns (bind_prog (do_mark_roots ?h1 [])
      (\<lambda>(h2, tr2). bind_prog (do_mark_work_full h2 tr2) (\<lambda>(h3, tr3). ret (True, h3))))
    (\<lambda>r. fst r \<and> fully_marked h (snd r))"
  proof (rule returns_bindI [OF do_mark_roots_run [of xs ?h1]])
    show "heap_inv xs ?h1" using inv by simp
    show "tricolor (mem ?h1) (set (gray_queue ?h1))" using tri by simp
    fix r :: "heap \<times> tracer"
    assume r: "snd r = [] \<and> marking_inv (fst r) [] \<and> recolored (mem ?h1) (mem (fst r)) \<and>
      fst r = ?h1\<lparr>mem := mem (fst r), gray_queue := gray_queue (fst r)\<rparr> \<and>
      nonwhite (mem (fst r)) = nonwhite (mem ?h1) \<union> Collect (root_at (mem ?h1))"
    obtain h2 where h2: "r = (h2, [])" using r by (cases r) auto
    have same: "n_busy_marking h2 = 0" "options h2 = options h"
      using r h2 busy by (metis fst_conv heap.select_convs heap.surjective heap.update_convs(1,6,7))+
    have "returns (do_mark_work_full h2 []) (\<lambda>r. \<exists>n. mark_run h2 [] (fst r) [] n \<and>
        gray_queue (fst r) = [] \<and> snd r = [])"
      using do_mark_work_full_run [of h2 "[]"] r h2 same budget by simp
    then have "returns (do_mark_work_full h2 []) (\<lambda>r. fully_marked h (fst r))"
      by (rule returns_mono) (use r h2 in \<open>auto intro: mark_run_fully_marked\<close>)
    then show "returns (case r of (h2, tr2) \<Rightarrow>
        bind_prog (do_mark_work_full h2 tr2) (\<lambda>(h3, tr3). ret (True, h3)))
      (\<lambda>r. fst r \<and> fully_marked h (snd r))"
      using h2 by (auto elim!: returns_bindI)
  qed
  then show ?thesis
    using idle by (simp add: try_mark_full_def try_start_marking_def tracer_new_def)
qed

lemma fully_marked_frame:
  assumes "fully_marked h h'"
  shows "head h' = head h" and "bytes_allocated h' = bytes_allocated h" and "options h' = options h"
    and "current_threshold h' = current_threshold h" and "n_busy_marking h' = n_busy_marking h"
    and "bg_thread h' = bg_thread h" and "gray_queue h' = []" and "phase h' = phase_as_u8 Marking"
proof -
  have e: "h' = h\<lparr>mem := mem h', gray_queue := [], phase := phase_as_u8 Marking\<rparr>"
    using assms unfolding fully_marked_def by blast
  show "head h' = head h" "bytes_allocated h' = bytes_allocated h" "options h' = options h"
    "current_threshold h' = current_threshold h" "n_busy_marking h' = n_busy_marking h"
    "bg_thread h' = bg_thread h" "gray_queue h' = []" "phase h' = phase_as_u8 Marking"
    by (subst e, simp)+
qed

lemma quiescent_tricolor:
  "heap_inv xs h \<Longrightarrow> quiescent h \<Longrightarrow> tricolor (mem h) (set (gray_queue h))"
  using tricolor_all_white heap_invD(3) by (simp add: quiescent_def)

section \<open>Incremental marking\<close>

lemma marking_inv_start:
  "heap_inv xs h \<Longrightarrow> tricolor (mem h) (set (gray_queue h)) \<Longrightarrow> marking_inv h []"
  using heap_invD(6) by (simp add: marking_inv_def)

lemma do_mark_incremental_run:
  assumes "marking_inv h []"
  shows "returns (do_mark_incremental h budget) (\<lambda>r. \<exists>n. mark_run h [] (snd r) [] n \<and>
      n \<le> unat budget \<and> (fst r \<longleftrightarrow> n = 0) \<and> (n < unat budget \<longrightarrow> gray_queue (snd r) = []))"
  unfolding do_mark_incremental_def tracer_new_def
  by (rule returns_bindI [OF do_mark_with_tracer_run [OF assms]]) (auto simp: marked_def)

section \<open>Properties\<close>

text \<open>
  Full marking is exact. On a well-formed idle heap whose objects are all white, \<open>try_mark_full\<close>
  ends, marks exactly the objects reachable from the roots, leaves no gray object behind, changes
  nothing but colours, and leaves the heap in its mark phase.
\<close>

theorem try_mark_full_exact:
  assumes "heap_inv xs h" and "quiescent h" and "n_busy_marking h = 0"
    and "incremental_work_budget (options h) \<noteq> 0"
  shows "\<exists>h'. try_mark_full h = ret (True, h') \<and> nonwhite (mem h') = reach (mem h) \<and>
    (\<forall>a. \<not> gray_at (mem h') a) \<and> recolored (mem h) (mem h') \<and> heap_inv xs h' \<and>
    phase h' = phase_as_u8 Marking"
proof -
  note q = assms(2) [unfolded quiescent_def]
  obtain r where r: "try_mark_full h = ret r" "fst r" "fully_marked h (snd r)"
    using try_mark_full_run [OF assms(1) quiescent_tricolor [OF assms(1,2)] _ assms(3,4)] q
    by (auto simp: returns_iff)
  note frame = fully_marked_frame [OF r(3)]
  have rc: "recolored (mem h) (mem (snd r))" and ok: "mem_ok (mem (snd r))"
      and gray: "\<forall>a. \<not> gray_at (mem (snd r)) a" and eq: "nonwhite (mem (snd r)) = reach (mem h)"
    using r(3) q by (auto simp: fully_marked_def)
  have "heap_inv xs (snd r)" using heap_inv_recolored [OF assms(1) rc ok refl] frame by simp
  then show ?thesis using r(1,2) rc gray eq frame(8) by (cases r) auto
qed

theorem try_mark_full_exact_witness:
  "\<exists>h'. try_mark_full (demo_heap options_DEFAULT) = ret (True, h') \<and> nonwhite (mem h') = {2, 3}"
proof -
  have "incremental_work_budget (options (demo_heap options_DEFAULT)) \<noteq> 0" by (simp add: options_DEFAULT_def)
  from try_mark_full_exact [OF heap_inv_demo quiescent_demo _ this] show ?thesis
    by (auto simp: reach_demo)
qed



end
