(* ===== verification/Sweeping.thy ===== *)
theory Sweeping
  imports Heap
begin

text \<open>
  Model of the sweep phase of \<open>src/src/heap.rs\<close>. The code walks the intrusive list holding a
  pointer to the link that points to the current box (the head, or the \<open>next\<close> field of the last
  box kept); \<open>link\<close> is that pointer. A box that is white and not a root is unlinked, dropped and
  counted, every other box is reset to white.

  The lemmas show that this pointer surgery computes a filter of the allocation list, frees exactly
  the filtered boxes, and accounts for their sizes.
\<close>

section \<open>Definitions\<close>

datatype link = HeadLink | NextLink addr

text \<open>\<open>(*prev_next).store(next)\<close> on the memory and the head.\<close>

definition store_link :: "link \<Rightarrow> addr option \<Rightarrow> mem \<times> addr option \<Rightarrow> (mem \<times> addr option) prog" where
  "store_link l v s =
     (case l of
        HeadLink \<Rightarrow> ret (fst s, v)
      | NextLink a \<Rightarrow> bind_prog (deref (fst s) a) (\<lambda>b. ret ((fst s)(a \<mapsto> set_nxt v b), snd s)))"

partial_function (option) sweep_loop ::
    "profile \<Rightarrow> link \<Rightarrow> addr option \<Rightarrow> mem \<times> addr option \<Rightarrow> usize \<Rightarrow> ((mem \<times> addr option) \<times> usize) prog" where
  "sweep_loop p prev_next current s freed =
     (case current of
        None \<Rightarrow> ret (s, freed)
      | Some a \<Rightarrow>
          bind_prog (deref (fst s) a) (\<lambda>b.
            if header_is_white (header b) then
              bind_prog (store_link prev_next (nxt (header b)) s) (\<lambda>s1.
              bind_prog (drop_impl (fst s1) a) (\<lambda>m2.
              bind_prog (add_usize p freed (vt_size (vtable (header b)))) (\<lambda>freed1.
              sweep_loop p prev_next (nxt (header b)) (m2, snd s1) freed1)))
            else
              sweep_loop p (NextLink a) (nxt (header b))
                ((fst s)(a \<mapsto> set_color (reset_white (color (header b))) b), snd s) freed))"

definition do_sweep :: "profile \<Rightarrow> heap \<Rightarrow> (usize \<times> heap) prog" where
  "do_sweep p h =
     (let h1 = start_sweeping h
      in bind_prog (sweep_loop p HeadLink (head h1) (mem h1, head h1) 0) (\<lambda>r.
           let freed = snd r;
               h2 = h1\<lparr>mem := fst (fst r), head := snd (fst r),
                       bytes_allocated := bytes_allocated h1 - freed\<rparr>
           in bind_prog (sub_usize p (bytes_allocated h1) freed) (\<lambda>allocated.
                ret (allocated, finish_gc h2))))"

definition sweep_and_finish :: "profile \<Rightarrow> heap \<Rightarrow> (usize \<times> heap) prog" where
  "sweep_and_finish p h =
     bind_prog (do_sweep p h) (\<lambda>(live_bytes, h1).
     bind_prog (update_threshold p h1 live_bytes) (\<lambda>h2.
     ret (live_bytes, finish_gc h2)))"

lemma sweep_loop_exec [exec]:
  "sweep_loop p l None s freed = ret (s, freed)"
  "sweep_loop p l (Some a) s freed =
     bind_prog (deref (fst s) a) (\<lambda>b.
       if header_is_white (header b) then
         bind_prog (store_link l (nxt (header b)) s) (\<lambda>s1.
         bind_prog (drop_impl (fst s1) a) (\<lambda>m2.
         bind_prog (add_usize p freed (vt_size (vtable (header b)))) (\<lambda>freed1.
         sweep_loop p l (nxt (header b)) (m2, snd s1) freed1)))
       else
         sweep_loop p (NextLink a) (nxt (header b))
           ((fst s)(a \<mapsto> set_color (reset_white (color (header b))) b), snd s) freed)"
  by (simp_all add: sweep_loop.simps)

lemmas sweeping_exec [exec] = store_link_def set_nxt_def do_sweep_def sweep_and_finish_def

section \<open>What a sweep does\<close>

text \<open>The objects a sweep keeps.\<close>

definition kept :: "mem \<Rightarrow> addr \<Rightarrow> bool" where
  "kept m a \<longleftrightarrow> \<not> (white_at m a \<and> \<not> root_at m a)"

text \<open>
  The effect on the memory of sweeping the boxes of \<open>S\<close>: those not kept are gone, the kept ones are
  white, all others have their colour; list links may have changed, nothing else has.
\<close>

definition swept :: "addr set \<Rightarrow> mem \<Rightarrow> mem \<Rightarrow> bool" where
  "swept S m m' \<longleftrightarrow>
     (\<forall>a. (m a = None \<longrightarrow> m' a = None) \<and>
        (\<forall>b. m a = Some b \<longrightarrow>
           (if a \<in> S then
              (if kept m a then \<exists>n. m' a = Some (set_nxt n (set_color 0 b)) else m' a = None)
            else \<exists>n. m' a = Some (set_nxt n b))))"

definition link_of :: "addr list \<Rightarrow> link" where
  "link_of ks = (if ks = [] then HeadLink else NextLink (last ks))"

text \<open>A list segment from one pointer to another.\<close>

primrec seg :: "mem \<Rightarrow> addr option \<Rightarrow> addr list \<Rightarrow> addr option \<Rightarrow> bool" where
  "seg m p [] q = (p = q)"
| "seg m p (a # as) q = (p = Some a \<and> (\<exists>b. m a = Some b \<and> seg m (nxt (header b)) as q))"

lemma chain_append: "chain m p (xs @ ys) \<longleftrightarrow> (\<exists>q. seg m p xs q \<and> chain m q ys)"
  by (induction xs arbitrary: p) auto

lemma seg_other: "seg m p xs q \<Longrightarrow> a \<notin> set xs \<Longrightarrow> seg (m(a := v)) p xs q"
  by (induction xs arbitrary: p) auto

lemma set_nxt_color: "set_nxt n (set_color c b) = set_color c (set_nxt n b)"
  by (simp add: set_nxt_def set_color_def)

lemma set_nxt_set_nxt [simp]: "set_nxt n (set_nxt k b) = set_nxt n b"
  by (simp add: set_nxt_def)

lemma set_nxt_same [simp]: "set_nxt (nxt (header b)) b = b"
  by (simp add: set_nxt_def)

lemma header_is_white_kept: "m a = Some b \<Longrightarrow> header_is_white (header b) \<longleftrightarrow> \<not> kept m a"
  by (simp add: kept_def white_at_def root_at_def header_is_white_def)

lemma sweptD:
  assumes "swept S m m'"
  shows "m a = None \<Longrightarrow> m' a = None"
    and "m a = Some b \<Longrightarrow> a \<in> S \<Longrightarrow> kept m a \<Longrightarrow> \<exists>n. m' a = Some (set_nxt n (set_color 0 b))"
    and "m a = Some b \<Longrightarrow> a \<in> S \<Longrightarrow> \<not> kept m a \<Longrightarrow> m' a = None"
    and "m a = Some b \<Longrightarrow> a \<notin> S \<Longrightarrow> \<exists>n. m' a = Some (set_nxt n b)"
  using assms unfolding swept_def by (metis, metis, metis, metis)

lemma sweptI:
  assumes "\<And>a. m a = None \<Longrightarrow> m' a = None"
    and "\<And>a b. m a = Some b \<Longrightarrow> a \<in> S \<Longrightarrow> kept m a \<Longrightarrow> \<exists>n. m' a = Some (set_nxt n (set_color 0 b))"
    and "\<And>a b. m a = Some b \<Longrightarrow> a \<in> S \<Longrightarrow> \<not> kept m a \<Longrightarrow> m' a = None"
    and "\<And>a b. m a = Some b \<Longrightarrow> a \<notin> S \<Longrightarrow> \<exists>n. m' a = Some (set_nxt n b)"
  shows "swept S m m'"
  using assms unfolding swept_def by simp

lemma swept_empty_refl: "swept {} m m"
  by (rule sweptI) (auto intro: exI [of _ "nxt (header _)"], metis set_nxt_same)

lemma swept_kept_other:
  assumes "swept S m m'" and "a \<notin> S"
  shows "kept m' a = kept m a"
  using sweptD(1,4) [OF assms(1), of a] assms(2)
  by (cases "m a") (auto simp: kept_def white_at_def root_at_def)

lemma swept_trans:
  assumes 1: "swept S m m1" and 2: "swept T m1 m2" and disj: "S \<inter> T = {}"
  shows "swept (S \<union> T) m m2"
proof (rule sweptI)
  fix a assume "m a = None"
  then show "m2 a = None" using sweptD(1) [OF 1] sweptD(1) [OF 2] by blast
next
  fix a b assume b: "m a = Some b" and a: "a \<in> S \<union> T" and k: "kept m a"
  show "\<exists>n. m2 a = Some (set_nxt n (set_color 0 b))"
  proof (cases "a \<in> S")
    case True
    then obtain n where "m1 a = Some (set_nxt n (set_color 0 b))" using sweptD(2) [OF 1 b] k by blast
    then show ?thesis using sweptD(4) [OF 2] disj True by fastforce
  next
    case False
    then obtain n where "m1 a = Some (set_nxt n b)" using sweptD(4) [OF 1 b] by blast
    then show ?thesis
      using sweptD(2) [OF 2] a False k swept_kept_other [OF 1 False] by (fastforce simp flip: set_nxt_color)
  qed
next
  fix a b assume b: "m a = Some b" and a: "a \<in> S \<union> T" and k: "\<not> kept m a"
  show "m2 a = None"
  proof (cases "a \<in> S")
    case True
    then show ?thesis using sweptD(3) [OF 1 b] sweptD(1) [OF 2] k by blast
  next
    case False
    then obtain n where "m1 a = Some (set_nxt n b)" using sweptD(4) [OF 1 b] by blast
    then show ?thesis using sweptD(3) [OF 2] a False k swept_kept_other [OF 1 False] by blast
  qed
next
  fix a b assume b: "m a = Some b" and a: "a \<notin> S \<union> T"
  then obtain n where "m1 a = Some (set_nxt n b)" using sweptD(4) [OF 1 b] by blast
  then show "\<exists>n. m2 a = Some (set_nxt n b)" using sweptD(4) [OF 2] a by fastforce
qed

section \<open>Unlinking\<close>

text \<open>Storing the next pointer of \<open>a\<close> through the previous link takes \<open>a\<close> off the list.\<close>

lemma store_link_unlinks:
  assumes ch: "chain m hp (ks @ a # as)" and b: "m a = Some b"
  shows "\<exists>m1 hp1. store_link (link_of ks) (nxt (header b)) (m, hp) = ret (m1, hp1) \<and>
    chain m1 hp1 (ks @ as) \<and> chain m1 (nxt (header b)) as \<and> swept {} m m1 \<and> m1 a = Some b"
proof (cases ks rule: rev_cases)
  case Nil
  then show ?thesis
    using ch b by (auto simp: store_link_def link_of_def swept_empty_refl)
next
  case (snoc js k)
  have dist: "distinct (ks @ a # as)" by (rule chain_distinct [OF ch])
  obtain bk where bk: "seg m hp js (Some k)" "m k = Some bk" "nxt (header bk) = Some a" "chain m (nxt (header b)) as"
    using ch snoc b by (auto simp: chain_append)
  let ?m1 = "m(k \<mapsto> set_nxt (nxt (header b)) bk)"
  have "seg ?m1 hp js (Some k)" using bk(1) dist snoc by (intro seg_other) auto
  moreover have tl: "chain ?m1 (nxt (header b)) as" using bk(4) dist snoc by (intro chain_other) auto
  ultimately have "chain ?m1 hp (ks @ as)" using snoc by (auto simp: chain_append)
  moreover have "swept {} m ?m1"
    using swept_empty_refl [of m] bk(2) by (auto simp: swept_def)
  moreover have "?m1 a = Some b" using dist snoc b by auto
  ultimately show ?thesis
    using bk(2) snoc tl by (simp add: store_link_def link_of_def)
qed

lemma swept_drop:
  assumes "m a = Some b" and "\<not> kept m a" and "swept {} m m1"
  shows "swept {a} m (m1(a := None))"
  using assms sweptD(1,4) [OF assms(3)] by (intro sweptI) auto

lemma swept_reset:
  assumes "m a = Some b" and "kept m a"
  shows "swept {a} m (m(a \<mapsto> set_color 0 b))"
proof (rule sweptI)
  show "\<exists>n. (m(a \<mapsto> set_color 0 b)) c = Some (set_nxt n (set_color 0 d))"
    if "m c = Some d" "c \<in> {a}" for c d
    using that assms set_nxt_same [of "set_color 0 b"] by (intro exI [of _ "nxt (header b)"]) simp
  show "\<exists>n. (m(a \<mapsto> set_color 0 b)) c = Some (set_nxt n d)" if "m c = Some d" "c \<notin> {a}" for c d
    using that by (intro exI [of _ "nxt (header d)"]) simp
qed (use assms in auto)

section \<open>The sweep loop\<close>

text \<open>The bytes a sweep of \<open>xs\<close> frees.\<close>

definition freed_bytes :: "mem \<Rightarrow> addr list \<Rightarrow> nat" where
  "freed_bytes m xs = (\<Sum>a\<leftarrow>filter (\<lambda>a. \<not> kept m a) xs. unat (size_at m a))"

lemma swept_freed_bytes:
  assumes "swept S m m1" and "S \<inter> set xs = {}"
  shows "freed_bytes m1 xs = freed_bytes m xs" and "filter (kept m1) xs = filter (kept m) xs"
proof -
  have k: "kept m1 a = kept m a" if "a \<in> set xs" for a
    using swept_kept_other [OF assms(1)] assms(2) that by blast
  have sz: "size_at m1 a = size_at m a" if "a \<in> set xs" for a
  proof -
    have "a \<notin> S" using assms(2) that by blast
    then show ?thesis
      using sweptD(1,4) [OF assms(1), of a] by (cases "m a") (auto simp: size_at_def)
  qed
  show "filter (kept m1) xs = filter (kept m) xs" using k by (rule filter_cong [OF refl])
  have "filter (\<lambda>a. \<not> kept m1 a) xs = filter (\<lambda>a. \<not> kept m a) xs"
    using k by (intro filter_cong [OF refl]) simp
  then show "freed_bytes m1 xs = freed_bytes m xs"
    using sz unfolding freed_bytes_def by (auto intro!: arg_cong [where f = sum_list] map_cong)
qed

text \<open>From position \<open>ks\<close> on, the loop filters the rest of the list.\<close>

definition sweep_outcome :: "mem \<Rightarrow> addr list \<Rightarrow> addr list \<Rightarrow> nat \<Rightarrow> (mem \<times> addr option) \<times> usize \<Rightarrow> bool" where
  "sweep_outcome m ks xs freed r \<longleftrightarrow>
     chain (fst (fst r)) (snd (fst r)) (ks @ filter (kept m) xs) \<and> swept (set xs) m (fst (fst r)) \<and>
     unat (snd r) = freed + freed_bytes m xs"

lemma sweep_outcome_step:
  assumes sw: "swept {a} m m1" and a: "a \<notin> set as" and rest: "sweep_outcome m1 ks' as freed' r"
    and ks: "ks' @ filter (kept m) as = ks @ filter (kept m) (a # as)"
    and fr: "freed' + freed_bytes m as = freed + freed_bytes m (a # as)"
  shows "sweep_outcome m ks (a # as) freed r"
proof -
  have "filter (kept m1) as = filter (kept m) as" "freed_bytes m1 as = freed_bytes m as"
    using swept_freed_bytes [OF sw] a by auto
  moreover have "swept ({a} \<union> set as) m (fst (fst r))"
    using swept_trans [OF sw] rest a by (auto simp: sweep_outcome_def)
  ultimately show ?thesis using rest ks fr by (simp add: sweep_outcome_def)
qed

lemma sweep_loop_keep:
  assumes "m a = Some b" and "kept m a"
  shows "sweep_loop p l (Some a) (m, hp) freed =
    sweep_loop p (NextLink a) (nxt (header b)) (m(a \<mapsto> set_color 0 b), hp) freed"
  using assms by (subst sweep_loop.simps) (simp add: header_is_white_kept [of m a b])

lemma sweep_loop_drop:
  assumes "m a = Some b" and "\<not> kept m a" and "m1 a = Some b"
    and "store_link l (nxt (header b)) (m, hp) = ret (m1, hp1)"
    and "unat freed + unat (vt_size (vtable (header b))) < 2 ^ 64"
  shows "sweep_loop p l (Some a) (m, hp) freed =
    sweep_loop p l (nxt (header b)) (m1(a := None), hp1) (freed + vt_size (vtable (header b)))"
  using assms by (subst sweep_loop.simps) (simp add: header_is_white_kept [of m a b])

lemma sweep_loop_run:
  assumes "chain m hp (ks @ xs)" and "chain m cur xs" and "unat freed + freed_bytes m xs < 2 ^ 64"
  shows "returns (sweep_loop p (link_of ks) cur (m, hp) freed) (sweep_outcome m ks xs (unat freed))"
  using assms
proof (induction xs arbitrary: m hp ks cur freed)
  case Nil
  then show ?case
    using swept_empty_refl by (simp add: sweep_loop.simps sweep_outcome_def freed_bytes_def)
next
  case (Cons a as)
  then obtain b where b: "cur = Some a" "m a = Some b" "chain m (nxt (header b)) as" by auto
  have a: "a \<notin> set as" using chain_distinct [OF Cons.prems(2)] by simp
  show ?case
  proof (cases "kept m a")
    case True
    let ?m1 = "m(a \<mapsto> set_color 0 b)"
    have sw: "swept {a} m ?m1" by (rule swept_reset [OF b(2) True])
    have fb: "freed_bytes m (a # as) = freed_bytes m as" using True by (simp add: freed_bytes_def)
    have "returns (sweep_loop p (link_of (ks @ [a])) (nxt (header b)) (?m1, hp) freed)
        (sweep_outcome ?m1 (ks @ [a]) as (unat freed))"
    proof (rule Cons.IH)
      show "chain ?m1 hp ((ks @ [a]) @ as)"
        using chain_recolored [OF Cons.prems(1) recolored_upd] b(2) by simp
      show "chain ?m1 (nxt (header b)) as" using b(3) a by (rule chain_other)
      show "unat freed + freed_bytes ?m1 as < 2 ^ 64"
        using Cons.prems(3) fb swept_freed_bytes(1) [OF sw, of as] a by simp
    qed
    then show ?thesis
      unfolding b(1) sweep_loop_keep [OF b(2) True]
      by (simp add: link_of_def) (erule returns_mono, rule sweep_outcome_step [OF sw a], use True fb in auto)
  next
    case False
    let ?sz = "vt_size (vtable (header b))"
    obtain m1 hp1 where st: "store_link (link_of ks) (nxt (header b)) (m, hp) = ret (m1, hp1)"
        "chain m1 hp1 (ks @ as)" "swept {} m m1" "m1 a = Some b" "chain m1 (nxt (header b)) as"
      using store_link_unlinks [OF Cons.prems(1) b(2)] by blast
    have sw: "swept {a} m (m1(a := None))" by (rule swept_drop [OF b(2) False st(3)])
    have fb: "freed_bytes m (a # as) = unat ?sz + freed_bytes m as"
      using False b(2) by (simp add: freed_bytes_def size_at_def)
    have fit: "unat freed + unat ?sz < 2 ^ 64" using Cons.prems(3) fb by simp
    have "returns (sweep_loop p (link_of ks) (nxt (header b)) (m1(a := None), hp1) (freed + ?sz))
        (sweep_outcome (m1(a := None)) ks as (unat (freed + ?sz)))"
    proof (rule Cons.IH)
      show "chain (m1(a := None)) hp1 (ks @ as)"
        using chain_distinct [OF Cons.prems(1)] by (intro chain_other st(2)) auto
      show "chain (m1(a := None)) (nxt (header b)) as" by (rule chain_other [OF st(5) a])
      show "unat (freed + ?sz) + freed_bytes (m1(a := None)) as < 2 ^ 64"
        using Cons.prems(3) fb swept_freed_bytes(1) [OF sw, of as] a unat_add_usize [OF fit] by simp
    qed
    then show ?thesis
      unfolding b(1) sweep_loop_drop [OF b(2) False st(4,1) fit]
      by (rule returns_mono) (rule sweep_outcome_step [OF sw a], use False fb unat_add_usize [OF fit] in auto)
  qed
qed

section \<open>The whole sweep\<close>

text \<open>
  What \<open>do_sweep\<close> leaves behind: the list filtered to the kept objects, the memory restricted to
  them and all white, the byte count reduced by what was freed, the phase idle.
\<close>

definition sweep_done :: "addr list \<Rightarrow> heap \<Rightarrow> heap \<Rightarrow> bool" where
  "sweep_done xs h h' \<longleftrightarrow>
     chain (mem h') (head h') (filter (kept (mem h)) xs) \<and>
     swept (dom (mem h)) (mem h) (mem h') \<and>
     dom (mem h') = {a \<in> dom (mem h). kept (mem h) a} \<and>
     unat (bytes_allocated h') = (\<Sum>a\<leftarrow>filter (kept (mem h)) xs. unat (size_at (mem h') a)) \<and>
     h' = h\<lparr>mem := mem h', head := head h', bytes_allocated := bytes_allocated h',
            phase := phase_as_u8 Idle\<rparr>"

lemma sweep_done_frame:
  assumes "sweep_done xs h h'"
  shows "phase h' = phase_as_u8 Idle" and "options h' = options h"
    and "current_threshold h' = current_threshold h" and "gray_queue h' = gray_queue h"
    and "n_busy_marking h' = n_busy_marking h" and "bg_thread h' = bg_thread h"
proof -
  have e: "h' = h\<lparr>mem := mem h', head := head h', bytes_allocated := bytes_allocated h',
      phase := phase_as_u8 Idle\<rparr>"
    using assms unfolding sweep_done_def by blast
  show "phase h' = phase_as_u8 Idle" "options h' = options h" "gray_queue h' = gray_queue h"
      "current_threshold h' = current_threshold h" "n_busy_marking h' = n_busy_marking h"
      "bg_thread h' = bg_thread h"
    by (subst e, simp)+
qed

lemma swept_all:
  assumes sw: "swept (dom m) m m'"
  shows "dom m' = {a \<in> dom m. kept m a}" and "nonwhite m' = {}"
    and "a \<in> dom m \<Longrightarrow> kept m a \<Longrightarrow> size_at m' a = size_at m a"
    and "a \<in> dom m \<Longrightarrow> kept m a \<Longrightarrow> rel_option same_obj (m a) (m' a)"
proof -
  have cases: "(m' a = None \<and> \<not> (a \<in> dom m \<and> kept m a)) \<or>
      (\<exists>b n. m a = Some b \<and> kept m a \<and> m' a = Some (set_nxt n (set_color 0 b)))" for a
    using sweptD(1-3) [OF sw, of a] by (cases "m a"; cases "kept m a") auto
  show "dom m' = {a \<in> dom m. kept m a}"
  proof (intro set_eqI iffI)
    fix a assume "a \<in> dom m'"
    then show "a \<in> {a \<in> dom m. kept m a}" using cases [of a] by auto
  next
    fix a assume "a \<in> {a \<in> dom m. kept m a}"
    then show "a \<in> dom m'" using cases [of a] by auto
  qed
  show "nonwhite m' = {}"
  proof (rule equals0I)
    fix a assume "a \<in> nonwhite m'"
    then show False using cases [of a] by (auto simp: nonwhite_def white_at_def)
  qed
  show "size_at m' a = size_at m a" "rel_option same_obj (m a) (m' a)" if "a \<in> dom m" "kept m a"
    using cases [of a] that by (auto simp: size_at_def same_obj_def)
qed

lemma do_sweep_run:
  assumes inv: "heap_inv xs h"
  shows "returns (do_sweep p h) (\<lambda>r. sweep_done xs h (snd r) \<and> fst r = bytes_allocated (snd r))"
proof -
  note hi = heap_invD [OF inv]
  have split: "unat (bytes_allocated h) =
      (\<Sum>a\<leftarrow>filter (kept (mem h)) xs. unat (size_at (mem h) a)) + freed_bytes (mem h) xs"
    unfolding hi(4) freed_bytes_def by (rule sum_list_filter_split)
  have "returns (sweep_loop p HeadLink (head h) (mem h, head h) 0) (sweep_outcome (mem h) [] xs 0)"
    using sweep_loop_run [of "mem h" "head h" "[]" xs "head h" 0 p] hi(1) split usize_lt [of "bytes_allocated h"]
    by (simp add: link_of_def)
  then obtain m' hp' freed where r: "sweep_loop p HeadLink (head h) (mem h, head h) 0 = ret ((m', hp'), freed)"
      and out: "sweep_outcome (mem h) [] xs 0 ((m', hp'), freed)"
    by (auto simp: returns_iff)
  have ch: "chain m' hp' (filter (kept (mem h)) xs)" and sw: "swept (dom (mem h)) (mem h) m'"
      and fr: "unat freed = freed_bytes (mem h) xs"
    using out hi(2) by (auto simp: sweep_outcome_def)
  have le: "unat freed \<le> unat (bytes_allocated h)" using split fr by simp
  have "(\<Sum>a\<leftarrow>filter (kept (mem h)) xs. unat (size_at (mem h) a)) =
      (\<Sum>a\<leftarrow>filter (kept (mem h)) xs. unat (size_at m' a))"
    using swept_all(3) [OF sw] hi(2) by (intro arg_cong [where f = sum_list] map_cong) auto
  then have bytes: "unat (bytes_allocated h - freed) = (\<Sum>a\<leftarrow>filter (kept (mem h)) xs. unat (size_at m' a))"
    using unat_sub_usize [OF le] split fr by simp
  let ?h' = "h\<lparr>phase := phase_as_u8 Idle, mem := m', head := hp', bytes_allocated := bytes_allocated h - freed\<rparr>"
  have "do_sweep p h = ret (bytes_allocated h - freed, ?h')"
    using r le by (simp add: do_sweep_def start_sweeping_def finish_gc_def)
  moreover have "sweep_done xs h ?h'"
    using ch sw bytes swept_all(1) [OF sw] by (simp add: sweep_done_def)
  ultimately show ?thesis by simp
qed

lemma sweep_done_bytes_le:
  assumes inv: "heap_inv xs h" and sd: "sweep_done xs h h'"
  shows "unat (bytes_allocated h') \<le> unat (bytes_allocated h)"
proof -
  have sw: "swept (dom (mem h)) (mem h) (mem h')" using sd by (simp add: sweep_done_def)
  have "(\<Sum>a\<leftarrow>filter (kept (mem h)) xs. unat (size_at (mem h') a)) =
      (\<Sum>a\<leftarrow>filter (kept (mem h)) xs. unat (size_at (mem h) a))"
    using swept_all(3) [OF sw] heap_invD(2) [OF inv]
    by (intro arg_cong [where f = sum_list] map_cong) auto
  then show ?thesis
    using sd sum_list_filter_le [of "\<lambda>a. unat (size_at (mem h) a)" "kept (mem h)" xs] heap_invD(4) [OF inv]
    by (simp add: sweep_done_def)
qed

text \<open>
  If the kept objects are closed under edges, the swept memory is well formed again: no kept object
  points to a freed one.
\<close>

lemma swept_mem_ok:
  assumes ok: "mem_ok m" and sw: "swept (dom m) m m'"
    and closed: "\<And>a. a \<in> dom m \<Longrightarrow> kept m a \<Longrightarrow> succs m a \<subseteq> Collect (kept m)"
  shows "mem_ok m'"
  unfolding mem_ok_def
proof (intro allI impI)
  fix a b' assume b': "m' a = Some b'"
  then have a: "a \<in> dom m" "kept m a" using swept_all(1) [OF sw] by blast+
  then obtain b n where b: "m a = Some b" "b' = set_nxt n (set_color 0 b)"
    using sweptD(2) [OF sw] b' by (metis domD option.inject)
  have "box_ok b'" using mem_okD(1) [OF ok b(1)] b(2) by (simp add: box_ok_def)
  moreover have "ptr_ok m' q" if q: "q \<in> set (gc_ptrs (data b'))" for q
  proof -
    have "ptr_ok m q" using mem_okD(2) [OF ok b(1)] b(2) q by simp
    moreover have "snd q \<in> succs m a" using b q by (auto simp: succs_def)
    ultimately have k: "snd q \<in> dom m" "kept m (snd q)" using closed [OF a] by (auto simp: ptr_ok_def)
    then obtain c k where "m (snd q) = Some c" "m' (snd q) = Some (set_nxt k (set_color 0 c))"
      using sweptD(2) [OF sw] by (metis domD)
    then show ?thesis using \<open>ptr_ok m q\<close> by (auto simp: ptr_ok_def leaf_at_def)
  qed
  ultimately show "box_ok b' \<and> (\<forall>q\<in>set (gc_ptrs (data b')). ptr_ok m' q)" by blast
qed

lemma sweep_done_heap_inv:
  assumes "heap_inv xs h" and "sweep_done xs h h'"
    and "\<And>a. a \<in> dom (mem h) \<Longrightarrow> kept (mem h) a \<Longrightarrow> succs (mem h) a \<subseteq> Collect (kept (mem h))"
  shows "heap_inv (filter (kept (mem h)) xs) h'"
  using assms swept_mem_ok [of "mem h" "mem h'"] heap_invD(2,3) [OF assms(1)]
  by (auto simp: heap_inv_def sweep_done_def)

section \<open>Properties\<close>

text \<open>
  C13: the sweep is memory safe and exact. On any heap whose list is well formed, whatever its
  colours, \<open>do_sweep\<close> ends without touching freed memory and without an arithmetic panic; the
  objects left are exactly those that were not white or were roots, in their list order, all white;
  the byte count returned is the sum of their sizes, and the phase is idle.
\<close>

theorem do_sweep_exact:
  assumes "heap_inv xs h"
  shows "\<exists>h'. do_sweep p h = ret (bytes_allocated h', h') \<and>
    dom (mem h') = {a \<in> dom (mem h). \<not> white_at (mem h) a \<or> root_at (mem h) a} \<and>
    chain (mem h') (head h') (filter (\<lambda>a. \<not> white_at (mem h) a \<or> root_at (mem h) a) xs) \<and>
    nonwhite (mem h') = {} \<and> phase h' = phase_as_u8 Idle \<and>
    unat (bytes_allocated h') = (\<Sum>a\<in>dom (mem h'). unat (size_at (mem h') a))"
proof -
  obtain r where r: "do_sweep p h = ret r" "sweep_done xs h (snd r)" "fst r = bytes_allocated (snd r)"
    using do_sweep_run [OF assms] by (rule returnsE) blast
  have k: "kept (mem h) = (\<lambda>a. \<not> white_at (mem h) a \<or> root_at (mem h) a)"
    by (auto simp: kept_def)
  have "set (filter (kept (mem h)) xs) = dom (mem (snd r))"
    using r(2) heap_invD(2) [OF assms] by (auto simp: sweep_done_def)
  moreover have "distinct (filter (kept (mem h)) xs)" using heap_invD(5) [OF assms] by simp
  ultimately have "(\<Sum>a\<leftarrow>filter (kept (mem h)) xs. unat (size_at (mem (snd r)) a)) =
      (\<Sum>a\<in>dom (mem (snd r)). unat (size_at (mem (snd r)) a))"
    by (metis sum_list_distinct_conv_sum_set)
  moreover have "phase (snd r) = phase_as_u8 Idle"
    by (rule sweep_done_frame(1) [OF r(2)])
  ultimately show ?thesis
    using r swept_all(2) [of "mem h" "mem (snd r)"] unfolding sweep_done_def k by (cases r) auto
qed

theorem do_sweep_exact_witness:
  "heap_inv [2, 3] chain_heap \<and> (\<exists>h'. do_sweep Debug chain_heap = ret (bytes_allocated h', h') \<and>
     dom (mem h') = {2, 3} \<and> unat (bytes_allocated h') = 96)"
proof -
  obtain h' where h': "do_sweep Debug chain_heap = ret (bytes_allocated h', h')"
      "dom (mem h') = {a \<in> dom (mem chain_heap). \<not> white_at (mem chain_heap) a \<or> root_at (mem chain_heap) a}"
      "unat (bytes_allocated h') = (\<Sum>a\<in>dom (mem h'). unat (size_at (mem h') a))"
    using do_sweep_exact [OF heap_inv_chain_heap, of Debug] by blast
  have "root_at (mem chain_heap) 2" "root_at (mem chain_heap) 3"
    by (simp_all add: chain_heap_def chain_mem_def box_new_def header_new_def root_at_def is_root_def)
  then have dom: "dom (mem h') = {2, 3}"
    unfolding h'(2) heap_invD(2) [OF heap_inv_chain_heap, symmetric] by auto
  have "do_sweep Debug chain_heap = ret (bytes_allocated h', h') \<Longrightarrow> bytes_allocated h' = 96"
    by (simp add: do_sweep_def start_sweeping_def finish_gc_def chain_heap_def chain_mem_def box_new_def
        sweep_loop.simps header_is_white_def header_new_def is_root_def heap_init_def bind_eq_ret_iff)
  then show ?thesis using h'(1) dom heap_inv_chain_heap by auto
qed

end
