(* ===== verification/Collection.thy ===== *)
theory Collection
  imports Marking Sweeping
begin

text \<open>
  Model of forced and conditional collection, \<open>force_collect\<close> and \<open>collect\<close> of
  \<open>src/src/heap.rs\<close>. The central result is that a collection that runs from start to end
  removes exactly the unreachable objects.
\<close>

section \<open>Definitions\<close>

definition force_collect :: "profile \<Rightarrow> heap \<Rightarrow> (usize \<times> heap) prog" where
  "force_collect p h =
     bind_prog (try_mark_full h) (\<lambda>(ok, h1).
       if \<not> ok then ret (bytes_allocated h1, h1)
       else sweep_and_finish p h1)"

definition collect :: "profile \<Rightarrow> heap \<Rightarrow> heap prog" where
  "collect p h =
     (if should_collect h then bind_prog (force_collect p h) (\<lambda>(_, h1). ret h1) else ret h)"

lemmas collection_exec [exec] = force_collect_def collect_def

text \<open>No pacing step panics, whatever number of bytes survives.\<close>

definition pacing_safe :: "profile \<Rightarrow> heap \<Rightarrow> bool" where
  "pacing_safe p h \<longleftrightarrow>
     p = Release \<or> (\<forall>live \<le> unat (bytes_allocated h). pacing_fits (options h) (unat (current_threshold h)) live)"

text \<open>A heap on which a collection may start: idle, no marker busy, and a positive mark budget.\<close>

definition ready :: "heap \<Rightarrow> bool" where
  "ready h \<longleftrightarrow> quiescent h \<and> n_busy_marking h = 0 \<and> incremental_work_budget (options h) \<noteq> 0"

section \<open>Sweeping a marked heap\<close>

lemma kept_marked:
  assumes "\<And>a. root_at m a \<Longrightarrow> a \<in> nonwhite m" and "a \<in> dom m"
  shows "kept m a \<longleftrightarrow> a \<in> nonwhite m"
  using assms by (auto simp: kept_def nonwhite_def)

lemma update_threshold_returns:
  assumes "p = Release \<or> pacing_fits (options h) (unat (current_threshold h)) (unat live)"
  shows "returns (update_threshold p h live) (\<lambda>h'. \<exists>t. h' = h\<lparr>current_threshold := t\<rparr>)"
proof -
  have "\<exists>r. calculate_threshold p (options h) (current_threshold h) live = ret r"
  proof (cases "p = Release")
    case True
    then show ?thesis
      by (simp add: calculate_threshold_def mul_usize_def add_usize_def Let_def)
  next
    case False
    then show ?thesis
      using assms calculate_threshold_fits [of "options h" "current_threshold h" live p]
      by (auto simp: returns_iff)
  qed
  then show ?thesis by (auto simp: update_threshold_def)
qed

text \<open>The outcome of a collection that keeps the set \<open>K\<close>.\<close>

definition collected :: "addr list \<Rightarrow> addr set \<Rightarrow> heap \<Rightarrow> heap \<Rightarrow> bool" where
  "collected xs K h h' \<longleftrightarrow>
     heap_inv (filter (\<lambda>a. a \<in> K) xs) h' \<and> quiescent h' \<and> dom (mem h') = K \<and>
     (\<forall>a\<in>K. rel_option same_obj (mem h a) (mem h' a)) \<and>
     options h' = options h \<and> n_busy_marking h' = n_busy_marking h \<and> bg_thread h' = bg_thread h"

text \<open>A sweep whose kept objects are closed under edges.\<close>

lemma sweep_and_finish_kept:
  assumes inv: "heap_inv xs h" and q: "gray_queue h = []" and safe: "pacing_safe p h"
    and closed: "\<And>a. a \<in> dom (mem h) \<Longrightarrow> kept (mem h) a \<Longrightarrow> succs (mem h) a \<subseteq> Collect (kept (mem h))"
  shows "returns (sweep_and_finish p h) (\<lambda>r. collected xs {a \<in> dom (mem h). kept (mem h) a} h (snd r) \<and>
      fst r = bytes_allocated (snd r))"
  unfolding sweep_and_finish_def
proof (rule returns_bindI [OF do_sweep_run [OF inv]])
  let ?K = "{a \<in> dom (mem h). kept (mem h) a}"
  fix r assume r: "sweep_done xs h (snd r) \<and> fst r = bytes_allocated (snd r)"
  then obtain h1 where h1: "r = (bytes_allocated h1, h1)" "sweep_done xs h h1" by (cases r) auto
  note frame = sweep_done_frame [OF h1(2)]
  have sw: "swept (dom (mem h)) (mem h) (mem h1)" and dom: "dom (mem h1) = ?K"
    using h1(2) by (auto simp: sweep_done_def)
  have "heap_inv (filter (kept (mem h)) xs) h1" using closed by (rule sweep_done_heap_inv [OF inv h1(2)])
  moreover have "filter (kept (mem h)) xs = filter (\<lambda>a. a \<in> ?K) xs"
    using heap_invD(2) [OF inv] by (intro filter_cong) auto
  moreover have "\<forall>a\<in>?K. rel_option same_obj (mem h a) (mem h1 a)" using swept_all(4) [OF sw] by blast
  ultimately have c: "collected xs ?K h h1"
    using dom swept_all(2) [OF sw] frame q by (simp add: collected_def quiescent_def)
  have "unat (bytes_allocated h1) \<le> unat (bytes_allocated h)"
    by (rule sweep_done_bytes_le [OF inv h1(2)])
  then have "returns (update_threshold p h1 (bytes_allocated h1)) (\<lambda>h'. \<exists>t. h' = h1\<lparr>current_threshold := t\<rparr>)"
    using safe frame by (intro update_threshold_returns) (auto simp: pacing_safe_def)
  then show "returns (case r of (live_bytes, h1) \<Rightarrow>
      bind_prog (update_threshold p h1 live_bytes) (\<lambda>h2. ret (live_bytes, finish_gc h2)))
    (\<lambda>r. collected xs ?K h (snd r) \<and> fst r = bytes_allocated (snd r))"
    using c h1(1) by (auto elim!: returns_bindI simp: collected_def quiescent_def finish_gc_def)
qed

text \<open>The special case in which every root is marked.\<close>

lemma sweep_and_finish_run:
  assumes inv: "heap_inv xs h" and q: "gray_queue h = []" and safe: "pacing_safe p h"
    and roots: "\<And>a. root_at (mem h) a \<Longrightarrow> a \<in> nonwhite (mem h)"
    and closed: "\<forall>a\<in>nonwhite (mem h). succs (mem h) a \<subseteq> nonwhite (mem h)"
  shows "returns (sweep_and_finish p h) (\<lambda>r. collected xs (nonwhite (mem h)) h (snd r) \<and>
      fst r = bytes_allocated (snd r))"
proof -
  have kept: "a \<in> dom (mem h) \<Longrightarrow> kept (mem h) a \<longleftrightarrow> a \<in> nonwhite (mem h)" for a
    by (rule kept_marked) (use roots in auto)
  then have "{a \<in> dom (mem h). kept (mem h) a} = nonwhite (mem h)" using nonwhite_dom by blast
  moreover have "succs (mem h) a \<subseteq> Collect (kept (mem h))" if "a \<in> dom (mem h)" "kept (mem h) a" for a
    using closed kept that succs_dom [OF heap_invD(3) [OF inv]] by blast
  ultimately show ?thesis using sweep_and_finish_kept [OF inv q safe] by simp
qed

lemma collected_recolored:
  assumes "collected xs K h1 h'" and "recolored (mem h) (mem h1)"
    and "options h1 = options h" "n_busy_marking h1 = n_busy_marking h" "bg_thread h1 = bg_thread h"
  shows "collected xs K h h'"
proof -
  have "rel_option same_obj (mem h a) (mem h' a)" if "rel_option same_obj (mem h1 a) (mem h' a)" for a
    using that recolored_same_objs [OF assms(2)]
    by (cases "mem h a"; cases "mem h1 a"; cases "mem h' a")
      (auto simp: same_objs_def same_obj_def dest!: spec [of _ a])
  then show ?thesis using assms by (auto simp: collected_def)
qed

text \<open>Sweeping after a full mark keeps exactly the reachable objects.\<close>

lemma sweep_after_mark:
  assumes inv: "heap_inv xs h" and white: "nonwhite (mem h) = {}" and fm: "fully_marked h h1"
    and safe: "pacing_safe p h"
  shows "returns (sweep_and_finish p h1) (\<lambda>r. collected xs (reach (mem h)) h (snd r) \<and>
      fst r = bytes_allocated (snd r))"
proof -
  note frame = fully_marked_frame [OF fm]
  have rc: "recolored (mem h) (mem h1)" and ok: "mem_ok (mem h1)" using fm by (auto simp: fully_marked_def)
  have eq: "nonwhite (mem h1) = reach (mem h)" using fm white by (simp add: fully_marked_def)
  have inv1: "heap_inv xs h1" using heap_inv_recolored [OF inv rc ok] frame by simp
  have views: "root_at (mem h1) = root_at (mem h)" "succs (mem h1) = succs (mem h)"
    using same_objs_views [OF recolored_same_objs [OF rc]] by auto
  have "returns (sweep_and_finish p h1) (\<lambda>r. collected xs (nonwhite (mem h1)) h1 (snd r) \<and>
      fst r = bytes_allocated (snd r))"
  proof (rule sweep_and_finish_run [OF inv1 frame(7)])
    show "pacing_safe p h1" using safe frame by (simp add: pacing_safe_def)
  qed (auto simp: views eq intro: reach.intros)
  then show ?thesis
    by (rule returns_mono) (use collected_recolored [OF _ rc] frame eq in auto)
qed

text \<open>The whole cycle.\<close>

lemma force_collect_run:
  assumes inv: "heap_inv xs h" and rd: "ready h" and safe: "pacing_safe p h"
  shows "returns (force_collect p h) (\<lambda>r. collected xs (reach (mem h)) h (snd r) \<and>
      fst r = bytes_allocated (snd r))"
  unfolding force_collect_def
proof (rule returns_bindI)
  show "returns (try_mark_full h) (\<lambda>r. fst r \<and> fully_marked h (snd r))"
    using rd inv quiescent_tricolor by (intro try_mark_full_run) (auto simp: ready_def quiescent_def)
  fix r assume r: "fst r \<and> fully_marked h (snd r)"
  then show "returns (case r of (ok, h1) \<Rightarrow>
      if \<not> ok then ret (bytes_allocated h1, h1) else sweep_and_finish p h1)
    (\<lambda>r. collected xs (reach (mem h)) h (snd r) \<and> fst r = bytes_allocated (snd r))"
    using sweep_after_mark [OF inv _ _ safe, of "snd r"] rd by (cases r) (simp add: ready_def quiescent_def)
qed

section \<open>Properties of collections\<close>

lemma collectedD:
  assumes "collected xs K h h'" and "a \<in> K"
  shows "\<exists>b b'. mem h a = Some b \<and> mem h' a = Some b' \<and> same_obj b b'"
proof -
  have "a \<in> dom (mem h')" "rel_option same_obj (mem h a) (mem h' a)"
    using assms by (auto simp: collected_def)
  then show ?thesis by (cases "mem h a") (auto simp: option_rel_Some2)
qed

text \<open>
  C2: a full collection is exact. On a well-formed idle heap \<open>force_collect\<close> ends without a
  use after free or a panic; the objects left are exactly those reachable from the roots; each of them
  keeps its data, root count and vtable; the heap is well formed (so no stored pointer dangles) and idle
  again, and the value returned is the number of bytes of the survivors.
\<close>

theorem force_collect_exact:
  assumes "heap_inv xs h" and "ready h" and "pacing_safe p h"
  shows "\<exists>h'. force_collect p h = ret (bytes_allocated h', h') \<and>
    dom (mem h') = reach (mem h) \<and>
    (\<forall>a\<in>reach (mem h). \<exists>b b'. mem h a = Some b \<and> mem h' a = Some b' \<and> same_obj b b') \<and>
    heap_inv (filter (\<lambda>a. a \<in> reach (mem h)) xs) h' \<and> ready h'"
proof -
  obtain r where r: "force_collect p h = ret r" "collected xs (reach (mem h)) h (snd r)"
      "fst r = bytes_allocated (snd r)"
    using force_collect_run [OF assms] by (rule returnsE) blast
  then have "ready (snd r)" using assms(2) by (simp add: collected_def ready_def)
  then show ?thesis
    using r collectedD [OF r(2)] by (cases r) (auto simp: collected_def)
qed

theorem force_collect_exact_witness:
  "heap_inv [2, 3, 4] (demo_heap options_DEFAULT) \<and>
   (\<exists>h'. force_collect Debug (demo_heap options_DEFAULT) = ret (bytes_allocated h', h') \<and>
      dom (mem h') = {2, 3} \<and> heap_inv [2, 3] h')"
proof -
  let ?h = "demo_heap options_DEFAULT"
  have rd: "ready ?h"
    by (simp add: ready_def quiescent_demo) (simp add: options_DEFAULT_def)
  have ps: "pacing_safe Debug ?h"
    by (auto simp: pacing_safe_def pacing_fits_def goal_nat_def options_DEFAULT_def)
  show ?thesis
    using force_collect_exact [OF heap_inv_demo rd ps] heap_inv_demo by (simp add: reach_demo) blast
qed

text \<open>
  A collection never starts inside another. While the phase is marking or sweeping,
  \<open>force_collect\<close> changes nothing and returns the current byte count.
\<close>

theorem force_collect_busy:
  assumes "phase h \<noteq> phase_as_u8 Idle"
  shows "force_collect p h = ret (bytes_allocated h, h)"
  using assms by (simp add: force_collect_def try_mark_full_def try_start_marking_def)

theorem force_collect_busy_witness:
  "force_collect Debug ((demo_heap options_OFF)\<lparr>phase := phase_as_u8 Sweeping\<rparr>) =
     ret (144, (demo_heap options_OFF)\<lparr>phase := phase_as_u8 Sweeping\<rparr>)"
  using force_collect_busy [of "(demo_heap options_OFF)\<lparr>phase := phase_as_u8 Sweeping\<rparr>" Debug]
  by simp

text \<open>
  The call \<open>collect\<close> is a collection on demand. When the trigger fires it does what \<open>force_collect\<close> does,
  otherwise it does nothing; the trigger fires exactly when the byte count exceeds a configured limit
  or the current threshold and the collector is not switched off.
\<close>

theorem collect_correct:
  assumes "heap_inv xs h" and "ready h" and "pacing_safe p h"
  shows "(should_collect h \<longleftrightarrow> \<not> is_completely_off (options h) \<and>
      (\<not> is_limit_off (options h) \<and> bytes_allocated h > limit_bytes (options h) \<or>
       bytes_allocated h > current_threshold h)) \<and>
    (if should_collect h then
       \<exists>h'. collect p h = ret h' \<and> dom (mem h') = reach (mem h) \<and>
         heap_inv (filter (\<lambda>a. a \<in> reach (mem h)) xs) h' \<and> ready h'
     else collect p h = ret h)"
proof -
  obtain r where r: "force_collect p h = ret r" "collected xs (reach (mem h)) h (snd r)"
    using force_collect_run [OF assms] by (rule returnsE) blast
  then have "ready (snd r)" using assms(2) by (simp add: collected_def ready_def)
  then show ?thesis
    using r by (cases r) (auto simp: collect_def should_collect_def collected_def)
qed

theorem collect_correct_witness:
  "collect Debug (demo_heap options_DEFAULT) = ret (demo_heap options_DEFAULT) \<and> reach (mem (demo_heap options_DEFAULT)) = {2, 3}"
proof -
  let ?h = "demo_heap options_DEFAULT"
  have "ready ?h" by (simp add: ready_def quiescent_demo) (simp add: options_DEFAULT_def)
  moreover have "pacing_safe Debug ?h"
    by (auto simp: pacing_safe_def pacing_fits_def goal_nat_def options_DEFAULT_def)
  moreover have "\<not> should_collect ?h"
    by (simp add: should_collect_def is_limit_off_def options_DEFAULT_def)
  ultimately show ?thesis using collect_correct [OF heap_inv_demo] reach_demo by simp
qed


end
