(* ===== verification/Allocation.thy ===== *)
theory Allocation
  imports Marking
begin

text \<open>
  Model of \<open>Heap::allocate\<close> in \<open>src/src/heap.rs\<close>: mutator assist, the new box, its insertion
  at the head of the allocation list and the byte count. The lemmas show what an allocation does to
  the heap invariant and to a mark phase in progress.
\<close>

section \<open>Definitions\<close>

definition assist :: "heap \<Rightarrow> heap prog" where
  "assist h =
     (if assist_work_budget (options h) > 0 then
        (let (marking, h1) = check_is_marking_and_increment_busy h
         in if marking then
              bind_prog (do_mark_incremental h1 (assist_work_budget (options h1))) (\<lambda>(_, h2).
                ret (decrement_busy_marking h2))
            else ret h1)
      else ret h)"

text \<open>
  The insertion loop without interference: the head is loaded, stored into the new box's link, and
  the compare-and-swap finds it unchanged.
\<close>

definition insert_head :: "heap \<Rightarrow> addr \<Rightarrow> heap prog" where
  "insert_head h a =
     (let current_head = head h
      in bind_prog (deref (mem h) a) (\<lambda>b.
           ret (h\<lparr>mem := (mem h)(a \<mapsto> set_nxt current_head b), head := Some a\<rparr>)))"

text \<open>
  \<open>allocate::<T>(data)\<close>: \<open>a\<close> is the address the allocator returns, \<open>t\<close> and \<open>sz\<close> stand
  for \<open>T\<close> and the size of \<open>GcBox<T>\<close>. The result is the address the returned \<open>GcRoot\<close> holds.
\<close>

definition allocate :: "heap \<Rightarrow> addr \<Rightarrow> ty \<Rightarrow> usize \<Rightarrow> val \<Rightarrow> (addr \<times> heap) prog" where
  "allocate h a t sz v =
     bind_prog (assist h) (\<lambda>h1.
     bind_prog (insert_head (h1\<lparr>mem := box_new (mem h1) a t sz v\<rparr>) a) (\<lambda>h2.
     bind_prog (deref (mem h2) a) (\<lambda>b.
     ret (a, h2\<lparr>bytes_allocated := bytes_allocated h2 + vt_size (vtable (header b))\<rparr>))))"

lemmas allocation_exec [exec] = assist_def insert_head_def allocate_def set_nxt_def

section \<open>Mutator assist\<close>

lemma mark_run_frame:
  assumes "mark_run h tr h' tr' n"
  shows "head h' = head h" and "bytes_allocated h' = bytes_allocated h" and "options h' = options h"
    and "current_threshold h' = current_threshold h" and "n_busy_marking h' = n_busy_marking h"
    and "bg_thread h' = bg_thread h" and "phase h' = phase h"
proof -
  have e: "h' = h\<lparr>mem := mem h', gray_queue := gray_queue h'\<rparr>"
    using assms unfolding mark_run_def by blast
  show "head h' = head h" "bytes_allocated h' = bytes_allocated h" "options h' = options h"
    "current_threshold h' = current_threshold h" "n_busy_marking h' = n_busy_marking h"
    "bg_thread h' = bg_thread h" "phase h' = phase h"
    by (subst e, simp)+
qed

lemma mark_run_mem:
  assumes "mark_run h tr h' tr' n"
  shows "recolored (mem h) (mem h')" and "mem_ok (mem h')" and "nonwhite (mem h) \<subseteq> nonwhite (mem h')"
    and "tricolor (mem h') (set (gray_queue h') \<union> set tr')" and "finite (dom (mem h'))"
proof -
  have "marking_inv h' tr'" by (rule mark_run_inv [OF assms])
  then show "tricolor (mem h') (set (gray_queue h') \<union> set tr')" "finite (dom (mem h'))" "mem_ok (mem h')"
    unfolding marking_inv_def by (blast dest: tricolorD(1))+
  show "recolored (mem h) (mem h')" "nonwhite (mem h) \<subseteq> nonwhite (mem h')"
    using assms by (simp_all only: mark_run_def)
qed

lemma mark_run_heap_inv:
  assumes "heap_inv xs h" and "mark_run h tr h' tr' n"
  shows "heap_inv xs h'"
  using heap_inv_recolored [OF assms(1) mark_run_mem(1,2) [OF assms(2)] refl] mark_run_frame [OF assms(2)]
  by simp

text \<open>Registering as busy before the work and unregistering after it leaves no trace.\<close>

lemma mark_run_busy:
  assumes "mark_run (h\<lparr>n_busy_marking := k\<rparr>) tr h' tr' n"
  shows "mark_run h tr (h'\<lparr>n_busy_marking := n_busy_marking h\<rparr>) tr' n"
  using assms by (cases h; cases h') (auto simp: mark_run_def marking_inv_def work_left_def)

lemma assist_run:
  assumes "marking_inv h []"
  shows "returns (assist h) (\<lambda>h'. \<exists>n. mark_run h [] h' [] n)"
proof (cases "assist_work_budget (options h) > 0 \<and> is_marking h")
  case True
  let ?h1 = "h\<lparr>n_busy_marking := n_busy_marking h + 1\<rparr>"
  have "marking_inv ?h1 []" using assms by (simp add: marking_inv_def)
  then have "returns (do_mark_incremental ?h1 (assist_work_budget (options h)))
      (\<lambda>r. \<exists>n. mark_run ?h1 [] (snd r) [] n)"
    by (rule returns_mono [OF do_mark_incremental_run]) blast
  then have "returns (bind_prog (do_mark_incremental ?h1 (assist_work_budget (options h)))
      (\<lambda>(_, h2). ret (decrement_busy_marking h2))) (\<lambda>h'. \<exists>n. mark_run h [] h' [] n)"
  proof (rule returns_bindI)
    fix r :: "bool \<times> heap" assume "\<exists>n. mark_run ?h1 [] (snd r) [] n"
    then obtain n where n: "mark_run ?h1 [] (snd r) [] n" by blast
    have "decrement_busy_marking (snd r) = (snd r)\<lparr>n_busy_marking := n_busy_marking h\<rparr>"
      using mark_run_frame(5) [OF n] by (simp add: decrement_busy_marking_def)
    then show "returns (case r of (_, h2) \<Rightarrow> ret (decrement_busy_marking h2)) (\<lambda>h'. \<exists>n. mark_run h [] h' [] n)"
      using mark_run_busy [OF n] by (auto simp: case_prod_beta)
  qed
  then show ?thesis
    using True by (simp add: assist_def check_is_marking_and_increment_busy_def is_marking_def)
next
  case False
  then show ?thesis
    using mark_run_refl [OF assms]
    by (auto simp: assist_def check_is_marking_and_increment_busy_def is_marking_def Let_def)
qed

section \<open>Allocation\<close>

text \<open>The box an allocation puts into the memory: white, rooted once, linked to the old head.\<close>

definition fresh_box :: "addr option \<Rightarrow> ty \<Rightarrow> usize \<Rightarrow> val \<Rightarrow> gc_box" where
  "fresh_box hp t sz v = set_nxt hp \<lparr> header = header_new (vtable_new t sz), data = v \<rparr>"

lemma fresh_box_simps [simp]:
  "color (header (fresh_box hp t sz v)) = 0" "root_count (header (fresh_box hp t sz v)) = 1"
  "nxt (header (fresh_box hp t sz v)) = hp" "vtable (header (fresh_box hp t sz v)) = vtable_new t sz"
  "data (fresh_box hp t sz v) = v" "is_root (header (fresh_box hp t sz v))"
  by (simp_all add: fresh_box_def header_new_def atomic_color_new_def is_root_def)

text \<open>What the caller of \<open>allocate\<close> provides: a fresh address and a well-typed value that points to live objects.\<close>

definition allocatable :: "heap \<Rightarrow> addr \<Rightarrow> ty \<Rightarrow> usize \<Rightarrow> val \<Rightarrow> bool" where
  "allocatable h a t sz v \<longleftrightarrow>
     a \<notin> dom (mem h) \<and> has_type t v \<and> trace_contract t \<and> (\<forall>p\<in>set (gc_ptrs v). ptr_ok (mem h) p) \<and>
     unat (bytes_allocated h) + unat sz < 2 ^ 64"

definition with_fresh :: "heap \<Rightarrow> addr \<Rightarrow> ty \<Rightarrow> usize \<Rightarrow> val \<Rightarrow> heap" where
  "with_fresh h a t sz v =
     h\<lparr>mem := (mem h)(a \<mapsto> fresh_box (head h) t sz v), head := Some a,
       bytes_allocated := bytes_allocated h + sz\<rparr>"

lemma with_fresh_simps [simp]:
  "mem (with_fresh h a t sz v) = (mem h)(a \<mapsto> fresh_box (head h) t sz v)"
  "head (with_fresh h a t sz v) = Some a" "gray_queue (with_fresh h a t sz v) = gray_queue h"
  "bytes_allocated (with_fresh h a t sz v) = bytes_allocated h + sz"
  "phase (with_fresh h a t sz v) = phase h" "options (with_fresh h a t sz v) = options h"
  "n_busy_marking (with_fresh h a t sz v) = n_busy_marking h" "bg_thread (with_fresh h a t sz v) = bg_thread h"
  by (simp_all add: with_fresh_def)

lemma mem_ok_fresh:
  assumes "mem_ok (mem h)" and "allocatable h a t sz v"
  shows "mem_ok ((mem h)(a \<mapsto> fresh_box hp t sz v))"
proof -
  let ?b = "\<lparr> header = header_new (vtable_new t sz), data = v \<rparr>"
  have "mem_ok (box_new (mem h) a t sz v)"
    using assms by (intro mem_ok_box_new) (auto simp: allocatable_def)
  then have "mem_ok ((box_new (mem h) a t sz v)(a \<mapsto> fresh_box hp t sz v))"
    by (rule mem_ok_upd [where b = ?b]) (simp_all add: box_new_def fresh_box_def header_new_def atomic_color_new_def)
  then show ?thesis by (simp add: box_new_def)
qed

lemma heap_inv_fresh:
  assumes inv: "heap_inv xs h" and al: "allocatable h a t sz v"
  shows "heap_inv (a # xs) (with_fresh h a t sz v)"
proof -
  note hi = heap_invD [OF inv]
  have a: "a \<notin> set xs" using al hi(2) by (simp add: allocatable_def)
  have "chain ((mem h)(a \<mapsto> fresh_box (head h) t sz v)) (head h) xs" using hi(1) a by (rule chain_other)
  moreover have "unat (bytes_allocated h + sz) = unat (bytes_allocated h) + unat sz"
    using al by (intro unat_add_usize) (simp add: allocatable_def)
  moreover have "(\<Sum>c\<leftarrow>xs. unat (size_at ((mem h)(a \<mapsto> fresh_box (head h) t sz v)) c)) =
      (\<Sum>c\<leftarrow>xs. unat (size_at (mem h) c))"
    using a by (intro arg_cong [where f = sum_list] map_cong) auto
  ultimately show ?thesis
    using hi mem_ok_fresh [OF hi(3) al] by (simp add: heap_inv_def)
qed

text \<open>A white object that nothing marked points to does not disturb the tricolour invariant.\<close>

lemma nonwhite_fresh: "a \<notin> dom m \<Longrightarrow> nonwhite (m(a \<mapsto> fresh_box hp t sz v)) = nonwhite m"
  by (auto simp: nonwhite_def)

lemma tricolor_fresh:
  assumes "tricolor (mem h) P" and "allocatable h a t sz v"
  shows "tricolor ((mem h)(a \<mapsto> fresh_box hp t sz v)) P"
proof -
  have a: "a \<notin> dom (mem h)" using assms(2) by (simp add: allocatable_def)
  show ?thesis
    using assms(1) mem_ok_fresh [OF tricolorD(1) [OF assms(1)] assms(2), of hp] nonwhite_fresh [OF a, of hp t sz v]
    by (auto simp: tricolor_def)
qed

lemma allocatable_mark_run:
  assumes "allocatable h a t sz v" and "mark_run h tr h' tr' n"
  shows "allocatable h' a t sz v"
  using assms(1) mark_run_frame(2) [OF assms(2)] recolored_dom [OF mark_run_mem(1) [OF assms(2)]]
    same_objs_ptr_ok [OF recolored_same_objs [OF mark_run_mem(1) [OF assms(2)]]]
  by (simp add: allocatable_def)

lemma allocate_run:
  assumes inv: "heap_inv xs h" and tri: "tricolor (mem h) (set (gray_queue h))"
    and al: "allocatable h a t sz v"
  shows "returns (allocate h a t sz v)
    (\<lambda>r. fst r = a \<and> (\<exists>h1 n. mark_run h [] h1 [] n \<and> snd r = with_fresh h1 a t sz v))"
  unfolding allocate_def
proof (rule returns_bindI [OF assist_run [OF marking_inv_start [OF inv tri]]])
  fix h1 assume "\<exists>n. mark_run h [] h1 [] n"
  then show "returns (bind_prog (insert_head (h1\<lparr>mem := box_new (mem h1) a t sz v\<rparr>) a) (\<lambda>h2.
      bind_prog (deref (mem h2) a) (\<lambda>b.
      ret (a, h2\<lparr>bytes_allocated := bytes_allocated h2 + vt_size (vtable (header b))\<rparr>))))
    (\<lambda>r. fst r = a \<and> (\<exists>h1 n. mark_run h [] h1 [] n \<and> snd r = with_fresh h1 a t sz v))"
    by (auto simp: insert_head_def box_new_def with_fresh_def fresh_box_def header_new_def)
qed

text \<open>On a heap that is not marking there is nothing to assist.\<close>

lemma allocate_idle:
  assumes "\<not> is_marking h"
  shows "allocate h a t sz v = ret (a, with_fresh h a t sz v)"
  using assms by (simp add: allocate_def assist_def insert_head_def with_fresh_def fresh_box_def box_new_def vtable_new_def header_new_def
      check_is_marking_and_increment_busy_def is_marking_def)

section \<open>Properties\<close>

text \<open>
  C15: allocation. On a well-formed heap, marking or not, \<open>allocate\<close> ends without a failure: the new
  object is at the head of the list, holds the value, is white and rooted once; every other object
  keeps its data, root count and vtable; the byte count grows by the size; the tricolour invariant of
  a mark phase in progress holds again, whatever part of the marking the assist did.
\<close>

theorem allocate_correct:
  assumes "heap_inv xs h" and "tricolor (mem h) (set (gray_queue h))" and "allocatable h a t sz v"
  shows "\<exists>h'. allocate h a t sz v = ret (a, h') \<and> heap_inv (a # xs) h' \<and>
    mem h' a = Some (fresh_box (head h) t sz v) \<and>
    (\<forall>c b. mem h c = Some b \<longrightarrow> (\<exists>b'. mem h' c = Some b' \<and> same_obj b b')) \<and>
    unat (bytes_allocated h') = unat (bytes_allocated h) + unat sz \<and>
    tricolor (mem h') (set (gray_queue h')) \<and> phase h' = phase h \<and> n_busy_marking h' = n_busy_marking h"
proof -
  obtain r where r: "allocate h a t sz v = ret r" "fst r = a"
      "\<exists>h1 n. mark_run h [] h1 [] n \<and> snd r = with_fresh h1 a t sz v"
    using allocate_run [OF assms] by (rule returnsE) blast
  then obtain h1 n where h1: "mark_run h [] h1 [] n" "snd r = with_fresh h1 a t sz v" by blast
  note frame = mark_run_frame [OF h1(1)] and memf = mark_run_mem [OF h1(1)]
  have al: "allocatable h1 a t sz v" by (rule allocatable_mark_run [OF assms(3) h1(1)])
  have "heap_inv (a # xs) (snd r)"
    unfolding h1(2) by (rule heap_inv_fresh [OF mark_run_heap_inv [OF assms(1) h1(1)] al])
  moreover have "tricolor (mem (snd r)) (set (gray_queue (snd r)))"
    using tricolor_fresh [OF memf(4) al] by (simp add: h1(2))
  moreover have "unat (bytes_allocated (snd r)) = unat (bytes_allocated h) + unat sz"
    using assms(3) frame(2) by (simp add: h1(2) allocatable_def unat_add_usize)
  moreover have "\<exists>b'. mem (snd r) c = Some b' \<and> same_obj b b'" if c: "mem h c = Some b" for c b
  proof -
    have "c \<noteq> a" using c assms(3) by (auto simp: allocatable_def)
    moreover obtain k where "mem h1 c = Some (set_color k b)" using memf(1) c unfolding recolored_def by blast
    ultimately show ?thesis by (simp add: h1(2))
  qed
  ultimately show ?thesis using r(1,2) h1(2) frame by (cases r) simp
qed

theorem allocate_correct_witness:
  "\<exists>h'. allocate (demo_heap options_DEFAULT) 5 Node 48 (node_val 5 (Some 2)) = ret (5, h') \<and>
     heap_inv [5, 2, 3, 4] h' \<and> unat (bytes_allocated h') = 192"
proof -
  let ?h = "demo_heap options_DEFAULT"
  have "nonwhite demo_mem = {}" using quiescent_demo [of options_DEFAULT] by (simp add: quiescent_def)
  then have tri: "tricolor (mem ?h) (set (gray_queue ?h))"
    using tricolor_all_white heap_invD(3) [OF heap_inv_demo [of options_DEFAULT]] by simp
  have "allocatable ?h 5 Node 48 (node_val 5 (Some 2))"
    by (simp add: allocatable_def ptr_ok_def)
  then show ?thesis
    using allocate_correct [OF heap_inv_demo tri] by fastforce
qed

end
