(* ===== verification/Gc_Ptr.thy ===== *)
theory Gc_Ptr
  imports Tracer
begin

text \<open>
  Model of \<open>src/src/ptr.rs\<close>: the handles \<open>GcPtr\<close> and \<open>GcRoot\<close>. Both are the address of a box;
  a \<open>GcRoot\<close> stands for one unit of the root count of its object. A handle operation reads and
  writes the header behind the address, so on an address without a box it is a use after free.
\<close>

section \<open>Handles\<close>

type_synonym gc_ptr = addr
type_synonym gc_root = gc_ptr

definition gc_ptr_new :: "addr \<Rightarrow> gc_ptr" where
  "gc_ptr_new p = p"

definition gc_ptr_root :: "mem \<Rightarrow> gc_ptr \<Rightarrow> (gc_root \<times> mem) prog" where
  "gc_ptr_root m p = bind_prog (modify_header m p inc_root) (\<lambda>m'. ret (p, m'))"

text \<open>\<open>GcPtr::as_ptr\<close> yields the raw pointer to the data; here, the data a read through it gives.\<close>

definition gc_ptr_read :: "mem \<Rightarrow> gc_ptr \<Rightarrow> val prog" where
  "gc_ptr_read m p = bind_prog (deref m p) (\<lambda>b. ret (data b))"

definition gc_ptr_header :: "mem \<Rightarrow> gc_ptr \<Rightarrow> gc_header prog" where
  "gc_ptr_header m p = bind_prog (deref m p) (\<lambda>b. ret (header b))"

definition gc_ptr_clone :: "gc_ptr \<Rightarrow> gc_ptr" where
  "gc_ptr_clone p = p"

definition gc_root_from_nonnull :: "addr \<Rightarrow> gc_root" where
  "gc_root_from_nonnull p = gc_ptr_new p"

definition gc_root_as_ptr :: "gc_root \<Rightarrow> gc_ptr" where
  "gc_root_as_ptr r = r"

definition gc_root_deref :: "mem \<Rightarrow> gc_root \<Rightarrow> val prog" where
  "gc_root_deref m r = bind_prog (deref m r) (\<lambda>b. ret (data b))"

definition gc_root_clone :: "mem \<Rightarrow> gc_root \<Rightarrow> (gc_root \<times> mem) prog" where
  "gc_root_clone m r = bind_prog (modify_header m r inc_root) (\<lambda>m'. ret (r, m'))"

definition gc_root_drop :: "mem \<Rightarrow> gc_root \<Rightarrow> mem prog" where
  "gc_root_drop m r = modify_header m r dec_root"

section \<open>Changing a root count\<close>

definition set_roots :: "usize \<Rightarrow> gc_box \<Rightarrow> gc_box" where
  "set_roots k b = b\<lparr>header := (header b)\<lparr>root_count := k\<rparr>\<rparr>"

lemma set_roots_simps [simp]:
  "color (header (set_roots k b)) = color (header b)" "root_count (header (set_roots k b)) = k"
  "nxt (header (set_roots k b)) = nxt (header b)" "vtable (header (set_roots k b)) = vtable (header b)"
  "data (set_roots k b) = data b" "is_root (header (set_roots k b)) = (k > 0)"
  by (simp_all add: set_roots_def is_root_def)

lemma handle_ops_eq:
  assumes "m p = Some b"
  shows "gc_ptr_root m p = ret (p, m(p \<mapsto> set_roots (root_count (header b) + 1) b))"
    and "gc_root_clone m p = ret (p, m(p \<mapsto> set_roots (root_count (header b) + 1) b))"
    and "gc_root_drop m p = ret (m(p \<mapsto> set_roots (root_count (header b) - 1) b))"
    and "gc_root_deref m p = ret (data b)" and "gc_ptr_read m p = ret (data b)"
    and "gc_ptr_header m p = ret (header b)"
  using assms by (simp_all add: gc_ptr_root_def gc_root_clone_def gc_root_drop_def gc_root_deref_def
      gc_ptr_read_def gc_ptr_header_def inc_root_def dec_root_def set_roots_def)

lemmas ptr_exec [exec] = handle_ops_eq set_roots_def

text \<open>Only the root set changes.\<close>

lemma set_roots_views:
  assumes "m a = Some b"
  shows "dom (m(a \<mapsto> set_roots k b)) = dom m" and "nonwhite (m(a \<mapsto> set_roots k b)) = nonwhite m" and "succs (m(a \<mapsto> set_roots k b)) = succs m"
    and "size_at (m(a \<mapsto> set_roots k b)) = size_at m" and "leaf_at (m(a \<mapsto> set_roots k b)) = leaf_at m" and "gray_at (m(a \<mapsto> set_roots k b)) = gray_at m"
    and "black_at (m(a \<mapsto> set_roots k b)) = black_at m" and "white_at (m(a \<mapsto> set_roots k b)) = white_at m"
    and "root_at (m(a \<mapsto> set_roots k b)) c = (if c = a then k > 0 else root_at m c)"
  using assms by (auto simp: nonwhite_def fun_eq_iff view_defs)

lemma set_roots_ptr_ok: "m a = Some b \<Longrightarrow> ptr_ok (m(a \<mapsto> set_roots k b)) = ptr_ok m"
  using set_roots_views(1,5) [of m a b k] by (auto simp: ptr_ok_def fun_eq_iff)

lemma mem_ok_set_roots:
  assumes "mem_ok m" and "m a = Some b"
  shows "mem_ok (m(a \<mapsto> set_roots k b))"
  using assms mem_okD [OF assms(1)] unfolding mem_ok_def set_roots_ptr_ok [of m a b, OF assms(2)]
  by (auto simp: box_ok_def)

lemma tricolor_set_roots:
  assumes "tricolor m P" and "m a = Some b"
  shows "tricolor (m(a \<mapsto> set_roots k b)) P"
  using assms(1) mem_ok_set_roots [OF tricolorD(1) [OF assms(1)] assms(2)]
  unfolding tricolor_def set_roots_views [of m a b, OF assms(2)] by blast

section \<open>Properties\<close>

text \<open>
  Handles pin their object. Rooting or cloning a handle of a live object whose counter is not at
  its maximum makes the object a root, and keeps every other root; dropping one of two handles leaves
  it a root, dropping the only one ends that; cloning and then dropping restores the memory exactly.
  Reading through the handle never changes the memory. On a dead object each operation is a use
  after free.
\<close>

theorem handles_pin:
  "(case m p of
      None \<Rightarrow> gc_ptr_root m p = raise (UseAfterFree p) \<and> gc_root_clone m p = raise (UseAfterFree p) \<and>
              gc_root_drop m p = raise (UseAfterFree p) \<and> gc_root_deref m p = raise (UseAfterFree p)
    | Some b \<Rightarrow>
        gc_root_deref m p = ret (data b) \<and>
        (\<exists>m'. gc_ptr_root m p = ret (p, m') \<and> gc_root_clone m p = ret (p, m') \<and>
           gc_root_drop m' p = ret m \<and>
           (\<forall>c. root_at m' c \<longleftrightarrow> (if c = p then root_count (header b) \<noteq> usize_MAX else root_at m c))) \<and>
        (\<exists>m'. gc_root_drop m p = ret m' \<and>
           (\<forall>c. root_at m' c \<longleftrightarrow> (if c = p then root_count (header b) \<noteq> 1 else root_at m c))))"
proof (cases "m p")
  case None
  then show ?thesis
    by (simp add: gc_ptr_root_def gc_root_clone_def gc_root_drop_def gc_root_deref_def)
next
  case (Some b)
  let ?k = "root_count (header b)"
  have "gc_root_drop (m(p \<mapsto> set_roots (?k + 1) b)) p = ret m"
    using Some handle_ops_eq(3) [of "m(p \<mapsto> set_roots (?k + 1) b)" p "set_roots (?k + 1) b"]
    by (simp add: set_roots_def fun_upd_idem)
  moreover have "0 < ?k + 1 \<longleftrightarrow> ?k \<noteq> usize_MAX" "0 < ?k - 1 \<longleftrightarrow> ?k \<noteq> 1"
    by (simp_all add: word_gt_0) (metis add.right_inverse add_cancel_left_right eq_neg_iff_add_eq_0)
  ultimately show ?thesis using Some by (simp add: handle_ops_eq)
qed

end
