(* ===== verification/Gc_Cell.thy ===== *)
theory Gc_Cell
  imports Heap
begin

text \<open>
  Model of \<open>src/src/cell.rs\<close>: the \<open>GcCell\<close> and its write barrier. A cell lies somewhere inside
  the data of a box; a path of child indices says where. The barrier runs on the context that
  \<open>with_current_context\<close> finds; here that is an argument: \<open>None\<close> if the thread has no current
  context, otherwise the \<open>local_gray\<close> tracer of the context, whose heap is the one modelled. How
  the context is found, and what happens if it belongs to another heap, is in \<open>Gc_Context\<close>.
\<close>

section \<open>Cells inside values\<close>

text \<open>The children of a value; the entries of a map are numbered key, value, key, value.\<close>

fun child :: "val \<Rightarrow> nat \<Rightarrow> val option" where
  "child (VPrim n) i = None"
| "child (VDeref v) i = (if i = 0 then Some v else None)"
| "child (VSeq vs) i = (if i < length vs then Some (vs ! i) else None)"
| "child (VMap kvs) i =
     (if i div 2 < length kvs then
        Some (if even i then fst (kvs ! (i div 2)) else snd (kvs ! (i div 2)))
      else None)"
| "child (VOk v) i = (if i = 0 then Some v else None)"
| "child (VErr v) i = (if i = 0 then Some v else None)"
| "child VNone i = None"
| "child (VSome v) i = (if i = 0 then Some v else None)"
| "child (VPtr nt a) i = None"
| "child (VCell v) i = (if i = 0 then Some v else None)"
| "child (VStruct vs) i = (if i < length vs then Some (snd (vs ! i)) else None)"

fun map_child :: "val \<Rightarrow> nat \<Rightarrow> (val \<Rightarrow> val) \<Rightarrow> val" where
  "map_child (VPrim n) i f = VPrim n"
| "map_child (VDeref v) i f = VDeref (if i = 0 then f v else v)"
| "map_child (VSeq vs) i f = (if i < length vs then VSeq (vs[i := f (vs ! i)]) else VSeq vs)"
| "map_child (VMap kvs) i f =
     (if i div 2 < length kvs then
        VMap (kvs[i div 2 := (if even i then apfst f else apsnd f) (kvs ! (i div 2))])
      else VMap kvs)"
| "map_child (VOk v) i f = VOk (if i = 0 then f v else v)"
| "map_child (VErr v) i f = VErr (if i = 0 then f v else v)"
| "map_child VNone i f = VNone"
| "map_child (VSome v) i f = VSome (if i = 0 then f v else v)"
| "map_child (VPtr nt a) i f = VPtr nt a"
| "map_child (VCell v) i f = VCell (if i = 0 then f v else v)"
| "map_child (VStruct vs) i f =
     (if i < length vs then VStruct (vs[i := apsnd f (vs ! i)]) else VStruct vs)"

type_synonym path = "nat list"

definition cell_new :: "val \<Rightarrow> val" where
  "cell_new v = VCell v"

primrec get_cell :: "path \<Rightarrow> val \<Rightarrow> val option" where
  "get_cell [] v = (case v of VCell u \<Rightarrow> Some u | _ \<Rightarrow> None)"
| "get_cell (i # p) v = (case child v i of None \<Rightarrow> None | Some u \<Rightarrow> get_cell p u)"

primrec set_cell :: "path \<Rightarrow> val \<Rightarrow> val \<Rightarrow> val" where
  "set_cell [] w v = (case v of VCell u \<Rightarrow> VCell w | _ \<Rightarrow> v)"
| "set_cell (i # p) w v = map_child v i (set_cell p w)"

section \<open>The operations\<close>

text \<open>\<open>get\<close> copies the stored value out; \<open>None\<close> means that there is no cell at the path.\<close>

definition cell_get :: "mem \<Rightarrow> addr \<Rightarrow> path \<Rightarrow> val option prog" where
  "cell_get m a p = bind_prog (deref m a) (\<lambda>b. ret (get_cell p (data b)))"

definition write_barrier :: "heap \<Rightarrow> tracer \<Rightarrow> val \<Rightarrow> (heap \<times> tracer) prog" where
  "write_barrier h local_gray new_value =
     (let (marking, h1) = check_is_marking_and_increment_busy h
      in if marking then
           bind_prog (trace new_value (mem h1, local_gray)) (\<lambda>s.
             let (h2, local_gray') = merge_work (h1\<lparr>mem := fst s\<rparr>) (snd s)
             in ret (decrement_busy_marking h2, local_gray'))
         else ret (h1, local_gray))"

definition store_cell :: "heap \<Rightarrow> addr \<Rightarrow> path \<Rightarrow> val \<Rightarrow> heap prog" where
  "store_cell h a p new_value =
     bind_prog (deref (mem h) a) (\<lambda>b.
       ret (h\<lparr>mem := (mem h)(a \<mapsto> b\<lparr>data := set_cell p new_value (data b)\<rparr>)\<rparr>))"

definition cell_set :: "heap \<Rightarrow> tracer option \<Rightarrow> addr \<Rightarrow> path \<Rightarrow> val \<Rightarrow> (heap \<times> tracer option) prog" where
  "cell_set h ctx a p new_value =
     bind_prog
       (case ctx of
          None \<Rightarrow> ret (h, None)
        | Some local_gray \<Rightarrow>
            bind_prog (write_barrier h local_gray new_value) (\<lambda>(h1, lg). ret (h1, Some lg)))
       (\<lambda>(h1, ctx1). bind_prog (store_cell h1 a p new_value) (\<lambda>h2. ret (h2, ctx1)))"

lemmas cell_exec [exec] = cell_new_def cell_get_def write_barrier_def store_cell_def cell_set_def

section \<open>Paths\<close>

lemma map_child_ptrs:
  assumes "\<And>u. set (gc_ptrs (f u)) \<subseteq> set (gc_ptrs u) \<union> P"
  shows "set (gc_ptrs (map_child v i f)) \<subseteq> set (gc_ptrs v) \<union> P"
proof (cases v)
  case (VSeq vs)
  then show ?thesis
    using concat_map_update_subset [of i vs gc_ptrs "f (vs ! i)" P] assms by simp
next
  case (VMap kvs)
  let ?kv = "(if even i then apfst f else apsnd f) (kvs ! (i div 2))"
    and ?g = "\<lambda>kv. gc_ptrs (fst kv) @ gc_ptrs (snd kv)"
  have "set (?g ?kv) \<subseteq> set (?g (kvs ! (i div 2))) \<union> P"
    using assms [of "fst (kvs ! (i div 2))"] assms [of "snd (kvs ! (i div 2))"]
    by (cases "kvs ! (i div 2)") auto
  then show ?thesis
    using concat_map_update_subset [of "i div 2" kvs ?g ?kv P] VMap by simp
next
  case (VStruct vs)
  then show ?thesis
    using concat_map_update_subset [of i vs "\<lambda>bv. gc_ptrs (snd bv)" "apsnd f (vs ! i)" P] assms by simp
qed (use assms in auto)

text \<open>Storing into a cell adds at most the pointers of the new value.\<close>

lemma set_cell_ptrs: "set (gc_ptrs (set_cell p w v)) \<subseteq> set (gc_ptrs v) \<union> set (gc_ptrs w)"
proof (induction p arbitrary: v)
  case Nil
  show ?case by (cases v) auto
next
  case (Cons i p)
  then show ?case by (simp add: map_child_ptrs)
qed

lemma child_map_child: "child v i = Some u \<Longrightarrow> child (map_child v i f) i = Some (f u)"
  by (cases v) (auto split: if_splits)

lemma get_set_cell: "get_cell p v = Some u \<Longrightarrow> get_cell p (set_cell p w v) = Some w"
  by (induction p arbitrary: v) (auto split: val.splits option.splits simp: child_map_child)

section \<open>The barrier\<close>

lemma trace_shades:
  assumes "mem_ok m" and "has_type t v" and "trace_contract t" and "\<forall>q\<in>set (gc_ptrs v). ptr_ok m q"
  shows "returns (trace v (m, tr)) (shades (snd ` set (gc_ptrs v)) (m, tr))"
  using marks_shade [of "(m, tr)" "traced_ptrs v"] assms contract_traces_all [OF assms(2,3)]
  by (simp add: trace_eq_marks)

text \<open>What a barrier that finds the heap marking does: the pointees of the new value are shaded.\<close>

definition shaded :: "heap \<Rightarrow> addr set \<Rightarrow> heap \<Rightarrow> bool" where
  "shaded h A h' \<longleftrightarrow>
     recolored (mem h) (mem h') \<and> tricolor (mem h') (set (gray_queue h')) \<and>
     nonwhite (mem h') = nonwhite (mem h) \<union> A \<and>
     h' = h\<lparr>mem := mem h', gray_queue := gray_queue h'\<rparr>"

lemma shaded_frame:
  assumes "shaded h A h'"
  shows "head h' = head h" and "bytes_allocated h' = bytes_allocated h" and "options h' = options h"
    and "n_busy_marking h' = n_busy_marking h" and "phase h' = phase h" and "bg_thread h' = bg_thread h"
proof -
  have e: "h' = h\<lparr>mem := mem h', gray_queue := gray_queue h'\<rparr>"
    using assms unfolding shaded_def by blast
  show "head h' = head h" "bytes_allocated h' = bytes_allocated h" "options h' = options h"
    "n_busy_marking h' = n_busy_marking h" "phase h' = phase h" "bg_thread h' = bg_thread h"
    by (subst e, simp)+
qed

lemma shaded_mem:
  assumes "shaded h A h'"
  shows "recolored (mem h) (mem h')" and "tricolor (mem h') (set (gray_queue h'))"
    and "nonwhite (mem h') = nonwhite (mem h) \<union> A"
  using assms unfolding shaded_def by blast+

lemma write_barrier_idle: "\<not> is_marking h \<Longrightarrow> write_barrier h lg v = ret (h, lg)"
  by (simp add: write_barrier_def check_is_marking_and_increment_busy_def is_marking_def)

lemma write_barrier_marking:
  assumes tri: "tricolor (mem h) (set (gray_queue h))" and mk: "is_marking h"
    and v: "has_type t v" "trace_contract t" "\<forall>q\<in>set (gc_ptrs v). ptr_ok (mem h) q"
  shows "returns (write_barrier h [] v) (\<lambda>r. snd r = [] \<and> shaded h (snd ` set (gc_ptrs v)) (fst r))"
proof -
  obtain s where s: "trace v (mem h, []) = ret s" "shades (snd ` set (gc_ptrs v)) (mem h, []) s"
    using trace_shades [OF tricolorD(1) [OF tri] v, of "[]"] by (rule returnsE)
  let ?h' = "h\<lparr>mem := fst s, gray_queue := gray_queue h @ snd s\<rparr>"
  have "write_barrier h [] v = ret (?h', [])"
    using mk s(1) by (simp add: write_barrier_def check_is_marking_and_increment_busy_def is_marking_def
        merge_work_def append_to_def decrement_busy_marking_def)
  moreover have "tricolor (fst s) (set (gray_queue h) \<union> set (snd s))"
    by (rule tricolor_shades [OF _ s(2)]) (simp add: tri)
  ultimately show ?thesis using s(2) by (simp add: shaded_def shades_def)
qed

section \<open>Storing a value\<close>

text \<open>What the type checker and the caller of \<open>set\<close> provide: a live object with a cell at the path, and a
  value of the cell's type that points to live objects.\<close>

definition storable :: "mem \<Rightarrow> addr \<Rightarrow> path \<Rightarrow> ty \<Rightarrow> val \<Rightarrow> bool" where
  "storable m a p t v \<longleftrightarrow>
     (case m a of
        None \<Rightarrow> False
      | Some b \<Rightarrow> get_cell p (data b) \<noteq> None \<and> has_type (vt_ty (vtable (header b))) (set_cell p v (data b))) \<and>
     has_type t v \<and> trace_contract t \<and> (\<forall>q\<in>set (gc_ptrs v). ptr_ok m q)"

definition set_data :: "val \<Rightarrow> gc_box \<Rightarrow> gc_box" where
  "set_data d b = b\<lparr>data := d\<rparr>"

lemma set_data_simps [simp]:
  "header (set_data d b) = header b" "data (set_data d b) = d"
  by (simp_all add: set_data_def)

lemma set_data_views:
  assumes "m a = Some b"
  shows "dom (m(a \<mapsto> set_data d b)) = dom m" and "nonwhite (m(a \<mapsto> set_data d b)) = nonwhite m"
    and "size_at (m(a \<mapsto> set_data d b)) = size_at m" and "leaf_at (m(a \<mapsto> set_data d b)) = leaf_at m"
    and "gray_at (m(a \<mapsto> set_data d b)) = gray_at m" and "black_at (m(a \<mapsto> set_data d b)) = black_at m"
    and "white_at (m(a \<mapsto> set_data d b)) = white_at m" and "root_at (m(a \<mapsto> set_data d b)) = root_at m"
  using assms by (auto simp: nonwhite_def fun_eq_iff view_defs)

lemma set_data_ptr_ok: "m a = Some b \<Longrightarrow> ptr_ok (m(a \<mapsto> set_data d b)) = ptr_ok m"
  using set_data_views(1,4) [of m a b d] by (auto simp: ptr_ok_def fun_eq_iff)

lemma mem_ok_set_data:
  assumes ok: "mem_ok m" and a: "m a = Some b" and ty: "has_type (vt_ty (vtable (header b))) d"
    and d: "\<forall>q\<in>set (gc_ptrs d). ptr_ok m q"
  shows "mem_ok (m(a \<mapsto> set_data d b))"
  using mem_okD [OF ok] a ty d unfolding mem_ok_def set_data_ptr_ok [of m a b, OF a]
  by (auto simp: box_ok_def)

text \<open>The pointers stored afterwards are old ones of the object or pointers of the new value.\<close>

lemma storable_ptrs:
  assumes ok: "mem_ok m" and st: "storable m a p t v" and a: "m a = Some b"
  shows "\<forall>q\<in>set (gc_ptrs (set_cell p v (data b))). ptr_ok m q"
    and "succs (m(a \<mapsto> set_data (set_cell p v (data b)) b)) c \<subseteq> succs m c \<union> (if c = a then snd ` set (gc_ptrs v) else {})"
proof -
  have sub: "set (gc_ptrs (set_cell p v (data b))) \<subseteq> set (gc_ptrs (data b)) \<union> set (gc_ptrs v)"
    by (rule set_cell_ptrs)
  show "\<forall>q\<in>set (gc_ptrs (set_cell p v (data b))). ptr_ok m q"
    using sub mem_okD(2) [OF ok a] st by (auto simp: storable_def)
  show "succs (m(a \<mapsto> set_data (set_cell p v (data b)) b)) c \<subseteq> succs m c \<union> (if c = a then snd ` set (gc_ptrs v) else {})"
    using sub a by (auto simp: succs_def)
qed

lemma storable_recolored:
  assumes "storable m a p t v" and "recolored m n"
  shows "storable n a p t v"
proof -
  obtain b where b: "m a = Some b" using assms(1) by (auto simp: storable_def split: option.splits)
  then obtain k where "n a = Some (set_color k b)" using assms(2) unfolding recolored_def by blast
  then show ?thesis
    using assms(1) b same_objs_ptr_ok [OF recolored_same_objs [OF assms(2)]] by (simp add: storable_def)
qed

text \<open>The effect of a store on the heap.\<close>

definition stored :: "heap \<Rightarrow> addr \<Rightarrow> path \<Rightarrow> val \<Rightarrow> heap \<Rightarrow> bool" where
  "stored h a p v h' \<longleftrightarrow>
     (\<exists>b. mem h a = Some b \<and> h' = h\<lparr>mem := (mem h)(a \<mapsto> set_data (set_cell p v (data b)) b)\<rparr>)"

lemma store_cell_run:
  "storable (mem h) a p t v \<Longrightarrow> returns (store_cell h a p v) (stored h a p v)"
  by (auto simp: storable_def store_cell_def stored_def set_data_def split: option.splits)

lemma stored_heap_inv:
  assumes inv: "heap_inv xs h" and st: "storable (mem h) a p t v" and h': "stored h a p v h'"
  shows "heap_inv xs h'"
proof -
  obtain b where b: "mem h a = Some b" "h' = h\<lparr>mem := (mem h)(a \<mapsto> set_data (set_cell p v (data b)) b)\<rparr>"
    using h' by (auto simp: stored_def)
  note hi = heap_invD [OF inv]
  have "mem_ok (mem h')"
    using mem_ok_set_data [OF hi(3) b(1)] storable_ptrs(1) [OF hi(3) st b(1)] st b by (simp add: storable_def)
  moreover have "chain (mem h') (head h') xs"
  proof (rule chain_cong)
    show "chain (mem h) (head h') xs" using hi(1) b(2) by simp
  qed (auto simp: b)
  moreover have "dom (mem h') = dom (mem h)" "size_at (mem h') = size_at (mem h)"
      "bytes_allocated h' = bytes_allocated h"
    unfolding b(2) using set_data_views(1,3) [of "mem h" a b, OF b(1)] by simp_all
  ultimately show ?thesis using hi(2,4) unfolding heap_inv_def by metis
qed

lemma stored_tricolor:
  assumes tri: "tricolor (mem h) P" and st: "storable (mem h) a p t v" and h': "stored h a p v h'"
    and v: "snd ` set (gc_ptrs v) \<subseteq> nonwhite (mem h)"
  shows "tricolor (mem h') P"
proof -
  note ok = tricolorD(1) [OF tri]
  obtain b where b: "mem h a = Some b" "mem h' = (mem h)(a \<mapsto> set_data (set_cell p v (data b)) b)"
    using h' by (auto simp: stored_def)
  have "mem_ok (mem h')"
    using mem_ok_set_data [OF ok b(1)] storable_ptrs(1) [OF ok st b(1)] st b by (simp add: storable_def)
  moreover have "succs (mem h') c \<subseteq> nonwhite (mem h)" if "black_at (mem h) c" for c
  proof -
    have "succs (mem h) c \<subseteq> nonwhite (mem h)" using that tri unfolding tricolor_def by blast
    moreover have "succs (mem h') c \<subseteq> succs (mem h) c \<union> (if c = a then snd ` set (gc_ptrs v) else {})"
      unfolding b(2) by (rule storable_ptrs(2) [OF ok st b(1)])
    ultimately show ?thesis using v by (cases "c = a") auto
  qed
  ultimately show ?thesis
    using tri unfolding tricolor_def b(2) set_data_views [of "mem h" a b, OF b(1)] by blast
qed

section \<open>Setting a cell\<close>

lemma cell_set_idle_run:
  assumes "ctx = None \<or> \<not> is_marking h" and "storable (mem h) a p t v"
  shows "returns (cell_set h ctx a p v) (\<lambda>r. snd r = ctx \<and> stored h a p v (fst r))"
  using assms store_cell_run [OF assms(2)]
  by (auto simp: cell_set_def write_barrier_idle returns_iff split: option.splits)

lemma cell_set_marking_run:
  assumes "tricolor (mem h) (set (gray_queue h))" and "is_marking h" and st: "storable (mem h) a p t v"
  shows "returns (cell_set h (Some []) a p v)
    (\<lambda>r. snd r = Some [] \<and> (\<exists>h1. shaded h (snd ` set (gc_ptrs v)) h1 \<and> stored h1 a p v (fst r)))"
proof -
  obtain h1 where h1: "write_barrier h [] v = ret (h1, [])" "shaded h (snd ` set (gc_ptrs v)) h1"
    using write_barrier_marking [OF assms(1,2), of t v] st by (auto simp: storable_def returns_iff)
  obtain h2 where h2: "store_cell h1 a p v = ret h2" "stored h1 a p v h2"
    using store_cell_run [OF storable_recolored [OF st shaded_mem(1) [OF h1(2)]]] by (auto simp: returns_iff)
  show ?thesis using h1 h2 by (auto simp: cell_set_def)
qed

lemma stored_frame:
  assumes "stored h a p v h'"
  shows "phase h' = phase h" and "n_busy_marking h' = n_busy_marking h" and "gray_queue h' = gray_queue h"
    and "options h' = options h" and "nonwhite (mem h') = nonwhite (mem h)" and "root_at (mem h') = root_at (mem h)"
    and "white_at (mem h') = white_at (mem h)" and "bg_thread h' = bg_thread h"
  using assms set_data_views by (auto simp: stored_def)

lemma shaded_heap_inv: "heap_inv xs h \<Longrightarrow> shaded h A h' \<Longrightarrow> heap_inv xs h'"
  using heap_inv_recolored [of xs h "mem h'" h'] shaded_frame shaded_mem tricolorD(1) by metis

lemma stored_get:
  assumes "storable (mem h) a p t v" and "stored h a p v h'"
  shows "cell_get (mem h') a p = ret (Some v)"
  using assms get_set_cell by (fastforce simp: storable_def stored_def cell_get_def split: option.splits)

section \<open>An example with a cell\<close>

text \<open>A heap in its mark phase: the cell object at 2 is rooted, already scanned and empty; the node at 3 is white.\<close>

definition CellObj :: ty where
  "CellObj = TGcCell (TOption (TGcPtr False))"

definition cell_heap :: heap where
  "cell_heap = (heap_init options_DEFAULT)\<lparr>
     mem := [2 \<mapsto> \<lparr> header = \<lparr> color = color_as_u8 Black, root_count = 1, nxt = Some 3, vtable = vtable_new CellObj 48 \<rparr>,
                     data = cell_new VNone \<rparr>,
             3 \<mapsto> node_box 0 None 3 None],
     head := Some 2, bytes_allocated := 96, phase := phase_as_u8 Marking\<rparr>"

lemma cell_heap_mem_cases:
  "mem cell_heap a = Some b \<longleftrightarrow>
     (a = 2 \<and> b = \<lparr> header = \<lparr> color = color_as_u8 Black, root_count = 1, nxt = Some 3, vtable = vtable_new CellObj 48 \<rparr>,
                     data = VCell VNone \<rparr>) \<or> (a = 3 \<and> b = node_box 0 None 3 None)"
  by (auto simp: cell_heap_def cell_new_def)

lemma cell_heap_dom: "dom (mem cell_heap) = {2, 3}"
  by (auto simp: cell_heap_def)

lemma cell_heap_ok: "mem_ok (mem cell_heap)"
  unfolding mem_ok_def by (auto simp: cell_heap_mem_cases box_ok_def CellObj_def color_valid_def)

lemma cell_heap_inv: "heap_inv [2, 3] cell_heap"
  using cell_heap_ok cell_heap_dom
  by (auto simp: heap_inv_def size_at_def) (auto simp: cell_heap_def size_at_def)

lemma cell_heap_succs: "succs (mem cell_heap) a = {}"
  by (auto simp: succs_def cell_heap_mem_cases split: option.splits)

lemma cell_heap_tricolor: "tricolor (mem cell_heap) (set (gray_queue cell_heap))"
proof -
  have "\<not> gray_at (mem cell_heap) a" for a
    by (auto simp: gray_at_def cell_heap_mem_cases split: option.splits)
  moreover have "gray_queue cell_heap = []" by (simp add: cell_heap_def heap_init_def)
  ultimately show ?thesis using cell_heap_ok cell_heap_succs by (simp add: tricolor_def)
qed

lemma cell_heap_storable:
  "storable (mem cell_heap) 2 [] (TOption (TGcPtr False)) (VSome (VPtr False 3))"
proof -
  have "mem cell_heap 2 = Some \<lparr> header = \<lparr> color = color_as_u8 Black, root_count = 1, nxt = Some 3,
      vtable = vtable_new CellObj 48 \<rparr>, data = VCell VNone \<rparr>" by (simp add: cell_heap_mem_cases)
  then show ?thesis by (simp add: storable_def CellObj_def ptr_ok_def cell_heap_dom)
qed

section \<open>Properties\<close>

text \<open>
  C14: the write barrier. While the heap is marking, \<open>GcCell::set\<close> through a current context ends
  without a failure; the cell then holds the new value, everything the new value points to is no
  longer white, and the heap invariant and the tricolour invariant (no black object points to a white
  one, every gray object is queued) hold, whatever the colour of the object the cell lies in. The
  busy counter is back at its old value and the context's tracer is empty.
\<close>

theorem cell_set_barrier:
  assumes "heap_inv xs h" and "tricolor (mem h) (set (gray_queue h))" and "is_marking h"
    and "storable (mem h) a p t v"
  shows "\<exists>h'. cell_set h (Some []) a p v = ret (h', Some []) \<and> cell_get (mem h') a p = ret (Some v) \<and>
    heap_inv xs h' \<and> tricolor (mem h') (set (gray_queue h')) \<and>
    (\<forall>q\<in>set (gc_ptrs v). \<not> white_at (mem h') (snd q)) \<and>
    n_busy_marking h' = n_busy_marking h \<and> is_marking h'"
proof -
  obtain h1 h' where h1: "shaded h (snd ` set (gc_ptrs v)) h1" "stored h1 a p v h'"
      and eq: "cell_set h (Some []) a p v = ret (h', Some [])"
    using cell_set_marking_run [OF assms(2-4)] by (auto simp: returns_iff)
  have st: "storable (mem h1) a p t v" by (rule storable_recolored [OF assms(4) shaded_mem(1) [OF h1(1)]])
  have nw: "snd ` set (gc_ptrs v) \<subseteq> nonwhite (mem h1)" using shaded_mem(3) [OF h1(1)] by simp
  have "tricolor (mem h') (set (gray_queue h'))"
    using stored_tricolor [OF shaded_mem(2) [OF h1(1)] st h1(2) nw] stored_frame(3) [OF h1(2)] by simp
  moreover have "heap_inv xs h'"
    by (rule stored_heap_inv [OF shaded_heap_inv [OF assms(1) h1(1)] st h1(2)])
  moreover have "\<forall>q\<in>set (gc_ptrs v). \<not> white_at (mem h') (snd q)"
    using nw stored_frame(7) [OF h1(2)] by (auto simp: nonwhite_def)
  ultimately show ?thesis
    using eq stored_get [OF st h1(2)] stored_frame [OF h1(2)] shaded_frame [OF h1(1)] assms(3)
    by (simp add: is_marking_def)
qed

theorem cell_set_barrier_witness:
  "\<exists>h'. cell_set cell_heap (Some []) 2 [] (VSome (VPtr False 3)) = ret (h', Some []) \<and>
     heap_inv [2, 3] h' \<and> \<not> white_at (mem h') 3"
proof -
  have "is_marking cell_heap" by (simp add: is_marking_def cell_heap_def phase_from_def)
  from cell_set_barrier [OF cell_heap_inv cell_heap_tricolor this cell_heap_storable]
  show ?thesis by fastforce
qed

end
