(* ===== verification/Mutator.thy ===== *)
theory Mutator
  imports Collection Allocation Gc_Ptr Gc_Cell
begin

text \<open>
  The operations of mutators and collector as one transition system, at the granularity of calls:
  a step is one complete call of an operation of the library on a heap (an allocation, a root or cell
  operation, the start of a mark phase with its root scan, an increment of marking, the sweep, or a
  whole collection), and calls of several threads interleave in any order.

  The machine is safe under a discipline, the predicate \<open>allowed\<close>. Its conditions on a mutator are
  those the type checker and the documented contracts give, and one more, which the code does not
  enforce: while the heap is marking, an object that becomes a root without being marked (a fresh
  allocation, or a white object rooted through \<open>GcPtr::root\<close>) points to marked objects only. The
  last section shows by a concrete run that this condition is needed.
\<close>

section \<open>Operations\<close>

datatype operation =
    Allocate addr ty usize val
  | RootPtr gc_ptr
  | CloneRoot gc_root
  | DropRoot gc_root
  | SetCell addr path ty val
  | StartMarking
  | MarkIncrement usize
  | SweepAndFinish
  | ForceCollect
  | CollectIfNeeded

definition start_marking :: "heap \<Rightarrow> heap prog" where
  "start_marking h =
     (let (started, h1) = try_start_marking h
      in if started then bind_prog (do_mark_roots h1 tracer_new) (\<lambda>(h2, _). ret h2) else ret h1)"

fun run_op :: "profile \<Rightarrow> operation \<Rightarrow> heap \<Rightarrow> heap prog" where
  "run_op p (Allocate a t sz v) h = bind_prog (allocate h a t sz v) (\<lambda>(_, h'). ret h')"
| "run_op p (RootPtr a) h = bind_prog (gc_ptr_root (mem h) a) (\<lambda>(_, m). ret (h\<lparr>mem := m\<rparr>))"
| "run_op p (CloneRoot a) h = bind_prog (gc_root_clone (mem h) a) (\<lambda>(_, m). ret (h\<lparr>mem := m\<rparr>))"
| "run_op p (DropRoot a) h = bind_prog (gc_root_drop (mem h) a) (\<lambda>m. ret (h\<lparr>mem := m\<rparr>))"
| "run_op p (SetCell a pth t v) h = bind_prog (cell_set h (Some []) a pth v) (\<lambda>(h', _). ret h')"
| "run_op p StartMarking h = start_marking h"
| "run_op p (MarkIncrement budget) h = bind_prog (do_mark_incremental h budget) (\<lambda>(_, h'). ret h')"
| "run_op p SweepAndFinish h = bind_prog (sweep_and_finish p h) (\<lambda>(_, h'). ret h')"
| "run_op p ForceCollect h = bind_prog (force_collect p h) (\<lambda>(_, h'). ret h')"
| "run_op p CollectIfNeeded h = collect p h"

section \<open>Discipline\<close>

text \<open>
  What the type checker, the documented safety contracts and ownership of handles give. The
  collector's own steps are in the order of the code: marking increments and the sweep belong to the
  thread that started the mark phase, and the sweep comes when no gray object is left.
\<close>

fun documented :: "profile \<Rightarrow> operation \<Rightarrow> heap \<Rightarrow> bool" where
  "documented p (Allocate a t sz v) h = allocatable h a t sz v"
| "documented p (RootPtr a) h = (a \<in> dom (mem h) \<and> root_count (header (the (mem h a))) \<noteq> usize_MAX)"
| "documented p (CloneRoot a) h = (root_at (mem h) a \<and> root_count (header (the (mem h a))) \<noteq> usize_MAX)"
| "documented p (DropRoot a) h = root_at (mem h) a"
| "documented p (SetCell a pth t v) h = storable (mem h) a pth t v"
| "documented p StartMarking h = True"
| "documented p (MarkIncrement budget) h = is_marking h"
| "documented p SweepAndFinish h = (is_marking h \<and> gray_queue h = [] \<and> pacing_safe p h)"
| "documented p ForceCollect h = pacing_safe p h"
| "documented p CollectIfNeeded h = pacing_safe p h"

text \<open>The condition that no code checks: during marking, a new unmarked root points to marked objects only.\<close>

definition covered :: "heap \<Rightarrow> addr set \<Rightarrow> bool" where
  "covered h A \<longleftrightarrow> (is_marking h \<longrightarrow> A \<subseteq> nonwhite (mem h))"

fun hides_nothing :: "operation \<Rightarrow> heap \<Rightarrow> bool" where
  "hides_nothing (Allocate a t sz v) h = covered h (snd ` set (gc_ptrs v))"
| "hides_nothing (RootPtr a) h = (white_at (mem h) a \<longrightarrow> covered h (succs (mem h) a))"
| "hides_nothing x h = True"

definition allowed :: "profile \<Rightarrow> operation \<Rightarrow> heap \<Rightarrow> bool" where
  "allowed p x h \<longleftrightarrow> documented p x h \<and> hides_nothing x h"

declare allowed_def [simp]

section \<open>Invariant\<close>

definition roots_covered :: "mem \<Rightarrow> bool" where
  "roots_covered m \<longleftrightarrow> (\<forall>a. root_at m a \<and> white_at m a \<longrightarrow> succs m a \<subseteq> nonwhite m)"

definition marking_state :: "heap \<Rightarrow> bool" where
  "marking_state h \<longleftrightarrow>
     phase h = phase_as_u8 Marking \<and> tricolor (mem h) (set (gray_queue h)) \<and> roots_covered (mem h)"

definition gc_inv :: "heap \<Rightarrow> bool" where
  "gc_inv h \<longleftrightarrow>
     (\<exists>xs. heap_inv xs h) \<and> n_busy_marking h = 0 \<and> incremental_work_budget (options h) \<noteq> 0 \<and>
     (quiescent h \<or> marking_state h)"

text \<open>What every operation promises: the invariant holds again and nothing reachable was freed.\<close>

definition safe_from :: "heap \<Rightarrow> heap \<Rightarrow> bool" where
  "safe_from h h' \<longleftrightarrow> gc_inv h' \<and> reach (mem h) \<subseteq> dom (mem h')"

lemma gc_inv_heap: "gc_inv h \<Longrightarrow> \<exists>xs. heap_inv xs h"
  by (simp add: gc_inv_def)

lemma gc_inv_tricolor: "gc_inv h \<Longrightarrow> tricolor (mem h) (set (gray_queue h))"
  using quiescent_tricolor by (auto simp: gc_inv_def marking_state_def)

lemma gc_inv_init: "incremental_work_budget o' \<noteq> 0 \<Longrightarrow> gc_inv (heap_init o')"
  using heap_inv_init [of o'] quiescent_init [of o'] by (auto simp: gc_inv_def heap_init_def)

lemma is_marking_phase: "phase h = phase_as_u8 Marking \<Longrightarrow> is_marking h"
  by (simp add: is_marking_def)

lemma is_marking_quiescent: "quiescent h \<Longrightarrow> \<not> is_marking h"
  by (simp add: is_marking_def quiescent_def phase_from_def)

lemma gc_inv_marking: "gc_inv h \<Longrightarrow> is_marking h \<Longrightarrow> marking_state h"
  using is_marking_quiescent by (auto simp: gc_inv_def)

lemma safe_from_dom:
  assumes "gc_inv h" and "gc_inv h'" and "dom (mem h) \<subseteq> dom (mem h')"
  shows "safe_from h h'"
proof -
  have "mem_ok (mem h)" using gc_inv_heap [OF assms(1)] heap_invD(3) by blast
  then have "reach (mem h) \<subseteq> dom (mem h)" using reach_dom by blast
  then show ?thesis using assms(2,3) unfolding safe_from_def by blast
qed

section \<open>Marking steps\<close>

lemma roots_covered_recolored:
  assumes "roots_covered m" and rc: "recolored m n" and nw: "nonwhite m \<subseteq> nonwhite n"
  shows "roots_covered n"
proof -
  have views: "root_at n = root_at m" "succs n = succs m"
    using same_objs_views [OF recolored_same_objs [OF rc]] by auto
  have "white_at m a" if "white_at n a" for a
    using that nw view_dom(1) [OF that] recolored_dom [OF rc] by (auto simp: nonwhite_def)
  then show ?thesis using assms(1) nw unfolding roots_covered_def views by blast
qed

lemma mark_run_quiescent:
  assumes "quiescent h" and run: "mark_run h [] h' [] n"
  shows "quiescent h'"
proof -
  have "nonwhite (mem h') \<subseteq> {}" using assms unfolding mark_run_def quiescent_def by blast
  moreover have "set (gray_queue h') \<subseteq> nonwhite (mem h')" using mark_run_mem(4) [OF run] by (simp add: tricolor_def)
  ultimately show ?thesis using assms(1) mark_run_frame(7) [OF run] by (simp add: quiescent_def)
qed

lemma mark_run_gc_inv:
  assumes inv: "gc_inv h" and run: "mark_run h [] h' [] n"
  shows "gc_inv h'"
proof -
  note frame = mark_run_frame [OF run] and memf = mark_run_mem [OF run]
  have "quiescent h' \<or> marking_state h'"
  proof (cases "quiescent h")
    case True
    then show ?thesis using mark_run_quiescent [OF _ run] by simp
  next
    case False
    then have "marking_state h" using inv by (simp add: gc_inv_def)
    then show ?thesis
      using roots_covered_recolored [OF _ memf(1,3)] memf(4) frame by (simp add: marking_state_def)
  qed
  then show ?thesis using inv mark_run_heap_inv [OF _ run] frame by (auto simp: gc_inv_def)
qed

lemma mark_increment_safe:
  assumes "gc_inv h"
  shows "returns (run_op p (MarkIncrement budget) h) (safe_from h)"
proof -
  obtain xs where "heap_inv xs h" using gc_inv_heap [OF assms] by blast
  then have "marking_inv h []" using marking_inv_start gc_inv_tricolor [OF assms] by blast
  then obtain r n where r: "do_mark_incremental h budget = ret r" "mark_run h [] (snd r) [] n"
    using do_mark_incremental_run [of h budget] by (auto simp: returns_iff)
  then have "safe_from h (snd r)"
    using mark_run_gc_inv [OF assms r(2)] recolored_dom [OF mark_run_mem(1) [OF r(2)]]
    by (intro safe_from_dom [OF assms]) auto
  then show ?thesis using r(1) by (cases r) simp
qed

section \<open>Allocation\<close>

lemma roots_covered_fresh:
  assumes "roots_covered m" and "a \<notin> dom m" and "snd ` set (gc_ptrs v) \<subseteq> nonwhite m"
  shows "roots_covered (m(a \<mapsto> fresh_box hp t sz v))"
  using assms nonwhite_fresh [OF assms(2), of hp t sz v] by (auto simp: roots_covered_def)

lemma fresh_gc_inv:
  assumes inv: "gc_inv h" and al: "allocatable h a t sz v" and cov: "covered h (snd ` set (gc_ptrs v))"
  shows "gc_inv (with_fresh h a t sz v)"
proof -
  have a: "a \<notin> dom (mem h)" using al by (simp add: allocatable_def)
  have "quiescent (with_fresh h a t sz v) \<or> marking_state (with_fresh h a t sz v)"
  proof (cases "quiescent h")
    case True
    then show ?thesis using nonwhite_fresh [OF a] by (simp add: quiescent_def)
  next
    case False
    then have ms: "marking_state h" using inv by (simp add: gc_inv_def)
    then have "snd ` set (gc_ptrs v) \<subseteq> nonwhite (mem h)"
      using cov is_marking_phase by (simp add: covered_def marking_state_def)
    then show ?thesis
      using ms tricolor_fresh [OF _ al] roots_covered_fresh [OF _ a] by (simp add: marking_state_def)
  qed
  then show ?thesis
    using inv heap_inv_fresh [OF _ al] by (auto simp: gc_inv_def)
qed

lemma covered_mark_run:
  assumes "covered h A" and "mark_run h tr h' tr' n"
  shows "covered h' A"
  using assms(1) mark_run_frame(7) [OF assms(2)] mark_run_mem(3) [OF assms(2)]
  by (auto simp: covered_def is_marking_def)

lemma allocate_safe:
  assumes inv: "gc_inv h" and ok: "allowed p (Allocate a t sz v) h"
  shows "returns (run_op p (Allocate a t sz v) h) (safe_from h)"
proof -
  obtain xs where xs: "heap_inv xs h" using gc_inv_heap [OF inv] by blast
  have al: "allocatable h a t sz v" and cov: "covered h (snd ` set (gc_ptrs v))" using ok by simp_all
  obtain r h1 n where r: "allocate h a t sz v = ret r" "mark_run h [] h1 [] n" "snd r = with_fresh h1 a t sz v"
    using allocate_run [OF xs gc_inv_tricolor [OF inv] al] by (auto simp: returns_iff)
  have "gc_inv (snd r)"
    unfolding r(3) using mark_run_gc_inv [OF inv r(2)] allocatable_mark_run [OF al r(2)] covered_mark_run [OF cov r(2)]
    by (rule fresh_gc_inv)
  moreover have "dom (mem h) \<subseteq> dom (mem (snd r))"
    using recolored_dom [OF mark_run_mem(1) [OF r(2)]] r(3) by auto
  ultimately have "safe_from h (snd r)" by (rule safe_from_dom [OF inv])
  then show ?thesis using r(1) by (cases r) simp
qed

section \<open>Root handles\<close>

lemma heap_inv_set_roots:
  assumes inv: "heap_inv xs h" and b: "mem h a = Some b"
  shows "heap_inv xs (h\<lparr>mem := (mem h)(a \<mapsto> set_roots k b)\<rparr>)"
proof -
  let ?m = "(mem h)(a \<mapsto> set_roots k b)"
  note hi = heap_invD [OF inv]
  have "chain ?m (head h) xs" by (rule chain_cong [OF hi(1)]) (auto simp: b)
  moreover have "dom ?m = dom (mem h)" "size_at ?m = size_at (mem h)"
    by (rule set_roots_views(1,4) [of "mem h" a b, OF b])+
  ultimately show ?thesis using hi(2,4) mem_ok_set_roots [OF hi(3) b] unfolding heap_inv_def by simp
qed

lemma set_roots_safe:
  assumes inv: "gc_inv h" and b: "mem h a = Some b"
    and cov: "k > 0 \<Longrightarrow> \<not> root_at (mem h) a \<Longrightarrow> white_at (mem h) a \<Longrightarrow> covered h (succs (mem h) a)"
  shows "safe_from h (h\<lparr>mem := (mem h)(a \<mapsto> set_roots k b)\<rparr>)"
proof -
  let ?m = "(mem h)(a \<mapsto> set_roots k b)"
  let ?h' = "h\<lparr>mem := ?m\<rparr>"
  note views = set_roots_views [of "mem h" a b k, OF b]
  have "quiescent ?h' \<or> marking_state ?h'"
  proof (cases "quiescent h")
    case True
    then show ?thesis using views(2) by (simp add: quiescent_def)
  next
    case False
    then have ms: "marking_state h" using inv by (simp add: gc_inv_def)
    then have "roots_covered ?m"
      using cov is_marking_phase unfolding roots_covered_def views marking_state_def covered_def by metis
    then show ?thesis
      using ms tricolor_set_roots [of "mem h" _ a b, OF _ b] by (simp add: marking_state_def)
  qed
  then have "gc_inv ?h'"
    using inv heap_inv_set_roots [OF _ b, of _ k] by (auto simp: gc_inv_def)
  then show ?thesis using views(1) by (intro safe_from_dom [OF inv]) simp_all
qed

lemma root_ops_safe:
  assumes inv: "gc_inv h"
  shows "allowed p (RootPtr a) h \<Longrightarrow> returns (run_op p (RootPtr a) h) (safe_from h)"
    and "allowed p (CloneRoot a) h \<Longrightarrow> returns (run_op p (CloneRoot a) h) (safe_from h)"
    and "allowed p (DropRoot a) h \<Longrightarrow> returns (run_op p (DropRoot a) h) (safe_from h)"
proof -
  show "returns (run_op p (RootPtr a) h) (safe_from h)" if ok: "allowed p (RootPtr a) h"
  proof -
    obtain b where b: "mem h a = Some b" using ok by auto
    then show ?thesis using ok set_roots_safe [OF inv b] by (simp add: handle_ops_eq)
  qed
  show "returns (run_op p (CloneRoot a) h) (safe_from h)" if ok: "allowed p (CloneRoot a) h"
  proof -
    obtain b where b: "mem h a = Some b" using ok view_dom(4) by fastforce
    then show ?thesis using ok set_roots_safe [OF inv b] by (simp add: handle_ops_eq)
  qed
  show "returns (run_op p (DropRoot a) h) (safe_from h)" if ok: "allowed p (DropRoot a) h"
  proof -
    obtain b where b: "mem h a = Some b" using ok view_dom(4) by fastforce
    then show ?thesis using ok set_roots_safe [OF inv b] by (simp add: handle_ops_eq)
  qed
qed

section \<open>Cells\<close>

text \<open>A store of marked objects keeps white roots covered.\<close>

lemma stored_roots_covered:
  assumes rc: "roots_covered (mem h)" and ok: "mem_ok (mem h)" and st: "storable (mem h) a p t v"
    and h': "stored h a p v h'" and v: "snd ` set (gc_ptrs v) \<subseteq> nonwhite (mem h)"
  shows "roots_covered (mem h')"
proof -
  obtain b where b: "mem h a = Some b" "mem h' = (mem h)(a \<mapsto> set_data (set_cell p v (data b)) b)"
    using h' by (auto simp: stored_def)
  have "succs (mem h') c \<subseteq> nonwhite (mem h)" if "succs (mem h) c \<subseteq> nonwhite (mem h)" for c
  proof -
    have "succs (mem h') c \<subseteq> succs (mem h) c \<union> (if c = a then snd ` set (gc_ptrs v) else {})"
      unfolding b(2) by (rule storable_ptrs(2) [OF ok st b(1)])
    then show ?thesis using that v by (cases "c = a") auto
  qed
  then show ?thesis using rc stored_frame(5-7) [OF h'] by (simp add: roots_covered_def)
qed

lemma stored_dom: "stored h a p v h' \<Longrightarrow> dom (mem h') = dom (mem h)"
  unfolding stored_def by (elim exE conjE) (simp add: insert_absorb domI)

lemma stored_quiescent_inv:
  assumes inv: "gc_inv h" and qu: "quiescent h" and st: "storable (mem h) a p t v" and h': "stored h a p v h'"
  shows "gc_inv h'"
proof -
  obtain xs where xs: "heap_inv xs h" using gc_inv_heap [OF inv] by blast
  have "quiescent h'" using qu stored_frame [OF h'] by (simp add: quiescent_def)
  then show ?thesis
    using inv stored_heap_inv [OF xs st h'] stored_frame [OF h'] by (auto simp: gc_inv_def)
qed

lemma stored_marking_inv:
  assumes inv: "gc_inv h" and ms: "marking_state h" and sh: "shaded h (snd ` set (gc_ptrs v)) h1"
    and st: "storable (mem h) a p t v" and h': "stored h1 a p v h'"
  shows "gc_inv h'"
proof -
  obtain xs where xs: "heap_inv xs h" using gc_inv_heap [OF inv] by blast
  note frame = shaded_frame [OF sh] and memf = shaded_mem [OF sh] and frame' = stored_frame [OF h']
  have st1: "storable (mem h1) a p t v" by (rule storable_recolored [OF st memf(1)])
  have v: "snd ` set (gc_ptrs v) \<subseteq> nonwhite (mem h1)" using memf(3) by simp
  have "roots_covered (mem h1)"
    using roots_covered_recolored [OF _ memf(1)] memf(3) ms by (simp add: marking_state_def)
  then have "roots_covered (mem h')"
    using stored_roots_covered [OF _ tricolorD(1) [OF memf(2)] st1 h' v] by simp
  moreover have "tricolor (mem h') (set (gray_queue h'))"
    using stored_tricolor [OF memf(2) st1 h' v] frame' by simp
  ultimately have "marking_state h'" using ms frame frame' by (simp add: marking_state_def)
  then show ?thesis
    using inv stored_heap_inv [OF shaded_heap_inv [OF xs sh] st1 h'] frame frame' by (auto simp: gc_inv_def)
qed

lemma set_cell_safe:
  assumes inv: "gc_inv h" and ok: "allowed p (SetCell a pth t v) h"
  shows "returns (run_op p (SetCell a pth t v) h) (safe_from h)"
proof -
  have st: "storable (mem h) a pth t v" using ok by simp
  have "returns (cell_set h (Some []) a pth v) (\<lambda>r. safe_from h (fst r))"
  proof (cases "quiescent h")
    case True
    have "returns (cell_set h (Some []) a pth v) (\<lambda>r. snd r = Some [] \<and> stored h a pth v (fst r))"
      using cell_set_idle_run [OF _ st] is_marking_quiescent [OF True] by simp
    then show ?thesis
      by (rule returns_mono)
        (metis stored_quiescent_inv [OF inv True st] stored_dom safe_from_dom [OF inv] order_refl)
  next
    case False
    then have ms: "marking_state h" using inv by (simp add: gc_inv_def)
    then have "is_marking h" using is_marking_phase by (simp add: marking_state_def)
    from cell_set_marking_run [OF gc_inv_tricolor [OF inv] this st] show ?thesis
    proof (rule returns_mono)
      fix r :: "heap \<times> tracer option"
      assume "snd r = Some [] \<and> (\<exists>h1. shaded h (snd ` set (gc_ptrs v)) h1 \<and> stored h1 a pth v (fst r))"
      then obtain h1 where h1: "shaded h (snd ` set (gc_ptrs v)) h1" "stored h1 a pth v (fst r)" by blast
      then show "safe_from h (fst r)"
        using stored_marking_inv [OF inv ms h1(1) st h1(2)] stored_dom [OF h1(2)]
          recolored_dom [OF shaded_mem(1) [OF h1(1)]] by (intro safe_from_dom [OF inv]) auto
    qed
  qed
  then show ?thesis by (auto elim!: returns_bindI)
qed

section \<open>The collector's steps\<close>

lemma start_marking_safe:
  assumes inv: "gc_inv h"
  shows "returns (run_op p StartMarking h) (safe_from h)"
proof (cases "phase h = phase_as_u8 Idle")
  case False
  then show ?thesis
    using safe_from_dom [OF inv inv] by (simp add: start_marking_def try_start_marking_def)
next
  case True
  let ?h1 = "h\<lparr>phase := phase_as_u8 Marking\<rparr>"
  obtain xs where xs: "heap_inv xs h" using gc_inv_heap [OF inv] by blast
  have "returns (do_mark_roots ?h1 []) (\<lambda>r. safe_from h (fst r))"
  proof (rule returns_mono [OF do_mark_roots_run [of xs ?h1]])
    show "heap_inv xs ?h1" using xs by simp
    show "tricolor (mem ?h1) (set (gray_queue ?h1))" using gc_inv_tricolor [OF inv] by simp
    fix r :: "heap \<times> tracer"
    assume r: "snd r = [] \<and> marking_inv (fst r) [] \<and> recolored (mem ?h1) (mem (fst r)) \<and>
      fst r = ?h1\<lparr>mem := mem (fst r), gray_queue := gray_queue (fst r)\<rparr> \<and>
      nonwhite (mem (fst r)) = nonwhite (mem ?h1) \<union> Collect (root_at (mem ?h1))"
    then obtain m q where h2: "fst r = ?h1\<lparr>mem := m, gray_queue := q\<rparr>" by blast
    have rc: "recolored (mem h) m" and tri: "tricolor m (set q)"
        and nw: "nonwhite m = nonwhite (mem h) \<union> Collect (root_at (mem h))"
      using r h2 by (auto simp: marking_inv_def)
    have "root_at m = root_at (mem h)" using same_objs_views(1) [OF recolored_same_objs [OF rc]] by simp
    then have "roots_covered m" using nw by (auto simp: roots_covered_def nonwhite_def)
    then have "marking_state (fst r)" using h2 tri by (simp add: marking_state_def)
    moreover have "heap_inv xs (fst r)"
      using heap_inv_recolored [OF xs rc tricolorD(1) [OF tri], of "fst r"] h2 by simp
    ultimately have "gc_inv (fst r)" using inv h2 by (auto simp: gc_inv_def)
    then show "safe_from h (fst r)" using recolored_dom [OF rc] h2 by (intro safe_from_dom [OF inv]) simp_all
  qed
  then show ?thesis
    using True by (auto elim!: returns_bindI simp: start_marking_def try_start_marking_def tracer_new_def)
qed

text \<open>At the end of a mark phase the kept objects point to marked ones, contain the reachable ones and are closed.\<close>

lemma marking_state_succs:
  assumes ms: "marking_state h" and q: "gray_queue h = []" and a: "a \<in> dom (mem h)" "kept (mem h) a"
  shows "succs (mem h) a \<subseteq> nonwhite (mem h)"
  using ms q a tricolor_closed [of "mem h" "{}" a] unfolding marking_state_def roots_covered_def
  by (auto simp: nonwhite_def kept_def)

lemma marking_state_kept:
  assumes "mem_ok (mem h)" and ms: "marking_state h" and q: "gray_queue h = []"
  shows "a \<in> dom (mem h) \<Longrightarrow> kept (mem h) a \<Longrightarrow> succs (mem h) a \<subseteq> Collect (kept (mem h))"
    and "reach (mem h) \<subseteq> {a \<in> dom (mem h). kept (mem h) a}"
proof -
  show closed: "succs (mem h) a \<subseteq> Collect (kept (mem h))" if "a \<in> dom (mem h)" "kept (mem h) a" for a
    using marking_state_succs [OF ms q that] by (auto simp: nonwhite_def kept_def)
  show "reach (mem h) \<subseteq> {a \<in> dom (mem h). kept (mem h) a}"
  proof (rule reach_least)
    show "a \<in> {a \<in> dom (mem h). kept (mem h) a}" if "root_at (mem h) a" for a
      using that view_dom(4) [OF that] by (simp add: kept_def)
    show "succs (mem h) a \<subseteq> {a \<in> dom (mem h). kept (mem h) a}" if "a \<in> {a \<in> dom (mem h). kept (mem h) a}" for a
      using closed [of a] succs_dom [OF assms(1)] that by blast
  qed
qed

lemma sweep_safe:
  assumes inv: "gc_inv h" and ok: "allowed p SweepAndFinish h"
  shows "returns (run_op p SweepAndFinish h) (safe_from h)"
proof -
  obtain xs where xs: "heap_inv xs h" using gc_inv_heap [OF inv] by blast
  have ms: "marking_state h" and q: "gray_queue h = []" and pc: "pacing_safe p h"
    using ok gc_inv_marking [OF inv] by simp_all
  note kept = marking_state_kept [OF heap_invD(3) [OF xs] ms q]
  have "returns (sweep_and_finish p h) (\<lambda>r. safe_from h (snd r))"
  proof (rule returns_mono [OF sweep_and_finish_kept [OF xs q pc kept(1)]])
    fix r assume r: "collected xs {a \<in> dom (mem h). kept (mem h) a} h (snd r) \<and> fst r = bytes_allocated (snd r)"
    then have "gc_inv (snd r)" using inv by (auto simp: collected_def gc_inv_def)
    then show "safe_from h (snd r)" using r kept(2) by (simp add: safe_from_def collected_def)
  qed
  then show ?thesis by (auto elim!: returns_bindI)
qed

lemma force_collect_safe:
  assumes inv: "gc_inv h" and pc: "pacing_safe p h"
  shows "returns (force_collect p h) (\<lambda>r. safe_from h (snd r))"
proof (cases "quiescent h")
  case True
  obtain xs where xs: "heap_inv xs h" using gc_inv_heap [OF inv] by blast
  have "ready h" using inv True by (simp add: gc_inv_def ready_def)
  from force_collect_run [OF xs this pc] show ?thesis
    by (rule returns_mono) (use inv in \<open>auto simp: safe_from_def collected_def gc_inv_def\<close>)
next
  case False
  then have "phase h \<noteq> phase_as_u8 Idle" using inv by (simp add: gc_inv_def marking_state_def)
  then show ?thesis
    using safe_from_dom [OF inv inv] by (simp add: force_collect_def try_mark_full_def try_start_marking_def)
qed

section \<open>The machine\<close>

text \<open>Every operation of the library satisfies the contract.\<close>

lemma run_op_safe:
  assumes inv: "gc_inv h" and ok: "allowed p x h"
  shows "returns (run_op p x h) (safe_from h)"
proof (cases x)
  case (Allocate a t sz v)
  then show ?thesis using allocate_safe [OF inv] ok by blast
next
  case (SetCell a pth t v)
  then show ?thesis using set_cell_safe [OF inv] ok by blast
next
  case ForceCollect
  then show ?thesis using force_collect_safe [OF inv] ok by (auto intro: returns_bind_snd)
next
  case CollectIfNeeded
  then show ?thesis
    using force_collect_safe [OF inv] ok safe_from_dom [OF inv inv]
    by (auto intro: returns_bind_snd simp: collect_def)
qed (use assms root_ops_safe start_marking_safe mark_increment_safe sweep_safe in blast)+

interpretation gc: safe_machine "run_op p" "allowed p" gc_inv "\<lambda>h. reach (mem h)" "\<lambda>h. dom (mem h)" for p
proof unfold_locales
  show "returns (run_op p x h) gc_inv" if "gc_inv h" "allowed p x h" for x h
    using run_op_safe [OF that] by (rule returns_mono) (simp add: safe_from_def)
  show "reach (mem h) \<subseteq> dom (mem h')" if "gc_inv h" "allowed p x h" "run_op p x h = ret h'" for x h h'
    using run_op_safe [OF that(1,2)] that(3) by (simp add: safe_from_def)
  show "reach (mem h) \<subseteq> dom (mem h)" if "gc_inv h" for h
    using safe_from_dom [OF that that] by (simp add: safe_from_def)
qed

text \<open>The states of a heap that was created with options \<open>o'\<close> and used under the discipline.\<close>

inductive gc_step :: "profile \<Rightarrow> heap \<Rightarrow> operation \<Rightarrow> heap \<Rightarrow> bool" for p where
  step: "allowed p x h \<Longrightarrow> run_op p x h = ret h' \<Longrightarrow> gc_step p h x h'"

inductive gc_reachable :: "profile \<Rightarrow> gc_options \<Rightarrow> heap \<Rightarrow> bool" for p o' where
  init: "gc_reachable p o' (heap_init o')"
| next_state: "gc_reachable p o' h \<Longrightarrow> gc_step p h x h' \<Longrightarrow> gc_reachable p o' h'"

inductive_cases gc_stepE: "gc_step p h x h'"

lemma gc_step_safe: "gc_inv h \<Longrightarrow> gc_step p h x h' \<Longrightarrow> safe_from h h'"
  by (erule gc_stepE) (use run_op_safe in \<open>fastforce simp: returns_iff\<close>)

lemma gc_reachable_inv:
  "gc_reachable p o' h \<Longrightarrow> incremental_work_budget o' \<noteq> 0 \<Longrightarrow> gc_inv h"
proof (induction rule: gc_reachable.induct)
  case init
  then show ?case by (rule gc_inv_init)
next
  case (next_state h x h')
  then show ?case using gc_step_safe by (auto simp: safe_from_def)
qed

lemma gc_reachable_run:
  assumes "gc_reachable p o' s" and "all_allowed (run_op p) (allowed p) xs s" and "run_ops (run_op p) xs s = ret h"
  shows "gc_reachable p o' h"
  using assms
proof (induction xs arbitrary: s)
  case (Cons x xs)
  obtain t where t: "run_op p x s = ret t" "run_ops (run_op p) xs t = ret h"
    using Cons.prems(3) by (auto simp: bind_eq_ret_iff simp del: run_op.simps)
  moreover have "allowed p x s" "all_allowed (run_op p) (allowed p) xs t"
    using Cons.prems(2) t(1) by (simp_all del: run_op.simps allowed_def)
  ultimately show ?case using Cons.IH Cons.prems(1) gc_reachable.next_state gc_step.intros by metis
qed simp

section \<open>Example runs\<close>

lemmas op_exec [exec] = start_marking_def CellObj_def

lemmas op_checks = allocatable_def storable_def covered_def nonwhite_def white_at_def root_at_def succs_def
  ptr_ok_def pacing_safe_def Node_def options_DEFAULT_def

text \<open>A node is allocated and marked; a second node that points to it is allocated during the mark
  phase; the first handle is dropped; the sweep keeps both.\<close>

definition demo_run :: "operation list" where
  "demo_run =
     [Allocate 3 Node 48 (node_val 3 None), StartMarking, MarkIncrement 8,
      Allocate 2 Node 48 (node_val 2 (Some 3)), DropRoot 3, SweepAndFinish]"

lemma demo_run_allowed:
  "all_allowed (run_op Release) (allowed Release) demo_run (heap_init options_DEFAULT)"
  by (simp add: demo_run_def exec op_checks)

text \<open>
  The object at 2 holds the only pointer to the node at 3, which points to the node at 5. During the
  mark phase, before 2 is scanned, the mutator roots 3 and clears the cell: 3 survives as a root, but
  it is never scanned, so 5 is never marked.
\<close>

definition lost_child_run :: "operation list" where
  "lost_child_run =
     [Allocate 5 Node 48 (node_val 5 None), Allocate 3 Node 48 (node_val 3 (Some 5)),
      Allocate 2 CellObj 48 (cell_new (VSome (VPtr False 3))), DropRoot 5, DropRoot 3,
      StartMarking, RootPtr 3, SetCell 2 [] (TOption (TGcPtr False)) VNone,
      MarkIncrement 100, SweepAndFinish]"

text \<open>The same with an object allocated during the mark phase, on a heap without mutator assist.\<close>

definition lost_pointee_run :: "operation list" where
  "lost_pointee_run =
     [Allocate 3 Node 48 (node_val 3 None), Allocate 2 CellObj 48 (cell_new (VSome (VPtr False 3))),
      DropRoot 3, StartMarking, Allocate 4 Node 48 (node_val 4 (Some 3)),
      SetCell 2 [] (TOption (TGcPtr False)) VNone, MarkIncrement 100, SweepAndFinish]"

section \<open>Properties\<close>

text \<open>
  C1: safety of the interleaved collector. Every sequence of operations of mutators and collector
  that respects the discipline, from a new heap, runs to its end without a use after free, a panic or
  an endless loop; the heap is well formed at the end, so every pointer in every object and
  everything reachable from the roots is live.
\<close>

theorem disciplined_runs_safe:
  assumes "incremental_work_budget o' \<noteq> 0"
    and "all_allowed (run_op p) (allowed p) ops (heap_init o')"
  shows "\<exists>h' xs. run_ops (run_op p) ops (heap_init o') = ret h' \<and> heap_inv xs h' \<and>
    reach (mem h') \<subseteq> dom (mem h') \<and> (\<forall>a. succs (mem h') a \<subseteq> dom (mem h'))"
proof -
  obtain h' where h': "run_ops (run_op p) ops (heap_init o') = ret h'" "gc_inv h'"
    using gc.run_ops_inv [OF gc_inv_init [OF assms(1)] assms(2)] by (rule returnsE)
  obtain xs where xs: "heap_inv xs h'" using gc_inv_heap [OF h'(2)] by blast
  have "reach (mem h') \<subseteq> dom (mem h')"
    by (rule gc.live_after [OF gc_inv_init [OF assms(1)] assms(2) h'(1)])
  moreover have "succs (mem h') a \<subseteq> dom (mem h')" for a
    using succs_dom [OF heap_invD(3) [OF xs]] by blast
  ultimately show ?thesis using h'(1) xs by blast
qed

theorem disciplined_runs_safe_witness:
  "all_allowed (run_op Release) (allowed Release) demo_run (heap_init options_DEFAULT) \<and>
   (\<exists>h' xs. run_ops (run_op Release) demo_run (heap_init options_DEFAULT) = ret h' \<and> heap_inv xs h')"
proof -
  have "incremental_work_budget options_DEFAULT \<noteq> 0" by (simp add: options_DEFAULT_def)
  from disciplined_runs_safe [OF this demo_run_allowed] show ?thesis using demo_run_allowed by blast
qed

text \<open>
  No operation frees a live object. In every state a disciplined use can reach, every allowed
  operation ends normally, and in the state it leaves every object that was reachable before it is
  still there.
\<close>

theorem reachable_never_freed:
  assumes "gc_reachable p o' h" and "incremental_work_budget o' \<noteq> 0" and "allowed p x h"
  shows "\<exists>h'. run_op p x h = ret h' \<and> gc_reachable p o' h' \<and> reach (mem h) \<subseteq> dom (mem h')"
proof -
  obtain h' where h': "run_op p x h = ret h'" "safe_from h h'"
    using run_op_safe [OF gc_reachable_inv [OF assms(1,2)] assms(3)] by (rule returnsE)
  have "gc_reachable p o' h'" using assms(1,3) h'(1) by (metis gc_reachable.next_state gc_step.intros)
  then show ?thesis using h' by (auto simp: safe_from_def)
qed

theorem reachable_never_freed_witness:
  "\<exists>h'. run_op Release (Allocate 3 Node 48 (node_val 3 None)) (heap_init options_DEFAULT) = ret h' \<and>
     gc_reachable Release options_DEFAULT h'"
proof -
  have "allowed Release (Allocate 3 Node 48 (node_val 3 None)) (heap_init options_DEFAULT)"
    by (simp add: exec op_checks)
  moreover have "incremental_work_budget options_DEFAULT \<noteq> 0" by (simp add: options_DEFAULT_def)
  ultimately show ?thesis
    using reachable_never_freed [OF gc_reachable.init [of Release options_DEFAULT]] by blast
qed

text \<open>
  C16: the discipline is needed. Two runs in which every operation respects the types and the documented
  contracts (\<open>GcPtr::root\<close> on a live object, stores through the barrier) end with a rooted object
  that points to freed memory: roots are scanned once, at the start of the mark phase, and an object
  rooted later while white is kept by the sweep but never scanned.
\<close>

theorem unmarked_root_unsafe:
  "all_allowed (run_op Release) (documented Release) lost_child_run (heap_init options_DEFAULT) \<and>
   (\<exists>h'. run_ops (run_op Release) lost_child_run (heap_init options_DEFAULT) = ret h' \<and>
      root_at (mem h') 3 \<and> 5 \<in> succs (mem h') 3 \<and> gc_ptr_read (mem h') 5 = raise (UseAfterFree 5)) \<and>
   all_allowed (run_op Release) (documented Release) lost_pointee_run
     (heap_init (options_DEFAULT\<lparr>assist_work_budget := 0\<rparr>)) \<and>
   (\<exists>h'. run_ops (run_op Release) lost_pointee_run (heap_init (options_DEFAULT\<lparr>assist_work_budget := 0\<rparr>)) = ret h' \<and>
      root_at (mem h') 4 \<and> 3 \<in> succs (mem h') 4 \<and> gc_ptr_read (mem h') 3 = raise (UseAfterFree 3))"
  by (intro conjI) (simp_all add: lost_child_run_def lost_pointee_run_def exec op_checks gc_ptr_read_def)

end
