(* ===== verification/Gc_Context.thy ===== *)
theory Gc_Context
  imports Mutator
begin

text \<open>
  Model of \<open>src/src/gc.rs\<close>: contexts, the thread-local pointer to the current one, and the shared
  ownership of heaps. A \<open>system\<close> holds the heaps that exist with the number of \<open>Arc\<close> handles to each, the
  live contexts, and for every thread its \<open>CURRENT_CTX\<close>. Identifiers stand for addresses; a
  context pointer without a context behind it is a use after free.

  A heap's background thread owns one handle of its heap; a context owns one.
\<close>

section \<open>State\<close>

type_synonym heap_id = nat
type_synonym ctx_id = nat

record gc_context_inner =
  ctx_heap :: heap_id
  local_gray :: tracer

record system =
  heaps :: "heap_id \<rightharpoonup> heap"
  arcs :: "heap_id \<Rightarrow> nat"
  ctxs :: "ctx_id \<rightharpoonup> gc_context_inner"
  current_ctx :: "thread_id \<Rightarrow> ctx_id option"

definition system_init :: system where
  "system_init = \<lparr> heaps = Map.empty, arcs = (\<lambda>_. 0), ctxs = Map.empty, current_ctx = (\<lambda>_. None) \<rparr>"

section \<open>The current context\<close>

definition set_current_context :: "system \<Rightarrow> thread_id \<Rightarrow> ctx_id \<Rightarrow> system prog" where
  "set_current_context s tid c =
     (if current_ctx s tid \<noteq> None then raise ContextAlreadySet
      else ret (s\<lparr>current_ctx := (current_ctx s)(tid := Some c)\<rparr>))"

definition reset_current_context :: "system \<Rightarrow> thread_id \<Rightarrow> ctx_id \<Rightarrow> system" where
  "reset_current_context s tid c =
     (if current_ctx s tid = Some c then s\<lparr>current_ctx := (current_ctx s)(tid := None)\<rparr> else s)"

definition with_current_context ::
    "system \<Rightarrow> thread_id \<Rightarrow> (ctx_id \<Rightarrow> gc_context_inner \<Rightarrow> system \<Rightarrow> system prog) \<Rightarrow> (bool \<times> system) prog" where
  "with_current_context s tid f =
     (case current_ctx s tid of
        None \<Rightarrow> ret (False, s)
      | Some c \<Rightarrow>
          (case ctxs s c of
             None \<Rightarrow> raise (UseAfterFree c)
           | Some ctx \<Rightarrow> bind_prog (f c ctx s) (\<lambda>s'. ret (True, s'))))"

section \<open>Heaps in the system\<close>

definition get_heap :: "system \<Rightarrow> heap_id \<Rightarrow> heap prog" where
  "get_heap s hid = (case heaps s hid of None \<Rightarrow> raise (UseAfterFree hid) | Some h \<Rightarrow> ret h)"

definition put_heap :: "heap_id \<Rightarrow> heap \<Rightarrow> system \<Rightarrow> system" where
  "put_heap hid h s = s\<lparr>heaps := (heaps s)(hid \<mapsto> h)\<rparr>"

text \<open>
  \<open>Heap::with_options\<close> at the fresh identifier \<open>hid\<close>; \<open>bg\<close> is the identifier of the background
  thread if one is spawned. The caller gets one handle, the thread another.
\<close>

definition new_heap :: "profile \<Rightarrow> system \<Rightarrow> gc_options \<Rightarrow> heap_id \<Rightarrow> thread_id \<Rightarrow> system prog" where
  "new_heap p s o' hid bg =
     bind_prog (heap_with_options p o' bg) (\<lambda>(c, h).
       ret (s\<lparr>heaps := (heaps s)(hid \<mapsto> h), arcs := (arcs s)(hid := (if c = None then 1 else 2))\<rparr>))"

definition clone_arc :: "system \<Rightarrow> heap_id \<Rightarrow> system" where
  "clone_arc s hid = s\<lparr>arcs := (arcs s)(hid := arcs s hid + 1)\<rparr>"

text \<open>Dropping a handle; the last one drops the heap, which frees its objects.\<close>

definition drop_arc :: "system \<Rightarrow> heap_id \<Rightarrow> system prog" where
  "drop_arc s hid =
     (if arcs s hid = 1 then
        bind_prog (get_heap s hid) (\<lambda>h.
        bind_prog (heap_drop h) (\<lambda>_.
        ret (s\<lparr>heaps := (heaps s)(hid := None), arcs := (arcs s)(hid := 0)\<rparr>)))
      else ret (s\<lparr>arcs := (arcs s)(hid := arcs s hid - 1)\<rparr>))"

section \<open>Contexts\<close>

text \<open>The context takes over the caller's handle; its address \<open>c\<close> is fresh.\<close>

definition context_with_heap :: "system \<Rightarrow> thread_id \<Rightarrow> heap_id \<Rightarrow> ctx_id \<Rightarrow> system prog" where
  "context_with_heap s tid hid c =
     set_current_context (s\<lparr>ctxs := (ctxs s)(c \<mapsto> \<lparr> ctx_heap = hid, local_gray = tracer_new \<rparr>)\<rparr>) tid c"

definition context_with_options ::
    "profile \<Rightarrow> system \<Rightarrow> thread_id \<Rightarrow> gc_options \<Rightarrow> heap_id \<Rightarrow> thread_id \<Rightarrow> ctx_id \<Rightarrow> system prog" where
  "context_with_options p s tid o' hid bg c =
     bind_prog (new_heap p s o' hid bg) (\<lambda>s1. context_with_heap s1 tid hid c)"

definition context_new :: "profile \<Rightarrow> system \<Rightarrow> thread_id \<Rightarrow> heap_id \<Rightarrow> thread_id \<Rightarrow> ctx_id \<Rightarrow> system prog" where
  "context_new p s tid hid bg c = context_with_options p s tid options_new hid bg c"

definition context_off :: "profile \<Rightarrow> system \<Rightarrow> thread_id \<Rightarrow> heap_id \<Rightarrow> thread_id \<Rightarrow> ctx_id \<Rightarrow> system prog" where
  "context_off p s tid hid bg c = context_with_options p s tid options_off hid bg c"

definition context_heap :: "system \<Rightarrow> ctx_id \<Rightarrow> heap_id prog" where
  "context_heap s c =
     (case ctxs s c of None \<Rightarrow> raise (UseAfterFree c) | Some ctx \<Rightarrow> ret (ctx_heap ctx))"

definition context_default :: "profile \<Rightarrow> system \<Rightarrow> thread_id \<Rightarrow> heap_id \<Rightarrow> thread_id \<Rightarrow> ctx_id \<Rightarrow> system prog" where
  "context_default p s tid hid bg c = context_new p s tid hid bg c"

text \<open>\<open>Deref for GcContext\<close>: the heap that a method called on the context runs on.\<close>

definition context_deref :: "system \<Rightarrow> ctx_id \<Rightarrow> heap prog" where
  "context_deref s c = bind_prog (context_heap s c) (get_heap s)"

definition context_allocate ::
    "system \<Rightarrow> ctx_id \<Rightarrow> addr \<Rightarrow> ty \<Rightarrow> usize \<Rightarrow> val \<Rightarrow> (addr \<times> system) prog" where
  "context_allocate s c a t sz v =
     bind_prog (context_heap s c) (\<lambda>hid.
     bind_prog (get_heap s hid) (\<lambda>h.
     bind_prog (allocate h a t sz v) (\<lambda>(r, h'). ret (r, put_heap hid h' s))))"

text \<open>\<open>Drop for GcContext\<close> on thread \<open>tid\<close>, then the drop of the inner box with its handle.\<close>

definition context_drop :: "system \<Rightarrow> thread_id \<Rightarrow> ctx_id \<Rightarrow> system prog" where
  "context_drop s tid c =
     bind_prog (context_heap s c) (\<lambda>hid.
       let s1 = reset_current_context s tid c
       in drop_arc (s1\<lparr>ctxs := (ctxs s1)(c := None)\<rparr>) hid)"

section \<open>Setting a cell on a thread\<close>

text \<open>
  The barrier of \<open>GcCell::set\<close> on thread \<open>tid\<close>. The phase that is checked and the queue that is filled are
  those of the current context's heap; the objects the new value points to belong to the heap
  \<open>hid\<close> that owns the cell.
\<close>

definition context_barrier ::
    "heap_id \<Rightarrow> val \<Rightarrow> ctx_id \<Rightarrow> gc_context_inner \<Rightarrow> system \<Rightarrow> system prog" where
  "context_barrier hid new_value c ctx s =
     bind_prog (get_heap s (ctx_heap ctx)) (\<lambda>hc.
     let (marking, hc1) = check_is_marking_and_increment_busy hc; s1 = put_heap (ctx_heap ctx) hc1 s
     in if marking then
          bind_prog (get_heap s1 hid) (\<lambda>ho.
          bind_prog (trace new_value (mem ho, local_gray ctx)) (\<lambda>r.
          let s2 = put_heap hid (ho\<lparr>mem := fst r\<rparr>) s1
          in bind_prog (get_heap s2 (ctx_heap ctx)) (\<lambda>hc2.
             let (hc3, lg) = merge_work hc2 (snd r)
             in ret (put_heap (ctx_heap ctx) (decrement_busy_marking hc3) s2
                   \<lparr>ctxs := (ctxs s2)(c \<mapsto> ctx\<lparr>local_gray := lg\<rparr>)\<rparr>))))
        else ret s1)"

definition thread_cell_set :: "system \<Rightarrow> thread_id \<Rightarrow> heap_id \<Rightarrow> addr \<Rightarrow> path \<Rightarrow> val \<Rightarrow> system prog" where
  "thread_cell_set s tid hid a p new_value =
     bind_prog (with_current_context s tid (context_barrier hid new_value)) (\<lambda>(_, s1).
     bind_prog (get_heap s1 hid) (\<lambda>h.
     bind_prog (store_cell h a p new_value) (\<lambda>h'. ret (put_heap hid h' s1))))"

lemmas context_exec [exec] = system_init_def set_current_context_def reset_current_context_def
  with_current_context_def get_heap_def put_heap_def new_heap_def clone_arc_def drop_arc_def
  context_with_heap_def context_with_options_def context_new_def context_off_def context_heap_def
  context_deref_def context_allocate_def context_drop_def

section \<open>Cells through the current context\<close>

lemma thread_cell_set_own_heap:
  assumes "current_ctx s tid = Some c" and "ctxs s c = Some ctx" and "ctx_heap ctx = hid" and "heaps s hid = Some h"
  shows "thread_cell_set s tid hid a p v =
    bind_prog (cell_set h (Some (local_gray ctx)) a p v) (\<lambda>(h', lg).
      ret ((put_heap hid h' s)\<lparr>ctxs := (ctxs s)(c \<mapsto> ctx\<lparr>local_gray := the lg\<rparr>)\<rparr>))"
proof (cases "is_marking h")
  case True
  then show ?thesis
    using assms by (cases s) (simp add: thread_cell_set_def with_current_context_def context_barrier_def cell_set_def
        write_barrier_def check_is_marking_and_increment_busy_def is_marking_def get_heap_def put_heap_def
        merge_work_def append_to_def decrement_busy_marking_def bind_assoc)
next
  case False
  have "ctx\<lparr>local_gray := local_gray ctx\<rparr> = ctx" by simp
  then show ?thesis
    using assms False by (cases s) (simp add: thread_cell_set_def with_current_context_def context_barrier_def cell_set_def
        write_barrier_def check_is_marking_and_increment_busy_def is_marking_def get_heap_def put_heap_def
        bind_assoc fun_upd_idem)
qed

lemma thread_cell_set_no_context:
  assumes "current_ctx s tid = None" and "heaps s hid = Some h"
  shows "thread_cell_set s tid hid a p v =
    bind_prog (cell_set h None a p v) (\<lambda>(h', _). ret (put_heap hid h' s))"
  using assms by (simp add: thread_cell_set_def with_current_context_def cell_set_def get_heap_def bind_assoc)

section \<open>Lifecycles\<close>

datatype ctx_event =
    NewContext thread_id gc_options heap_id thread_id ctx_id
  | ShareContext thread_id heap_id ctx_id
  | HeapOp ctx_id operation
  | DropContext thread_id ctx_id

fun run_ctx :: "profile \<Rightarrow> ctx_event \<Rightarrow> system \<Rightarrow> system prog" where
  "run_ctx p (NewContext tid o' hid bg c) s = context_with_options p s tid o' hid bg c"
| "run_ctx p (ShareContext tid hid c) s = context_with_heap (clone_arc s hid) tid hid c"
| "run_ctx p (HeapOp c x) s =
     bind_prog (context_heap s c) (\<lambda>hid.
     bind_prog (get_heap s hid) (\<lambda>h.
     bind_prog (run_op p x h) (\<lambda>h'. ret (put_heap hid h' s))))"
| "run_ctx p (DropContext tid c) s = context_drop s tid c"

fun ctx_allowed :: "profile \<Rightarrow> ctx_event \<Rightarrow> system \<Rightarrow> bool" where
  "ctx_allowed p (NewContext tid o' hid bg c) s =
     (current_ctx s tid = None \<and> hid \<notin> dom (heaps s) \<and> c \<notin> dom (ctxs s) \<and> incremental_work_budget o' \<noteq> 0)"
| "ctx_allowed p (ShareContext tid hid c) s =
     (current_ctx s tid = None \<and> hid \<in> dom (heaps s) \<and> c \<notin> dom (ctxs s))"
| "ctx_allowed p (HeapOp c x) s =
     (case ctxs s c of
        None \<Rightarrow> False
      | Some ctx \<Rightarrow> (case heaps s (ctx_heap ctx) of None \<Rightarrow> False | Some h \<Rightarrow> allowed p x h))"
| "ctx_allowed p (DropContext tid c) s = (current_ctx s tid = Some c)"

definition ctx_users :: "system \<Rightarrow> heap_id \<Rightarrow> ctx_id set" where
  "ctx_users s hid = {c. \<exists>ctx. ctxs s c = Some ctx \<and> ctx_heap ctx = hid}"

definition ctx_inv :: "system \<Rightarrow> bool" where
  "ctx_inv s \<longleftrightarrow>
     finite (dom (ctxs s)) \<and>
     (\<forall>c. c \<in> dom (ctxs s) \<longleftrightarrow> (\<exists>tid. current_ctx s tid = Some c)) \<and>
     (\<forall>tid tid' c. current_ctx s tid = Some c \<and> current_ctx s tid' = Some c \<longrightarrow> tid = tid') \<and>
     (\<forall>c ctx. ctxs s c = Some ctx \<longrightarrow> ctx_heap ctx \<in> dom (heaps s)) \<and>
     (\<forall>hid h. heaps s hid = Some h \<longrightarrow> gc_inv h \<and> 0 < arcs s hid \<and> card (ctx_users s hid) \<le> arcs s hid)"

lemma ctx_invD:
  assumes "ctx_inv s"
  shows "finite (dom (ctxs s))" and "x \<in> dom (ctxs s) \<longleftrightarrow> (\<exists>t. current_ctx s t = Some x)"
    and "current_ctx s t = Some x \<Longrightarrow> current_ctx s t' = Some x \<Longrightarrow> t = t'"
    and "ctxs s x = Some ctx \<Longrightarrow> ctx_heap ctx \<in> dom (heaps s)"
    and "heaps s i = Some h \<Longrightarrow> gc_inv h" and "heaps s i = Some h \<Longrightarrow> 0 < arcs s i"
    and "heaps s i = Some h \<Longrightarrow> card (ctx_users s i) \<le> arcs s i"
  using assms unfolding ctx_inv_def by (blast, blast, blast, blast, blast, blast, blast)

lemma ctx_invI:
  assumes "finite (dom (ctxs s))" and "\<And>x. x \<in> dom (ctxs s) \<longleftrightarrow> (\<exists>t. current_ctx s t = Some x)"
    and "\<And>t t' x. current_ctx s t = Some x \<Longrightarrow> current_ctx s t' = Some x \<Longrightarrow> t = t'"
    and "\<And>x ctx. ctxs s x = Some ctx \<Longrightarrow> ctx_heap ctx \<in> dom (heaps s)"
    and "\<And>i h. heaps s i = Some h \<Longrightarrow> gc_inv h \<and> 0 < arcs s i \<and> card (ctx_users s i) \<le> arcs s i"
  shows "ctx_inv s"
  using assms unfolding ctx_inv_def by blast

lemma ctx_inv_init: "ctx_inv system_init"
  by (simp add: ctx_inv_def system_init_def)

lemma ctx_users_finite: "finite (dom (ctxs s)) \<Longrightarrow> finite (ctx_users s hid)"
  by (rule finite_subset [of _ "dom (ctxs s)"]) (auto simp: ctx_users_def)

lemma gc_inv_bg [simp]: "gc_inv (h\<lparr>bg_thread := g\<rparr>) = gc_inv h"
  by (simp add: gc_inv_def marking_state_def quiescent_def)

lemma heap_with_options_inv:
  assumes "incremental_work_budget o' \<noteq> 0"
  shows "returns (heap_with_options p o' bg) (\<lambda>r. gc_inv (snd r))"
proof -
  have "bg_thread (heap_init o') = ssj_new" by (simp add: heap_init_def)
  then show ?thesis
    using gc_inv_init [OF assms]
    by (simp add: heap_with_options_def start_background_collection_def ssj_start_def ssj_new_def)
qed

lemma add_context_inv:
  assumes inv: "ctx_inv s" and none: "current_ctx s tid = None" and c: "c \<notin> dom (ctxs s)"
    and h: "hp hid = Some h" "gc_inv h" and ar: "card (ctx_users s hid) < ar hid"
    and other: "\<And>i. i \<noteq> hid \<Longrightarrow> hp i = heaps s i \<and> ar i = arcs s i" and old: "dom (heaps s) \<subseteq> dom hp"
  shows "ctx_inv (s\<lparr>heaps := hp, arcs := ar, ctxs := (ctxs s)(c \<mapsto> \<lparr>ctx_heap = hid, local_gray = lg\<rparr>),
                   current_ctx := (current_ctx s)(tid := Some c)\<rparr>)" (is "ctx_inv ?s")
proof -
  note D = ctx_invD [OF inv]
  have users: "ctx_users ?s i = (if i = hid then insert c (ctx_users s i) else ctx_users s i)" for i
    using c by (auto simp: ctx_users_def)
  have fin: "finite (ctx_users s i)" for i by (rule ctx_users_finite [OF D(1)])
  have cn: "c \<notin> ctx_users s i" for i using c by (auto simp: ctx_users_def)
  show ?thesis
  proof (rule ctx_invI)
    show "finite (dom (ctxs ?s))" using D(1) by simp
    show "x \<in> dom (ctxs ?s) \<longleftrightarrow> (\<exists>t. current_ctx ?s t = Some x)" for x
      using D(2) [of x] none c by (cases "x = c") (simp_all, metis domIff option.distinct(1))
    show "t = t'" if "current_ctx ?s t = Some x" "current_ctx ?s t' = Some x" for t t' x
      using that D(3) [of t x t'] D(2) [of c] c by (auto split: if_splits)
    show "ctx_heap ctx \<in> dom (heaps ?s)" if "ctxs ?s x = Some ctx" for x ctx
      using that D(4) [of x ctx] h(1) old by (cases "x = c") auto
    show "gc_inv g \<and> 0 < arcs ?s i \<and> card (ctx_users ?s i) \<le> arcs ?s i" if "heaps ?s i = Some g" for i g
      using that D(5-7) [of i g] h ar other [of i] fin [of i] cn [of i] unfolding users by (cases "i = hid") auto
  qed
qed

lemma new_context_inv:
  assumes inv: "ctx_inv s" and ok: "ctx_allowed p (NewContext tid o' hid bg c) s"
  shows "returns (run_ctx p (NewContext tid o' hid bg c) s) ctx_inv"
proof -
  obtain r where r: "heap_with_options p o' bg = ret r" "gc_inv (snd r)"
    using heap_with_options_inv [of o' p bg] ok by (auto simp: returns_iff)
  have "ctx_users s hid = {}" using inv ok by (auto simp: ctx_users_def ctx_inv_def)
  then have "ctx_inv (s\<lparr>heaps := (heaps s)(hid \<mapsto> snd r), arcs := (arcs s)(hid := (if fst r = None then 1 else 2)),
      ctxs := (ctxs s)(c \<mapsto> \<lparr>ctx_heap = hid, local_gray = []\<rparr>), current_ctx := (current_ctx s)(tid := Some c)\<rparr>)"
    using ok r(2) by (intro add_context_inv [OF inv]) auto
  then show ?thesis
    using ok r(1) by (cases r) (simp add: context_with_options_def new_heap_def context_with_heap_def
        set_current_context_def tracer_new_def)
qed

lemma share_context_inv:
  assumes inv: "ctx_inv s" and ok: "ctx_allowed p (ShareContext tid hid c) s"
  shows "returns (run_ctx p (ShareContext tid hid c) s) ctx_inv"
proof -
  obtain h where h: "heaps s hid = Some h" using ok by auto
  then have "gc_inv h" "card (ctx_users s hid) \<le> arcs s hid" using inv by (auto simp: ctx_inv_def)
  then have "ctx_inv (s\<lparr>heaps := heaps s, arcs := (arcs s)(hid := arcs s hid + 1),
      ctxs := (ctxs s)(c \<mapsto> \<lparr>ctx_heap = hid, local_gray = []\<rparr>), current_ctx := (current_ctx s)(tid := Some c)\<rparr>)"
    using ok h by (intro add_context_inv [OF inv]) auto
  then show ?thesis
    using ok by (simp add: context_with_heap_def set_current_context_def clone_arc_def tracer_new_def)
qed

lemma heap_op_inv:
  assumes inv: "ctx_inv s" and ok: "ctx_allowed p (HeapOp c x) s"
  shows "returns (run_ctx p (HeapOp c x) s) ctx_inv"
proof -
  obtain ctx h where c: "ctxs s c = Some ctx" and h: "heaps s (ctx_heap ctx) = Some h" and x: "allowed p x h"
    using ok by (auto split: option.splits)
  have "gc_inv h" using ctx_invD(5) [OF inv h] .
  then obtain h' where h': "run_op p x h = ret h'" "gc_inv h'" using gc.run_inv [OF _ x] by (auto simp: returns_iff)
  have "ctx_inv (put_heap (ctx_heap ctx) h' s)"
    using ctx_invD [OF inv] h h'(2) by (intro ctx_invI) (auto simp: put_heap_def ctx_users_def split: if_splits)
  then show ?thesis using c h h'(1) by (simp add: context_heap_def get_heap_def)
qed

text \<open>Removing the current context of a thread.\<close>

lemma remove_context_inv:
  assumes inv: "ctx_inv s" and cur: "current_ctx s tid = Some c"
    and hp: "\<And>x d. ctxs s x = Some d \<Longrightarrow> x \<noteq> c \<Longrightarrow> ctx_heap d \<in> dom hp"
    and ar: "\<And>i g. hp i = Some g \<Longrightarrow> gc_inv g \<and> 0 < ar i \<and> card (ctx_users s i - {c}) \<le> ar i"
  shows "ctx_inv (s\<lparr>heaps := hp, arcs := ar, ctxs := (ctxs s)(c := None),
                   current_ctx := (current_ctx s)(tid := None)\<rparr>)" (is "ctx_inv ?s")
proof (rule ctx_invI)
  note D = ctx_invD [OF inv]
  show "finite (dom (ctxs ?s))" using D(1) by simp
  show "x \<in> dom (ctxs ?s) \<longleftrightarrow> (\<exists>t. current_ctx ?s t = Some x)" for x
  proof (cases "x = c")
    case True
    then show ?thesis using D(3) [OF cur] by auto
  next
    case False
    then have "(\<exists>t. current_ctx ?s t = Some x) \<longleftrightarrow> (\<exists>t. current_ctx s t = Some x)"
      using cur by simp (metis option.inject)
    then show ?thesis using D(2) [of x] False by auto
  qed
  show "t = t'" if "current_ctx ?s t = Some x" "current_ctx ?s t' = Some x" for t t' x
    using that D(3) [of t x t'] by (auto split: if_splits)
  show "ctx_heap d \<in> dom (heaps ?s)" if "ctxs ?s x = Some d" for x d
    using that hp [of x d] by (auto split: if_splits)
  have "ctx_users ?s i = ctx_users s i - {c}" for i by (auto simp: ctx_users_def)
  then show "gc_inv g \<and> 0 < arcs ?s i \<and> card (ctx_users ?s i) \<le> arcs ?s i" if "heaps ?s i = Some g" for i g
    using that ar [of i g] by simp
qed

lemma drop_context_inv:
  assumes inv: "ctx_inv s" and ok: "ctx_allowed p (DropContext tid c) s"
  shows "returns (run_ctx p (DropContext tid c) s) ctx_inv"
proof -
  note D = ctx_invD [OF inv]
  have cur: "current_ctx s tid = Some c" using ok by simp
  then obtain ctx where c: "ctxs s c = Some ctx" using D(2) [of c] by auto
  obtain h where h: "heaps s (ctx_heap ctx) = Some h" using D(4) [OF c] by auto
  have cin: "c \<in> ctx_users s (ctx_heap ctx)" using c by (simp add: ctx_users_def)
  have fin: "finite (ctx_users s i)" for i by (rule ctx_users_finite [OF D(1)])
  have card: "card (ctx_users s i - {c}) \<le> arcs s i" if "heaps s i = Some g" for i g
    using D(7) [OF that] card_mono [OF fin, of "ctx_users s i - {c}" i] by auto
  let ?s = "\<lambda>hp ar. s\<lparr>heaps := hp, arcs := ar, ctxs := (ctxs s)(c := None), current_ctx := (current_ctx s)(tid := None)\<rparr>"
  show ?thesis
  proof (cases "arcs s (ctx_heap ctx) = 1")
    case True
    have "ctx_users s (ctx_heap ctx) = {c}"
      using D(7) [OF h] True cin fin card_le_Suc0_iff_eq [of "ctx_users s (ctx_heap ctx)"] by auto
    then have "ctx_heap d \<noteq> ctx_heap ctx" if "ctxs s x = Some d" "x \<noteq> c" for x d
      using that by (auto simp: ctx_users_def)
    then have "ctx_inv (?s ((heaps s)(ctx_heap ctx := None)) ((arcs s)(ctx_heap ctx := 0)))"
      using D(4-6) card by (intro remove_context_inv [OF inv cur]) (auto split: if_splits)
    moreover obtain xs where "heap_inv xs h" using gc_inv_heap [OF D(5) [OF h]] by blast
    ultimately show ?thesis
      using True h c cur heap_drop_empty
      by (cases s) (simp add: drop_arc_def get_heap_def context_drop_def context_heap_def reset_current_context_def)
  next
    case False
    have "card (ctx_users s (ctx_heap ctx) - {c}) \<le> arcs s (ctx_heap ctx) - 1"
      using D(7) [OF h] cin card_Diff_singleton [of c] by auto
    then have "ctx_inv (?s (heaps s) ((arcs s)(ctx_heap ctx := arcs s (ctx_heap ctx) - 1)))"
      using D(4-6) card False D(6) [OF h] by (intro remove_context_inv [OF inv cur]) auto
    then show ?thesis
      using False h c cur
      by (cases s) (simp add: drop_arc_def context_drop_def context_heap_def reset_current_context_def)
  qed
qed

lemma run_ctx_inv:
  assumes "ctx_inv s" and "ctx_allowed p x s"
  shows "returns (run_ctx p x s) ctx_inv"
  using assms new_context_inv share_context_inv heap_op_inv drop_context_inv by (cases x) blast+

interpretation cx: machine "run_ctx p" "ctx_allowed p" ctx_inv for p
  by unfold_locales (rule run_ctx_inv)

section \<open>Properties\<close>

text \<open>Two heaps, and a thread 1 whose current context belongs to the heap \<open>own\<close>; heap 0 is \<open>cell_heap\<close>, which is marking.\<close>

definition cell_system :: "heap_id \<Rightarrow> system" where
  "cell_system own =
     \<lparr> heaps = [0 \<mapsto> cell_heap, 1 \<mapsto> heap_init options_OFF], arcs = (\<lambda>_. 1),
       ctxs = [5 \<mapsto> \<lparr>ctx_heap = own, local_gray = []\<rparr>], current_ctx = [1 \<mapsto> 5] \<rparr>"

lemmas context_checks = op_checks options_OFF_def options_new_def options_off_def is_background_collection_off_def
  start_background_collection_def heap_with_options_def ssj_defs from_millis_def as_millis_def



text \<open>
  One context per thread. Where a thread has no current context, creating one makes it current on this
  thread only; a second creation on the same thread panics; dropping the context clears the
  thread's pointer, and dropping any other context leaves it alone.
\<close>

theorem one_context_per_thread:
  assumes "current_ctx s tid = None"
  shows "\<exists>s'. context_with_heap s tid hid c = ret s' \<and> current_ctx s' = (current_ctx s)(tid := Some c) \<and>
    context_with_heap s' tid hid' c' = raise ContextAlreadySet \<and>
    current_ctx (reset_current_context s' tid c) = current_ctx s \<and>
    (c'' = c \<or> reset_current_context s' tid c'' = s')"
  using assms by (auto simp: context_with_heap_def set_current_context_def reset_current_context_def fun_upd_idem)

theorem one_context_per_thread_witness:
  "\<exists>s'. context_with_heap system_init 1 0 5 = ret s' \<and> context_with_heap s' 1 0 6 = raise ContextAlreadySet"
proof -
  have "current_ctx system_init 1 = None" by (simp add: system_init_def)
  from one_context_per_thread [OF this, of 0 5 0 6 5] show ?thesis by blast
qed

text \<open>
  \<open>GcCell::set\<close> on a thread whose current context belongs to the cell's heap is the heap-level
  operation with the context's tracer, and on a thread without a context it is the plain store: no
  barrier runs.
\<close>

theorem thread_cell_set_refines:
  assumes "heaps s hid = Some h"
    and "case current_ctx s tid of None \<Rightarrow> True
         | Some c \<Rightarrow> (case ctxs s c of None \<Rightarrow> False | Some ctx \<Rightarrow> ctx_heap ctx = hid)"
  shows "thread_cell_set s tid hid a p v =
    (case current_ctx s tid of
       None \<Rightarrow> bind_prog (store_cell h a p v) (\<lambda>h'. ret (put_heap hid h' s))
     | Some c \<Rightarrow>
         bind_prog (cell_set h (Some (local_gray (the (ctxs s c)))) a p v) (\<lambda>(h', lg).
           ret ((put_heap hid h' s)\<lparr>ctxs := (ctxs s)(c \<mapsto> (the (ctxs s c))\<lparr>local_gray := the lg\<rparr>)\<rparr>)))"
proof (cases "current_ctx s tid")
  case None
  then show ?thesis
    using thread_cell_set_no_context [OF None assms(1)] by (simp add: cell_set_def bind_assoc)
next
  case (Some c)
  then obtain ctx where "ctxs s c = Some ctx" "ctx_heap ctx = hid" using assms(2) by (auto split: option.splits)
  then show ?thesis using thread_cell_set_own_heap [OF Some _ _ assms(1)] Some by simp
qed

theorem thread_cell_set_refines_witness:
  "thread_cell_set (cell_system 0) 1 0 2 [] (VSome (VPtr False 3)) =
     bind_prog (cell_set cell_heap (Some []) 2 [] (VSome (VPtr False 3))) (\<lambda>(h', lg).
       ret ((put_heap 0 h' (cell_system 0))\<lparr>ctxs := (ctxs (cell_system 0))(5 \<mapsto> \<lparr>ctx_heap = 0, local_gray = the lg\<rparr>)\<rparr>))"
  using thread_cell_set_refines [of "cell_system 0" 0 cell_heap 1 2 "[]" "VSome (VPtr False 3)"]
  by (simp add: cell_system_def)



end
