(* ===== verification/Background.thy ===== *)
theory Background
  imports Mutator
begin

text \<open>
  Model of \<open>background_gc_thread\<close> in \<open>src/src/heap.rs\<close> as a state machine. A step runs from one
  point at which other threads may act to the next: the timed wait, the top of the marking loop, the
  point after an increment that found no work, and the point before the sweep. The outcome of the
  timed wait is an input of the step.

  The lemmas show that a cycle of the thread that no one disturbs ends and removes exactly the
  unreachable objects, as a full collection does. Two theorems show what happens to the cycles that
  are disturbed: by a stop during marking, and by another collector between the two resets of the
  phase at the end of a sweep.
\<close>

section \<open>The thread\<close>

datatype bg_pc = Waiting | InLoop | MarkingComplete | ReadyToSweep | Exited

type_synonym bg_state = "bg_pc \<times> tracer \<times> heap"

fun bg_step :: "profile \<Rightarrow> stop_condition \<Rightarrow> bool \<Rightarrow> bg_state \<Rightarrow> bg_state prog" where
  "bg_step p c timed_out (Waiting, tr, h) =
     (if collection_interval (options h) = 0 \<or> wait_stopped (bg_thread h) c timed_out then ret (Exited, tr, h)
      else if should_collect h then
        (let (started, h1) = try_start_marking h
         in if started then bind_prog (do_mark_roots h1 tr) (\<lambda>(h2, tr2). ret (InLoop, tr2, h2))
            else ret (Waiting, tr, h1))
      else ret (Waiting, tr, h))"
| "bg_step p c timed_out (InLoop, tr, h) =
     (if is_stopped (bg_thread h) c then ret (Exited, tr, finish_gc h)
      else bind_prog (do_mark_incremental h (incremental_work_budget (options h))) (\<lambda>(marking_complete, h1).
        ret (if marking_complete then MarkingComplete else InLoop, tr, h1)))"
| "bg_step p c timed_out (MarkingComplete, tr, h) =
     ret (if yield_once_if_marking_busy h then InLoop else ReadyToSweep, tr, h)"
| "bg_step p c timed_out (ReadyToSweep, tr, h) =
     bind_prog (sweep_and_finish p h) (\<lambda>(_, h1). ret (Waiting, tr, h1))"
| "bg_step p c timed_out (Exited, tr, h) = ret (Exited, tr, h)"

text \<open>\<open>n\<close> steps in which every wait times out.\<close>

primrec bg_steps :: "profile \<Rightarrow> stop_condition \<Rightarrow> nat \<Rightarrow> bg_state \<Rightarrow> bg_state prog" where
  "bg_steps p c 0 s = ret s"
| "bg_steps p c (Suc n) s = bind_prog (bg_step p c True s) (bg_steps p c n)"

text \<open>The thread keeps running.\<close>

definition bg_running :: "stop_condition \<Rightarrow> heap \<Rightarrow> bool" where
  "bg_running c h \<longleftrightarrow> collection_interval (options h) \<noteq> 0 \<and> \<not> is_stopped (bg_thread h) c"

section \<open>An undisturbed cycle\<close>

lemma bg_steps_add:
  "bg_steps p c (n + k) s = bind_prog (bg_steps p c n s) (bg_steps p c k)"
  by (induction n arbitrary: s) (auto simp: bind_assoc intro: bind_cong)

text \<open>The marking loop ends with nothing pending.\<close>

lemma bg_marking_loop:
  assumes "marking_inv h []" and "bg_running c h" and "n_busy_marking h = 0"
    and "incremental_work_budget (options h) \<noteq> 0"
  shows "\<exists>n h' k. bg_steps p c n (InLoop, tr, h) = ret (ReadyToSweep, tr, h') \<and>
    mark_run h [] h' [] k \<and> gray_queue h' = []"
  using assms
proof (induction "work_left h []" arbitrary: h rule: less_induct)
  case less
  let ?B = "incremental_work_budget (options h)"
  have B: "0 < unat ?B" using less.prems(4) by (simp add: unat_gt_0)
  obtain r k where r: "do_mark_incremental h ?B = ret r" "mark_run h [] (snd r) [] k"
      "fst r \<longleftrightarrow> k = 0" "k < unat ?B \<longrightarrow> gray_queue (snd r) = []"
    using do_mark_incremental_run [OF less.prems(1), of ?B] by (auto simp: returns_iff)
  obtain h1 where h1: "r = (k = 0, h1)" using r(3) by (cases r) auto
  note run = r(2) [unfolded h1 snd_conv] and frame = mark_run_frame [OF r(2) [unfolded h1 snd_conv]]
  have step: "bg_step p c True (InLoop, tr, h) = ret (if k = 0 then MarkingComplete else InLoop, tr, h1)"
    using r(1) h1 less.prems(2) by (simp add: bg_running_def)
  show ?case
  proof (cases "k = 0")
    case True
    have "bg_step p c True (MarkingComplete, tr, h1) = ret (ReadyToSweep, tr, h1)"
      using less.prems(3) frame by (simp add: yield_once_if_marking_busy_def)
    then have "bg_steps p c 2 (InLoop, tr, h) = ret (ReadyToSweep, tr, h1)"
      using step True by (simp add: numeral_2_eq_2)
    moreover have "gray_queue h1 = []" using r(4) h1 True B by simp
    ultimately show ?thesis using run by blast
  next
    case False
    have "work_left h1 [] < work_left h []" using run False unfolding mark_run_def by linarith
    then obtain n h' k' where ih: "bg_steps p c n (InLoop, tr, h1) = ret (ReadyToSweep, tr, h')"
        "mark_run h1 [] h' [] k'" "gray_queue h' = []"
      using less.hyps [of h1] mark_run_inv [OF run] less.prems frame by (auto simp: bg_running_def)
    have "bg_steps p c (Suc n) (InLoop, tr, h) = ret (ReadyToSweep, tr, h')"
      using step False ih(1) by simp
    then show ?thesis using mark_run_trans [OF run ih(2)] ih(3) by blast
  qed
qed

lemma bg_cycle:
  assumes inv: "heap_inv xs h" and rd: "ready h" and safe: "pacing_safe p h"
    and bg: "bg_running c h" and sc: "should_collect h"
  shows "\<exists>n h'. 0 < n \<and> bg_steps p c n (Waiting, [], h) = ret (Waiting, [], h') \<and>
    collected xs (reach (mem h)) h h'"
proof -
  let ?h1 = "h\<lparr>phase := phase_as_u8 Marking\<rparr>"
  have white: "nonwhite (mem h) = {}" and idle: "phase h = phase_as_u8 Idle" and busy: "n_busy_marking h = 0"
    using rd by (simp_all add: ready_def quiescent_def)
  have tri: "tricolor (mem ?h1) (set (gray_queue ?h1))"
    using quiescent_tricolor [OF inv] rd by (simp add: ready_def)
  obtain r where r: "do_mark_roots ?h1 [] = ret r" "snd r = []" "marking_inv (fst r) []"
      "recolored (mem h) (mem (fst r))" "fst r = ?h1\<lparr>mem := mem (fst r), gray_queue := gray_queue (fst r)\<rparr>"
      "nonwhite (mem (fst r)) = nonwhite (mem h) \<union> Collect (root_at (mem h))"
    using do_mark_roots_run [of xs ?h1, OF _ tri] inv by (auto simp: returns_iff)
  obtain h2 where h2: "r = (h2, [])" using r(2) by (cases r) auto
  have e2: "h2 = ?h1\<lparr>mem := mem h2, gray_queue := gray_queue h2\<rparr>" using r(5) h2 by simp
  have frame: "options h2 = options h" "bg_thread h2 = bg_thread h" "n_busy_marking h2 = n_busy_marking h"
    by (subst e2, simp)+
  have step1: "bg_step p c True (Waiting, [], h) = ret (InLoop, [], h2)"
    using bg sc idle r(1) h2 by (simp add: bg_running_def wait_stopped_def try_start_marking_def)
  have "marking_inv h2 []" "bg_running c h2" "incremental_work_budget (options h2) \<noteq> 0"
    using r(3) h2 bg rd frame by (simp_all add: bg_running_def ready_def)
  from bg_marking_loop [OF this(1,2) _ this(3), of p "[]"] frame(3) busy
  obtain n h3 k where loop: "bg_steps p c n (InLoop, [], h2) = ret (ReadyToSweep, [], h3)"
      "mark_run h2 [] h3 [] k" "gray_queue h3 = []"
    by auto
  have "fully_marked h h3"
    by (rule mark_run_fully_marked [OF _ _ loop(2,3)]) (use r h2 e2 in auto)
  from sweep_after_mark [OF inv white this safe]
  obtain r4 where r4: "sweep_and_finish p h3 = ret r4" "collected xs (reach (mem h)) h (snd r4)"
    by (rule returnsE) blast
  have "bg_steps p c (Suc n + 1) (Waiting, [], h) = ret (Waiting, [], snd r4)"
    unfolding bg_steps_add using step1 loop(1) r4(1) by (simp add: case_prod_beta)
  then show ?thesis using r4(2) by blast
qed

section \<open>Disturbed cycles\<close>

text \<open>Mutator operations and steps of the thread in one sequence; \<open>StopBg\<close> is the first half of
  \<open>stop_background_collection\<close>, the join is the caller's wait for the thread's last step.\<close>

datatype event = Op operation | Bg bool | StopBg

fun run_event :: "profile \<Rightarrow> stop_condition \<Rightarrow> event \<Rightarrow> bg_state \<Rightarrow> bg_state prog" where
  "run_event p c (Op x) (pc, tr, h) = bind_prog (run_op p x h) (\<lambda>h'. ret (pc, tr, h'))"
| "run_event p c (Bg timed_out) s = bg_step p c timed_out s"
| "run_event p c StopBg (pc, tr, h) = ret (pc, tr, snd (stop_background_collection h))"

fun event_allowed :: "profile \<Rightarrow> event \<Rightarrow> bg_state \<Rightarrow> bool" where
  "event_allowed p (Op x) (pc, tr, h) = allowed p x h"
| "event_allowed p (Bg timed_out) s = True"
| "event_allowed p StopBg s = True"

definition eager_options :: gc_options where
  "eager_options = options_DEFAULT\<lparr>min_threshold_bytes := 0\<rparr>"

definition started_heap :: heap where
  "started_heap = (heap_init eager_options)\<lparr>bg_thread := \<lparr>generation = 1, join_handle = Some 7\<rparr>\<rparr>"

lemma started_heap_is_created: "heap_with_options p eager_options 7 = ret (Some 1, started_heap)"
  by (simp add: heap_with_options_def start_background_collection_def started_heap_def heap_init_def
      is_background_collection_off_def is_threshold_off_def eager_options_def options_DEFAULT_def from_millis_def
      as_millis_def ssj_defs)

text \<open>A cell object is allocated and marked black by the thread; the thread is stopped; then a node is
  allocated, stored in the cell and unrooted, and a full collection runs.\<close>

definition stopped_run :: "event list" where
  "stopped_run =
     [Op (Allocate 2 CellObj 48 (cell_new VNone)), Bg True, Bg True, StopBg, Bg True,
      Op (Allocate 3 Node 48 (node_val 3 None)),
      Op (SetCell 2 [] (TOption (TGcPtr False)) (VSome (VPtr False 3))),
      Op (DropRoot 3), Op ForceCollect]"

text \<open>
  Two collectors, A and B, and a mutator. A has finished \<open>do_sweep\<close>, which resets the phase; B marks;
  A goes on in \<open>sweep_and_finish\<close> and resets the phase a second time; the mutator, finding the
  phase idle, stores without a barrier; B sweeps.
\<close>

definition overlapping_sweeps :: "profile \<Rightarrow> operation list \<Rightarrow> heap \<Rightarrow> (heap \<times> heap) prog" where
  "overlapping_sweeps p ops h =
     bind_prog (do_sweep p h) (\<lambda>(live_bytes, h1).
     bind_prog (try_mark_full h1) (\<lambda>(_, h2).
     bind_prog (update_threshold p h2 live_bytes) (\<lambda>h3.
     bind_prog (run_ops (run_op p) ops (finish_gc h3)) (\<lambda>h4.
     bind_prog (sweep_and_finish p h4) (\<lambda>(_, h5). ret (finish_gc h3, h5))))))"

definition store_ops :: "operation list" where
  "store_ops =
     [Allocate 3 Node 48 (node_val 3 None), SetCell 2 [] (TOption (TGcPtr False)) (VSome (VPtr False 3)), DropRoot 3]"

lemmas bg_exec [exec] = started_heap_def eager_options_def from_millis_def as_millis_def
  stop_background_collection_def ssj_defs op_exec

section \<open>Properties\<close>

text \<open>
  C19: a cycle of the background thread is exact. If the trigger fires on a well-formed idle heap and no
  one disturbs the thread, it comes back to its wait after finitely many steps, and the heap then
  holds exactly the objects that were reachable, well formed and idle: the same objects that
  \<open>force_collect\<close> leaves.
\<close>

theorem background_cycle_exact:
  assumes "heap_inv xs h" and "ready h" and "pacing_safe p h" and "bg_running c h" and "should_collect h"
  shows "\<exists>n h' h''. 0 < n \<and> bg_steps p c n (Waiting, [], h) = ret (Waiting, [], h') \<and>
    dom (mem h') = reach (mem h) \<and> heap_inv (filter (\<lambda>a. a \<in> reach (mem h)) xs) h' \<and> ready h' \<and>
    force_collect p h = ret (bytes_allocated h', h'') \<and> dom (mem h'') = dom (mem h') \<and>
    (\<forall>a\<in>dom (mem h'). \<exists>b b' b''. mem h a = Some b \<and> mem h' a = Some b' \<and> mem h'' a = Some b'' \<and>
       same_obj b b' \<and> same_obj b b'')"
proof -
  obtain n h' where bg: "0 < n" "bg_steps p c n (Waiting, [], h) = ret (Waiting, [], h')"
      "collected xs (reach (mem h)) h h'"
    using bg_cycle [OF assms] by blast
  obtain r where fc: "force_collect p h = ret r" "collected xs (reach (mem h)) h (snd r)"
      "fst r = bytes_allocated (snd r)"
    using force_collect_run [OF assms(1-3)] by (rule returnsE) blast
  have "bytes_allocated (snd r) = bytes_allocated h'"
  proof -
    let ?ys = "filter (\<lambda>a. a \<in> reach (mem h)) xs"
    have "size_at (mem (snd r)) a = size_at (mem h') a" if "a \<in> set ?ys" for a
      using collectedD [OF bg(3), of a] collectedD [OF fc(2), of a] that
      by (auto simp: size_at_def same_obj_def)
    then have "(\<Sum>a\<leftarrow>?ys. unat (size_at (mem (snd r)) a)) = (\<Sum>a\<leftarrow>?ys. unat (size_at (mem h') a))"
      by (intro arg_cong [where f = sum_list] map_cong) auto
    moreover have "heap_inv ?ys h'" "heap_inv ?ys (snd r)" using bg(3) fc(2) by (simp_all add: collected_def)
    ultimately have "unat (bytes_allocated (snd r)) = unat (bytes_allocated h')"
      using heap_invD(4) [of ?ys h'] heap_invD(4) [of ?ys "snd r"] by simp
    then show ?thesis by (simp add: word_unat_eq_iff)
  qed
  moreover have "ready h'" using bg(3) assms(2) by (simp add: collected_def ready_def)
  moreover have "\<exists>b b' b''. mem h a = Some b \<and> mem h' a = Some b' \<and> mem (snd r) a = Some b'' \<and>
      same_obj b b' \<and> same_obj b b''" if "a \<in> reach (mem h)" for a
    using collectedD [OF bg(3) that] collectedD [OF fc(2) that] by auto
  ultimately show ?thesis
    using bg fc by (cases r) (auto simp: collected_def)
qed

theorem background_cycle_exact_witness:
  "\<exists>n h'. bg_steps Debug 1 n (Waiting, [], (demo_heap eager_options)\<lparr>bg_thread := \<lparr>generation = 1, join_handle = Some 7\<rparr>\<rparr>)
      = ret (Waiting, [], h') \<and> dom (mem h') = {2, 3}"
proof -
  let ?h = "(demo_heap eager_options)\<lparr>bg_thread := \<lparr>generation = 1, join_handle = Some 7\<rparr>\<rparr>"
  have "heap_inv [2, 3, 4] ?h" using heap_inv_demo by simp
  moreover have "ready ?h"
    using quiescent_demo [of eager_options] by (simp add: ready_def quiescent_def eager_options_def options_DEFAULT_def)
  moreover have "pacing_safe Debug ?h"
    by (auto simp: pacing_safe_def pacing_fits_def goal_nat_def eager_options_def options_DEFAULT_def)
  moreover have "bg_running 1 ?h" "should_collect ?h"
    by (simp_all add: bg_running_def exec options_DEFAULT_def)
  ultimately show ?thesis
    using background_cycle_exact [of "[2, 3, 4]" ?h Debug 1] by (auto simp: reach_demo)
qed

text \<open>
  C28: stopping the background thread during a mark phase makes later collections unsafe. The thread
  resets the phase but not the colours; a black object left over is not scanned by the next cycle and
  stores into it in between pass no barrier. Every operation of this run is within the discipline;
  it ends with a rooted object that points to freed memory.
\<close>

theorem stopped_cycle_unsafe:
  "all_allowed (run_event Release 1) (event_allowed Release) stopped_run (Waiting, [], started_heap) \<and>
   (\<exists>h'. run_ops (run_event Release 1) stopped_run (Waiting, [], started_heap) = ret (Exited, [], h') \<and>
      root_at (mem h') 2 \<and> 3 \<in> succs (mem h') 2 \<and> gc_ptr_read (mem h') 3 = raise (UseAfterFree 3))"
  by (intro conjI) (simp_all add: stopped_run_def exec op_checks gc_ptr_read_def)

text \<open>
  C29: the second reset of the phase at the end of \<open>sweep_and_finish\<close> is unsafe when two threads
  collect. Between the two resets another thread can start a cycle; the second reset then ends its mark
  phase for the write barrier, and a store the barrier should have caught is lost to its sweep. The
  mutator's operations are within the discipline.
\<close>

theorem double_finish_unsafe:
  "\<exists>h h3 h5. try_mark_full (with_fresh (heap_init options_DEFAULT) 2 CellObj 48 (cell_new VNone)) = ret (True, h) \<and>
     overlapping_sweeps Release store_ops h = ret (h3, h5) \<and>
     all_allowed (run_op Release) (allowed Release) store_ops h3 \<and>
     root_at (mem h5) 2 \<and> 3 \<in> succs (mem h5) 2 \<and> gc_ptr_read (mem h5) 3 = raise (UseAfterFree 3)"
  by (simp add: overlapping_sweeps_def store_ops_def with_fresh_def fresh_box_def exec op_checks gc_ptr_read_def)

end
