(* ===== verification/Client_Programs.thy ===== *)
theory Client_Programs
  imports Gc_Context Background
begin

text \<open>
  Client programs of the repository, \<open>src/examples/demo.rs\<close> and \<open>src/examples/trace_demo.rs\<close>, as programs over
  the modelled library. Each returns what it prints, numbers and values without the words around
  them, and the heap it leaves. The addresses the allocator hands out and the sizes of \<open>GcBox<T>\<close> are
  parameters.

  All of them use a heap with the default options and stay below its threshold of one mebibyte. On such a
  heap (\<open>resting\<close>) neither \<open>collect\<close> nor the background thread does anything, which decides
  what the programs print.
\<close>

section \<open>Clients\<close>

datatype printed = Allocations nat | Bytes usize | Shown val | Values "int list" | Kept nat | Works | Failed nat

text \<open>The scope of \<open>let ctx = GcContext::new();\<close> around a program.\<close>

definition in_new_context ::
    "profile \<Rightarrow> (heap \<Rightarrow> ('r list \<times> heap) prog) \<Rightarrow> system \<Rightarrow> thread_id \<Rightarrow> heap_id \<Rightarrow> thread_id \<Rightarrow> ctx_id \<Rightarrow>
     ('r list \<times> system) prog" where
  "in_new_context p body s tid hid bg c =
     bind_prog (context_new p s tid hid bg c) (\<lambda>s1.
     bind_prog (context_deref s1 c) (\<lambda>h.
     bind_prog (body h) (\<lambda>(outs, h').
     bind_prog (context_drop (put_heap hid h' s1) tid c) (\<lambda>s2. ret (outs, s2)))))"

definition drop_root :: "addr \<Rightarrow> heap \<Rightarrow> heap prog" where
  "drop_root a h = bind_prog (gc_root_drop (mem h) a) (\<lambda>m. ret (h\<lparr>mem := m\<rparr>))"

section \<open>demo.rs\<close>

text \<open>Handles go out of scope in the reverse order of their declaration.\<close>

definition basic_allocation :: "usize \<Rightarrow> usize \<Rightarrow> usize \<Rightarrow> addr \<Rightarrow> addr \<Rightarrow> addr \<Rightarrow> heap \<Rightarrow> (printed list \<times> heap) prog" where
  "basic_allocation sz_i32 sz_str sz_vec a b c h =
     bind_prog (allocate h a (TPrim P_i32) sz_i32 (VPrim 42)) (\<lambda>(number, h1).
     bind_prog (allocate h1 b (TPrim P_str) sz_str (VPrim 0)) (\<lambda>(text, h2).
     bind_prog (allocate h2 c (TIter K_Vec (TPrim P_i32)) sz_vec (VSeq (map VPrim [1, 2, 3, 4, 5]))) (\<lambda>(vector, h3).
     bind_prog (gc_root_deref (mem h3) number) (\<lambda>v1.
     bind_prog (gc_root_deref (mem h3) text) (\<lambda>v2.
     bind_prog (gc_root_deref (mem h3) vector) (\<lambda>v3.
     bind_prog (allocation_count h3) (\<lambda>n.
     bind_prog (drop_root vector h3) (\<lambda>h4.
     bind_prog (drop_root text h4) (\<lambda>h5.
     bind_prog (drop_root number h5) (\<lambda>h6.
     ret ([Shown v1, Shown v2, Shown v3, Allocations n], h6)))))))))))"

definition manual_collection ::
    "profile \<Rightarrow> usize \<Rightarrow> addr \<Rightarrow> addr \<Rightarrow> addr \<Rightarrow> addr \<Rightarrow> addr \<Rightarrow> heap \<Rightarrow> (printed list \<times> heap) prog" where
  "manual_collection p sz a1 a2 a3 a4 a5 h =
     bind_prog (allocate h a1 (TPrim P_i32) sz (VPrim 1)) (\<lambda>(ptr1, h1).
     bind_prog (allocate h1 a2 (TPrim P_i32) sz (VPrim 2)) (\<lambda>(ptr2, h2).
     bind_prog (allocate h2 a3 (TPrim P_i32) sz (VPrim 3)) (\<lambda>(ptr3, h3).
     bind_prog (allocate h3 a4 (TPrim P_i32) sz (VPrim 4)) (\<lambda>(ptr4, h4).
     bind_prog (allocate h4 a5 (TPrim P_i32) sz (VPrim 5)) (\<lambda>(ptr5, h5).
     bind_prog (allocation_count h5) (\<lambda>n1.
     bind_prog (drop_root ptr2 h5) (\<lambda>h6.
     bind_prog (drop_root ptr3 h6) (\<lambda>h7.
     bind_prog (drop_root ptr4 h7) (\<lambda>h8.
     bind_prog (drop_root ptr5 h8) (\<lambda>h9.
     bind_prog (allocation_count h9) (\<lambda>n2.
     bind_prog (collect p h9) (\<lambda>h10.
     bind_prog (allocation_count h10) (\<lambda>n3.
     bind_prog (gc_root_deref (mem h10) ptr1) (\<lambda>v.
     bind_prog (drop_root ptr1 h10) (\<lambda>h11.
     ret ([Allocations n1, Bytes (bytes_allocated h5), Allocations n2, Allocations n3, Bytes (bytes_allocated h10), Shown v],
          h11))))))))))))))))"

text \<open>The loop of \<open>memory_pressure\<close>; the allocator's answers are a list, and \<open>live\<close> is \<open>live_objects\<close>.\<close>

fun pressure_loop :: "usize \<Rightarrow> addr list \<Rightarrow> nat \<Rightarrow> addr list \<Rightarrow> heap \<Rightarrow> (addr list \<times> heap) prog" where
  "pressure_loop sz [] i live h = ret (live, h)"
| "pressure_loop sz (a # as) i live h =
     bind_prog (allocate h a (TIter K_Vec (TPrim P_i32)) sz (VSeq (replicate 100 (VPrim (int i))))) (\<lambda>(ptr, h1).
       if i mod 100 = 0 then pressure_loop sz as (Suc i) (vec_push live ptr) h1
       else bind_prog (drop_root ptr h1) (pressure_loop sz as (Suc i) live))"

definition memory_pressure :: "profile \<Rightarrow> usize \<Rightarrow> addr list \<Rightarrow> heap \<Rightarrow> (printed list \<times> heap) prog" where
  "memory_pressure p sz as h =
     bind_prog (pressure_loop sz as 0 [] h) (\<lambda>(live_objects, h1).
     bind_prog (allocation_count h1) (\<lambda>n1.
     bind_prog (collect p h1) (\<lambda>h2.
     bind_prog (allocation_count h2) (\<lambda>n2.
     bind_prog (for_each drop_root live_objects h2) (\<lambda>h3.
     ret ([Allocations n1, Bytes (bytes_allocated h1), Allocations n2, Bytes (bytes_allocated h2), Kept (length live_objects)],
          h3))))))"

text \<open>The program runs its examples one after the other, each with a context and a heap of its own.\<close>

definition demo ::
    "profile \<Rightarrow> usize \<Rightarrow> usize \<Rightarrow> usize \<Rightarrow> addr \<times> addr \<times> addr \<Rightarrow> addr \<times> addr \<times> addr \<times> addr \<times> addr \<Rightarrow> addr list \<Rightarrow> thread_id \<Rightarrow>
     heap_id \<times> thread_id \<times> ctx_id \<Rightarrow> heap_id \<times> thread_id \<times> ctx_id \<Rightarrow> heap_id \<times> thread_id \<times> ctx_id \<Rightarrow> system \<Rightarrow>
     (printed list \<times> system) prog" where
  "demo p sz_i32 sz_str sz_vec as bs cs tid first second third s =
     (let run = (\<lambda>ids body s. case ids of (hid, bg, c) \<Rightarrow> in_new_context p body s tid hid bg c) in
      case (as, bs) of ((a1, a2, a3), (b1, b2, b3, b4, b5)) \<Rightarrow>
        bind_prog (run first (basic_allocation sz_i32 sz_str sz_vec a1 a2 a3) s) (\<lambda>(out1, s1).
        bind_prog (run second (manual_collection p sz_i32 b1 b2 b3 b4 b5) s1) (\<lambda>(out2, s2).
        bind_prog (run third (memory_pressure p sz_vec cs) s2) (\<lambda>(out3, s3). ret (out1 @ out2 @ out3, s3)))))"

section \<open>trace\_demo.rs\<close>

definition DemoNode :: ty where
  "DemoNode = TStruct False [(False, TPrim P_i32), (True, TOption (TGcPtr False))]"

text \<open>The fields \<open>value\<close> and \<open>next\<close> of a node.\<close>

fun node_value :: "val \<Rightarrow> int" where
  "node_value (VStruct ((_, VPrim n) # _)) = n"
| "node_value _ = 0"

fun node_next :: "val \<Rightarrow> addr option" where
  "node_next (VStruct [_, (_, VSome (VPtr _ a))]) = Some a"
| "node_next _ = None"

text \<open>The loop that roots each node of a list, prints it and lets the handle go.\<close>

partial_function (option) traverse :: "addr option \<Rightarrow> heap \<Rightarrow> int list \<Rightarrow> (int list \<times> heap) prog" where
  "traverse current h shown =
     (case current of
        None \<Rightarrow> ret (shown, h)
      | Some ptr \<Rightarrow>
          bind_prog (gc_ptr_root (mem h) ptr) (\<lambda>(node, m1).
          bind_prog (gc_root_deref m1 node) (\<lambda>d.
          bind_prog (drop_root node (h\<lparr>mem := m1\<rparr>)) (\<lambda>h2.
          traverse (node_next d) h2 (shown @ [node_value d])))))"

definition trace_demo :: "profile \<Rightarrow> usize \<Rightarrow> addr \<Rightarrow> addr \<Rightarrow> addr \<Rightarrow> heap \<Rightarrow> (printed list \<times> heap) prog" where
  "trace_demo p sz a3 a2 a1 h =
     bind_prog (allocate h a3 DemoNode sz (node_val 3 None)) (\<lambda>(node3, h1).
     bind_prog (allocate h1 a2 DemoNode sz (node_val 2 (Some (gc_root_as_ptr node3)))) (\<lambda>(node2, h2).
     bind_prog (allocate h2 a1 DemoNode sz (node_val 1 (Some (gc_root_as_ptr node2)))) (\<lambda>(node1, h3).
     bind_prog (drop_root node2 h3) (\<lambda>h4.
     bind_prog (drop_root node3 h4) (\<lambda>h5.
     bind_prog (allocation_count h5) (\<lambda>n1.
     bind_prog (traverse (Some (gc_root_as_ptr node1)) h5 []) (\<lambda>(vs1, h6).
     bind_prog (allocation_count h6) (\<lambda>n2.
     bind_prog (collect p h6) (\<lambda>h7.
     bind_prog (allocation_count h7) (\<lambda>n3.
     bind_prog (traverse (Some (gc_root_as_ptr node1)) h7 []) (\<lambda>(vs2, h8).
     bind_prog (drop_root node1 h8) (\<lambda>h9.
     bind_prog (allocation_count h9) (\<lambda>n4.
     bind_prog (collect p h9) (\<lambda>h10.
     bind_prog (allocation_count h10) (\<lambda>n5.
     ret ([Allocations n1, Bytes (bytes_allocated h5), Values vs1, Allocations n2, Allocations n3, Values vs2,
           Allocations n4, Allocations n5, if n5 = 0 then Works else Failed n5], h10))))))))))))))))"

section \<open>Lemmas\<close>

lemma collect_below_threshold: "\<not> should_collect h \<Longrightarrow> collect p h = ret h"
  by (simp add: collect_def)

fun node_list :: "mem \<Rightarrow> addr option \<Rightarrow> int list \<Rightarrow> bool" where
  "node_list m p [] = (p = None)"
| "node_list m p (v # vs) =
     (case p of
        None \<Rightarrow> False
      | Some a \<Rightarrow>
          (case m a of
             None \<Rightarrow> False
           | Some b \<Rightarrow> node_value (data b) = v \<and> node_list m (node_next (data b)) vs))"

lemma node_val_fields [simp]: "node_value (node_val v n) = v" "node_next (node_val v n) = n"
  by (cases n; simp add: node_val_def)+

lemma root_then_drop:
  assumes "m a = Some b"
  shows "\<exists>m1. gc_ptr_root m a = ret (a, m1) \<and> gc_root_deref m1 a = ret (data b) \<and> gc_root_drop m1 a = ret m"
  using assms handle_ops_eq(4) [of "m(a \<mapsto> set_roots (root_count (header b) + 1) b)" a "set_roots (root_count (header b) + 1) b"]
    handle_ops_eq(3) [of "m(a \<mapsto> set_roots (root_count (header b) + 1) b)" a "set_roots (root_count (header b) + 1) b"]
  by (simp add: handle_ops_eq set_roots_def fun_upd_idem)

lemma traverse_None: "traverse None h shown = ret (shown, h)"
  by (simp add: traverse.simps)

lemma traverse_Some:
  assumes "mem h a = Some b"
  shows "traverse (Some a) h shown = traverse (node_next (data b)) h (shown @ [node_value (data b)])"
proof -
  obtain m1 where "gc_ptr_root (mem h) a = ret (a, m1)" "gc_root_deref m1 a = ret (data b)" "gc_root_drop m1 a = ret (mem h)"
    using root_then_drop [of "mem h" a b, OF assms] by blast
  then show ?thesis by (subst traverse.simps) (simp add: drop_root_def)
qed

lemma traverse_list:
  assumes "node_list (mem h) p vs"
  shows "traverse p h shown = ret (shown @ vs, h)"
  using assms
proof (induction vs arbitrary: p shown)
  case (Cons v vs)
  then obtain a b where "p = Some a" "mem h a = Some b" "node_value (data b) = v" "node_list (mem h) (node_next (data b)) vs"
    by (auto split: option.splits)
  then show ?case using Cons.IH traverse_Some [of h a b] by simp
qed (simp add: traverse_None)

definition default_heap :: "thread_id \<Rightarrow> heap" where
  "default_heap bg = (heap_init options_DEFAULT)\<lparr>bg_thread := \<lparr>generation = 1, join_handle = Some bg\<rparr>\<rparr>"

lemma in_new_context_runs:
  assumes "body (default_heap bg) = ret (outs, h')" and "current_ctx s tid = None"
  shows "\<exists>s'. in_new_context p body s tid hid bg c = ret (outs, s') \<and> heaps s' hid = Some h' \<and>
    ctxs s' c = None \<and> current_ctx s' tid = None"
proof -
  have "heap_with_options p options_DEFAULT bg = ret (Some 1, default_heap bg)"
    by (simp add: heap_with_options_def start_background_collection_def default_heap_def heap_init_def
        is_background_collection_off_def is_threshold_off_def options_DEFAULT_def from_millis_def as_millis_def ssj_defs)
  then show ?thesis
    using assms by (simp add: in_new_context_def context_new_def context_with_options_def new_heap_def options_new_def
        context_with_heap_def set_current_context_def get_heap_def put_heap_def context_drop_def
        context_deref_def context_heap_def reset_current_context_def drop_arc_def)
qed

lemma in_new_context_default:
  assumes "body (default_heap bg) = ret (outs, h')"
  shows "\<exists>s'. in_new_context p body system_init tid hid bg c = ret (outs, s') \<and> heaps s' hid = Some h' \<and>
    ctxs s' c = None \<and> current_ctx s' tid = None"
  using in_new_context_runs [of body bg outs h' system_init tid p hid c] assms by (simp add: system_init_def)

lemma not_should_collect:
  assumes "options h = options_DEFAULT" and "current_threshold h = 1048576" and "unat (bytes_allocated h) \<le> 1048576"
  shows "\<not> should_collect h"
  using assms by (simp add: should_collect_def is_limit_off_def options_DEFAULT_def word_less_nat_alt)

lemma default_heap_simps [simp]:
  "mem (default_heap bg) = Map.empty" "head (default_heap bg) = None" "options (default_heap bg) = options_DEFAULT"
  "bytes_allocated (default_heap bg) = 0" "current_threshold (default_heap bg) = 1048576" "gray_queue (default_heap bg) = []"
  "phase (default_heap bg) = 0" "n_busy_marking (default_heap bg) = 0"
  by (simp_all add: default_heap_def heap_init_def options_DEFAULT_def)

lemma is_marking_0: "phase h = 0 \<Longrightarrow> \<not> is_marking h"
  by (simp add: is_marking_def phase_from_def)

lemma current_threshold_fresh [simp]: "current_threshold (with_fresh h a t sz v) = current_threshold h"
  by (simp add: with_fresh_def)

section \<open>Contents\<close>

definition data_at :: "mem \<Rightarrow> addr \<rightharpoonup> val" where
  "data_at m a = map_option data (m a)"

lemma data_at_empty: "data_at Map.empty = Map.empty"
  by (simp add: data_at_def fun_eq_iff)

lemma deref_data_at: "data_at m a = Some v \<Longrightarrow> gc_root_deref m a = ret v"
  by (auto simp: data_at_def handle_ops_eq)

section \<open>Clients below the threshold\<close>

definition resting :: "addr list \<Rightarrow> heap \<Rightarrow> bool" where
  "resting xs h \<longleftrightarrow>
     heap_inv xs h \<and> phase h = 0 \<and> options h = options_DEFAULT \<and> current_threshold h = 1048576 \<and>
     unat (bytes_allocated h) \<le> 1048576"

lemma resting_default: "resting [] (default_heap bg)"
  using heap_inv_init [of options_DEFAULT] by (simp add: resting_def) (simp add: default_heap_def)

lemma resting_collect: "resting xs h \<Longrightarrow> collect p h = ret h"
  using not_should_collect [of h] by (simp add: resting_def collect_def)

lemma resting_background: "resting xs h \<Longrightarrow> \<exists>pc. bg_step p c timed_out (Waiting, tr, h) = ret (pc, tr, h)"
  using not_should_collect [of h] by (simp add: resting_def)

lemma resting_count: "resting xs h \<Longrightarrow> allocation_count h = ret (length xs)"
  using count_loop_chain [of "mem h" "head h" xs] heap_invD(1) by (simp add: resting_def allocation_count_def)

lemma resting_dom: "resting xs h \<Longrightarrow> dom (mem h) = set xs"
  using heap_invD(2) by (auto simp: resting_def)

lemma resting_allocate:
  assumes r: "resting xs h" and a: "a \<notin> set xs" and ty: "has_type t v" "trace_contract t"
    and ptrs: "\<forall>q\<in>set (gc_ptrs v). ptr_ok (mem h) q" and sz: "unat (bytes_allocated h) + unat sz \<le> 1048576"
  shows "allocate h a t sz v = ret (a, with_fresh h a t sz v)"
    and "resting (a # xs) (with_fresh h a t sz v)"
    and "unat (bytes_allocated (with_fresh h a t sz v)) = unat (bytes_allocated h) + unat sz"
proof -
  show "allocate h a t sz v = ret (a, with_fresh h a t sz v)"
    using r by (intro allocate_idle is_marking_0) (simp add: resting_def)
  have "allocatable h a t sz v" using assms resting_dom [OF r] by (simp add: allocatable_def)
  then have "heap_inv (a # xs) (with_fresh h a t sz v)" using heap_inv_fresh r by (simp add: resting_def)
  moreover show "unat (bytes_allocated (with_fresh h a t sz v)) = unat (bytes_allocated h) + unat sz"
    using sz by (simp add: unat_add_usize)
  ultimately show "resting (a # xs) (with_fresh h a t sz v)" using r sz by (simp add: resting_def)
qed

lemma resting_drop:
  assumes r: "resting xs h" and a: "a \<in> set xs"
  shows "\<exists>b k. mem h a = Some b \<and> drop_root a h = ret (h\<lparr>mem := (mem h)(a \<mapsto> set_roots k b)\<rparr>) \<and>
    resting xs (h\<lparr>mem := (mem h)(a \<mapsto> set_roots k b)\<rparr>)"
proof -
  obtain b where b: "mem h a = Some b" using a resting_dom [OF r] by blast
  have "resting xs (h\<lparr>mem := (mem h)(a \<mapsto> set_roots k b)\<rparr>)" for k
    using r heap_inv_set_roots [of xs h a b, OF _ b] by (simp add: resting_def)
  then show ?thesis using b by (auto simp: drop_root_def handle_ops_eq)
qed

lemma node_list_set_roots:
  assumes "m a = Some b"
  shows "node_list (m(a \<mapsto> set_roots k b)) p vs = node_list m p vs"
  using assms by (induction vs arbitrary: p) (auto simp: set_roots_def split: option.splits)

lemma node_list_other: "a \<notin> dom m \<Longrightarrow> node_list m p vs \<Longrightarrow> node_list (m(a \<mapsto> b)) p vs"
  by (induction vs arbitrary: p) (auto split: option.splits)

lemma node_list_fresh:
  "a \<notin> dom m \<Longrightarrow> node_list m n vs \<Longrightarrow> node_list (m(a \<mapsto> fresh_box hp t sz (node_val v n))) (Some a) (v # vs)"
  using node_list_other by simp

text \<open>What dropping a handle below the threshold does to the lists of the client.\<close>

lemma resting_drop_list:
  assumes r: "resting xs h" and a: "a \<in> set xs"
  shows "\<exists>h'. drop_root a h = ret h' \<and> resting xs h' \<and> bytes_allocated h' = bytes_allocated h \<and>
    (\<forall>p vs. node_list (mem h') p vs = node_list (mem h) p vs)"
proof -
  obtain b k where bk: "mem h a = Some b" "drop_root a h = ret (h\<lparr>mem := (mem h)(a \<mapsto> set_roots k b)\<rparr>)"
      "resting xs (h\<lparr>mem := (mem h)(a \<mapsto> set_roots k b)\<rparr>)"
    using resting_drop [OF assms] by blast
  then show ?thesis using node_list_set_roots [of "mem h" a b k, OF bk(1)] by auto
qed

lemma DemoNode_ok: "has_type DemoNode (node_val v n)" "trace_contract DemoNode"
  "snd ` set (gc_ptrs (node_val v n)) = set_option n"
  by (cases n; simp add: DemoNode_def node_val_def)+

text \<open>Allocating a node in front of a list.\<close>

definition holds_list :: "addr list \<Rightarrow> heap \<Rightarrow> addr option \<Rightarrow> int list \<Rightarrow> bool" where
  "holds_list xs h p vs \<longleftrightarrow>
     resting xs h \<and> node_list (mem h) p vs \<and> (\<forall>a. p = Some a \<longrightarrow> ptr_ok (mem h) (False, a))"

lemma allocate_node:
  assumes l: "holds_list xs h n vs" and a: "a \<notin> set xs" and sz: "unat (bytes_allocated h) + unat sz \<le> 1048576"
  shows "\<exists>h'. allocate h a DemoNode sz (node_val v n) = ret (a, h') \<and> holds_list (a # xs) h' (Some a) (v # vs) \<and>
    bytes_allocated h' = bytes_allocated h + sz \<and> unat (bytes_allocated h') = unat (bytes_allocated h) + unat sz"
proof -
  let ?h = "with_fresh h a DemoNode sz (node_val v n)"
  have r: "resting xs h" and nl: "node_list (mem h) n vs" using l by (simp_all add: holds_list_def)
  have "\<forall>q\<in>set (gc_ptrs (node_val v n)). ptr_ok (mem h) q"
    using l by (cases n) (simp_all add: holds_list_def node_val_def)
  note alloc = resting_allocate [OF r a DemoNode_ok(1,2) this sz]
  have "a \<notin> dom (mem h)" using a resting_dom [OF r] by simp
  moreover have "ptr_ok (mem ?h) (False, a)"
    by (simp add: ptr_ok_def)
  ultimately have "holds_list (a # xs) ?h (Some a) (v # vs)"
    using alloc(2) node_list_fresh [OF _ nl] by (simp add: holds_list_def del: node_list.simps)
  then show ?thesis using alloc by simp
qed

section \<open>The loop of memory\_pressure\<close>

lemma pressure_loop_run:
  assumes "resting xs h" and "distinct as" and "set as \<inter> set xs = {}"
    and "unat (bytes_allocated h) + length as * unat sz \<le> 1048576" and "set live \<subseteq> set xs"
  shows "\<exists>live' h'. pressure_loop sz as i live h = ret (live', h') \<and> resting (rev as @ xs) h' \<and>
    unat (bytes_allocated h') = unat (bytes_allocated h) + length as * unat sz \<and> set live' \<subseteq> set as \<union> set xs \<and>
    length live' = length live + length (filter (\<lambda>j. j mod 100 = 0) [i..<i + length as])"
  using assms
proof (induction as arbitrary: xs h i live)
  case Nil
  then show ?case by simp
next
  case (Cons a as)
  let ?v = "VSeq (replicate 100 (VPrim (int i)))" and ?t = "TIter K_Vec (TPrim P_i32)"
  have ty: "has_type ?t ?v" "trace_contract ?t" "\<forall>q\<in>set (gc_ptrs ?v). ptr_ok (mem h) q"
    by (simp_all add: list_all_iff)
  have a: "a \<notin> set xs" and sz: "unat (bytes_allocated h) + unat sz \<le> 1048576" using Cons.prems by auto
  note alloc = resting_allocate [OF Cons.prems(1) a ty sz]
  let ?h = "with_fresh h a ?t sz ?v"
  have next_i: "[i..<i + length (a # as)] = i # [Suc i..<Suc i + length as]" by (subst upt_conv_Cons) simp_all
  have rest: "\<exists>live' h'. pressure_loop sz as (Suc i) l g = ret (live', h') \<and> resting (rev as @ a # xs) h' \<and>
      unat (bytes_allocated h') = unat (bytes_allocated g) + length as * unat sz \<and> set live' \<subseteq> set as \<union> set (a # xs) \<and>
      length live' = length l + length (filter (\<lambda>j. j mod 100 = 0) [Suc i..<Suc i + length as])"
    if "resting (a # xs) g" "bytes_allocated g = bytes_allocated ?h" "set l \<subseteq> set (a # xs)" for g l
    using that Cons.prems alloc(3) by (intro Cons.IH) auto
  show ?case
  proof (cases "i mod 100 = 0")
    case True
    have "set (vec_push live a) \<subseteq> set (a # xs)" using Cons.prems(5) by auto
    from rest [OF alloc(2) refl this] obtain live' h' where IH: "pressure_loop sz as (Suc i) (vec_push live a) ?h = ret (live', h')"
        "resting (rev as @ a # xs) h'" "unat (bytes_allocated h') = unat (bytes_allocated ?h) + length as * unat sz"
        "set live' \<subseteq> set as \<union> set (a # xs)"
        "length live' = length (vec_push live a) + length (filter (\<lambda>j. j mod 100 = 0) [Suc i..<Suc i + length as])"
      by blast
    show ?thesis unfolding next_i using True IH alloc(1,3) by (intro exI [of _ live'] exI [of _ h']) auto
  next
    case False
    obtain g where g: "drop_root a ?h = ret g" "resting (a # xs) g" "bytes_allocated g = bytes_allocated ?h"
      using resting_drop_list [OF alloc(2), of a] by auto
    have "set live \<subseteq> set (a # xs)" using Cons.prems(5) by auto
    from rest [OF g(2,3) this] obtain live' h' where IH: "pressure_loop sz as (Suc i) live g = ret (live', h')"
        "resting (rev as @ a # xs) h'" "unat (bytes_allocated h') = unat (bytes_allocated g) + length as * unat sz"
        "set live' \<subseteq> set as \<union> set (a # xs)"
        "length live' = length live + length (filter (\<lambda>j. j mod 100 = 0) [Suc i..<Suc i + length as])"
      by blast
    show ?thesis unfolding next_i using False IH g alloc(1,3) by (intro exI [of _ live'] exI [of _ h']) auto
  qed
qed

lemma kept_ten: "length (filter (\<lambda>j. j mod 100 = 0) [0..<1000 :: nat]) = 10"
proof -
  have "{j. j < 1000 \<and> j mod 100 = 0} = (\<lambda>k. 100 * k) ` {..<10 :: nat}" by (auto simp: image_iff)
  moreover have "card ((\<lambda>k. 100 * k) ` {..<10 :: nat}) = 10" by (subst card_image) (auto simp: inj_on_def)
  moreover have "set (filter (\<lambda>j. j mod 100 = 0) [0..<1000 :: nat]) = {j. j < 1000 \<and> j mod 100 = 0}" by auto
  ultimately show ?thesis
    using distinct_card [of "filter (\<lambda>j. j mod 100 = 0) [0..<1000 :: nat]"] by (simp only: distinct_filter distinct_upt)
qed

lemma drop_all_resting:
  assumes "resting xs h" and "set as \<subseteq> set xs"
  shows "returns (for_each drop_root as h) (resting xs)"
  using assms by (intro for_each_returns) (auto simp: returns_iff dest: resting_drop_list)

lemma memory_pressure_run:
  assumes "distinct as" and "length as = 1000" and "1000 * unat sz \<le> 1048576"
  shows "\<exists>h' bytes. memory_pressure p sz as (default_heap bg) =
    ret ([Allocations 1000, Bytes bytes, Allocations 1000, Bytes bytes, Kept 10], h') \<and> unat bytes = 1000 * unat sz"
proof -
  obtain live h where l: "pressure_loop sz as 0 [] (default_heap bg) = ret (live, h)" "resting (rev as) h"
      "unat (bytes_allocated h) = 1000 * unat sz" "set live \<subseteq> set as" "length live = 10"
    using pressure_loop_run [OF resting_default [of bg] assms(1), where sz = sz and live = "[]" and i = 0] assms(2,3) kept_ten by auto
  obtain h' where "for_each drop_root live h = ret h'"
    using drop_all_resting [OF l(2)] l(4) by (auto simp: returns_iff)
  then have "memory_pressure p sz as (default_heap bg) =
      ret ([Allocations 1000, Bytes (bytes_allocated h), Allocations 1000, Bytes (bytes_allocated h), Kept 10], h')"
    using l resting_count [OF l(2)] resting_collect [OF l(2)] assms(2) by (simp add: memory_pressure_def)
  then show ?thesis using l(3) by blast
qed

section \<open>Properties\<close>

text \<open>
  The list example does not collect its list. The program builds 1 -> 2 -> 3, prints the three values
  in order, before and after a call of \<open>collect\<close>, and drops the only handle; the last \<open>collect\<close> frees
  nothing, because three nodes are far below the threshold, so the program prints that three nodes were
  not collected instead of the expected 0.
\<close>

theorem trace_demo_fails:
  assumes "distinct [a1, a2, a3]" and "3 * unat sz \<le> 1048576"
  shows "\<exists>s'. in_new_context p (trace_demo p sz a3 a2 a1) system_init tid hid bg c =
    ret ([Allocations 3, Bytes (3 * sz), Values [1, 2, 3], Allocations 3, Allocations 3, Values [1, 2, 3],
          Allocations 3, Allocations 3, Failed 3], s')"
proof -
  have "holds_list [] (default_heap bg) None []" using resting_default by (simp add: holds_list_def)
  from allocate_node [OF this, of a3 sz 3] assms obtain h1
    where h1: "allocate (default_heap bg) a3 DemoNode sz (node_val 3 None) = ret (a3, h1)"
      "holds_list [a3] h1 (Some a3) [3]" "bytes_allocated h1 = sz" by auto
  from allocate_node [OF h1(2), of a2 sz 2] assms h1(3) obtain h2
    where h2: "allocate h1 a2 DemoNode sz (node_val 2 (Some a3)) = ret (a2, h2)"
      "holds_list [a2, a3] h2 (Some a2) [2, 3]" "bytes_allocated h2 = sz + sz" "unat (sz + sz) = unat sz + unat sz" by auto
  from allocate_node [OF h2(2), of a1 sz 1] assms h2(3,4) obtain h3
    where h3: "allocate h2 a1 DemoNode sz (node_val 1 (Some a2)) = ret (a1, h3)"
      "holds_list [a1, a2, a3] h3 (Some a1) [1, 2, 3]" "bytes_allocated h3 = sz + sz + sz" by auto
  have r3: "resting [a1, a2, a3] h3" and l3: "node_list (mem h3) (Some a1) [1, 2, 3]"
    using h3(2) by (simp_all add: holds_list_def del: node_list.simps)
  obtain h4 where h4: "drop_root a2 h3 = ret h4" "resting [a1, a2, a3] h4" "bytes_allocated h4 = bytes_allocated h3"
      "\<forall>p vs. node_list (mem h4) p vs = node_list (mem h3) p vs"
    using resting_drop_list [OF r3, of a2] by auto
  obtain h5 where h5: "drop_root a3 h4 = ret h5" "resting [a1, a2, a3] h5" "bytes_allocated h5 = bytes_allocated h4"
      "\<forall>p vs. node_list (mem h5) p vs = node_list (mem h4) p vs"
    using resting_drop_list [OF h4(2), of a3] by auto
  obtain h9 where h9: "drop_root a1 h5 = ret h9" "resting [a1, a2, a3] h9"
    using resting_drop_list [OF h5(2), of a1] by auto
  have "traverse (Some a1) h5 [] = ret ([1, 2, 3], h5)"
    using traverse_list [of h5 "Some a1" "[1, 2, 3]" "[]"] l3 h4(4) h5(4) by (simp del: node_list.simps)
  then have "trace_demo p sz a3 a2 a1 (default_heap bg) =
    ret ([Allocations 3, Bytes (3 * sz), Values [1, 2, 3], Allocations 3, Allocations 3, Values [1, 2, 3],
          Allocations 3, Allocations 3, Failed 3], h9)"
    using h1(1) h2(1) h3(1,3) h4(1,3) h5(1-3) h9 resting_count [OF h5(2)] resting_count [OF h9(2)]
      resting_collect [OF h5(2)] resting_collect [OF h9(2)]
    by (simp add: trace_demo_def gc_root_as_ptr_def)
  then show ?thesis using in_new_context_default by blast
qed

theorem trace_demo_fails_witness:
  "\<exists>s'. in_new_context Release (trace_demo Release 48 4 3 2) system_init 1 0 9 5 =
    ret ([Allocations 3, Bytes 144, Values [1, 2, 3], Allocations 3, Allocations 3, Values [1, 2, 3],
          Allocations 3, Allocations 3, Failed 3], s')"
  using trace_demo_fails [of 2 3 4 48 Release 1 0 9 5] by simp

lemma allocate_resting:
  assumes r: "resting xs h" and a: "a \<notin> set xs" and ty: "has_type t v" "trace_contract t" "gc_ptrs v = []"
    and sz: "unat (bytes_allocated h) + unat sz \<le> 1048576"
  shows "\<exists>h'. allocate h a t sz v = ret (a, h') \<and> resting (a # xs) h' \<and>
    bytes_allocated h' = bytes_allocated h + sz \<and> unat (bytes_allocated h') = unat (bytes_allocated h) + unat sz \<and>
    data_at (mem h') = (data_at (mem h))(a \<mapsto> v)"
  using resting_allocate [OF r a ty(1,2) _ sz] ty(3) by (simp add: data_at_def fun_eq_iff)

lemma drop_resting:
  assumes "resting xs h" and "a \<in> set xs"
  shows "\<exists>h'. drop_root a h = ret h' \<and> resting xs h' \<and> bytes_allocated h' = bytes_allocated h \<and>
    data_at (mem h') = data_at (mem h)"
proof -
  obtain b k where "mem h a = Some b" "drop_root a h = ret (h\<lparr>mem := (mem h)(a \<mapsto> set_roots k b)\<rparr>)"
      "resting xs (h\<lparr>mem := (mem h)(a \<mapsto> set_roots k b)\<rparr>)"
    using resting_drop [OF assms] by blast
  then show ?thesis by (auto simp: data_at_def fun_eq_iff set_roots_def)
qed

lemma basic_allocation_run:
  assumes "distinct [a1, a2, a3]" and "unat sz + unat sz_str + unat sz_vec \<le> 1048576"
  shows "\<exists>h'. basic_allocation sz sz_str sz_vec a1 a2 a3 (default_heap bg) =
    ret ([Shown (VPrim 42), Shown (VPrim 0), Shown (VSeq (map VPrim [1, 2, 3, 4, 5])), Allocations 3], h')"
proof -
  from allocate_resting [OF resting_default, of a1 "TPrim P_i32" "VPrim 42" bg sz] assms(2) obtain h1
    where h1: "allocate (default_heap bg) a1 (TPrim P_i32) sz (VPrim 42) = ret (a1, h1)" "resting [a1] h1"
      "unat (bytes_allocated h1) = unat sz" "data_at (mem h1) = [a1 \<mapsto> VPrim 42]"
    by (auto simp: data_at_empty)
  from allocate_resting [OF h1(2), of a2 "TPrim P_str" "VPrim 0" sz_str] assms h1(3) obtain h2
    where h2: "allocate h1 a2 (TPrim P_str) sz_str (VPrim 0) = ret (a2, h2)" "resting [a2, a1] h2"
      "unat (bytes_allocated h2) = unat sz + unat sz_str" "data_at (mem h2) = (data_at (mem h1))(a2 \<mapsto> VPrim 0)"
    by auto
  from allocate_resting [OF h2(2), of a3 "TIter K_Vec (TPrim P_i32)" "VSeq (map VPrim [1, 2, 3, 4, 5])" sz_vec] assms h2(3)
  obtain h3 where h3: "allocate h2 a3 (TIter K_Vec (TPrim P_i32)) sz_vec (VSeq (map VPrim [1, 2, 3, 4, 5])) = ret (a3, h3)"
      "resting [a3, a2, a1] h3" "data_at (mem h3) = (data_at (mem h2))(a3 \<mapsto> VSeq (map VPrim [1, 2, 3, 4, 5]))"
    by auto
  obtain h4 where h4: "drop_root a3 h3 = ret h4" "resting [a3, a2, a1] h4" using drop_resting [OF h3(2), of a3] by auto
  obtain h5 where h5: "drop_root a2 h4 = ret h5" "resting [a3, a2, a1] h5" using drop_resting [OF h4(2), of a2] by auto
  obtain h6 where h6: "drop_root a1 h5 = ret h6" using drop_resting [OF h5(2), of a1] by auto
  have "basic_allocation sz sz_str sz_vec a1 a2 a3 (default_heap bg) =
    ret ([Shown (VPrim 42), Shown (VPrim 0), Shown (VSeq (map VPrim [1, 2, 3, 4, 5])), Allocations 3], h6)"
    using h1(1,4) h2(1,4) h3 h4(1) h5(1) h6 resting_count [OF h3(2)] assms(1)
    by (simp add: basic_allocation_def deref_data_at)
  then show ?thesis by blast
qed

lemma manual_collection_run:
  assumes "distinct [a1, a2, a3, a4, a5]" and "5 * unat sz \<le> 1048576"
  shows "\<exists>h'. manual_collection p sz a1 a2 a3 a4 a5 (default_heap bg) =
    ret ([Allocations 5, Bytes (5 * sz), Allocations 5, Allocations 5, Bytes (5 * sz), Shown (VPrim 1)], h')"
proof -
  from allocate_resting [OF resting_default, of a1 "TPrim P_i32" "VPrim 1" bg sz] assms obtain h1
    where h1: "allocate (default_heap bg) a1 (TPrim P_i32) sz (VPrim 1) = ret (a1, h1)" "resting [a1] h1"
      "bytes_allocated h1 = sz" "unat (bytes_allocated h1) = unat sz" "data_at (mem h1) = [a1 \<mapsto> VPrim 1]"
    by (auto simp: data_at_empty)
  from allocate_resting [OF h1(2), of a2 "TPrim P_i32" "VPrim 2" sz] assms h1(3,4) obtain h2
    where h2: "allocate h1 a2 (TPrim P_i32) sz (VPrim 2) = ret (a2, h2)" "resting [a2, a1] h2"
      "bytes_allocated h2 = sz + sz" "unat (bytes_allocated h2) = 2 * unat sz"
      "data_at (mem h2) = (data_at (mem h1))(a2 \<mapsto> VPrim 2)"
    by auto
  from allocate_resting [OF h2(2), of a3 "TPrim P_i32" "VPrim 3" sz] assms h2(3,4) obtain h3
    where h3: "allocate h2 a3 (TPrim P_i32) sz (VPrim 3) = ret (a3, h3)" "resting [a3, a2, a1] h3"
      "bytes_allocated h3 = sz + sz + sz" "unat (bytes_allocated h3) = 3 * unat sz"
      "data_at (mem h3) = (data_at (mem h2))(a3 \<mapsto> VPrim 3)"
    by auto
  from allocate_resting [OF h3(2), of a4 "TPrim P_i32" "VPrim 4" sz] assms h3(3,4) obtain h4
    where h4: "allocate h3 a4 (TPrim P_i32) sz (VPrim 4) = ret (a4, h4)" "resting [a4, a3, a2, a1] h4"
      "bytes_allocated h4 = sz + sz + sz + sz" "unat (bytes_allocated h4) = 4 * unat sz"
      "data_at (mem h4) = (data_at (mem h3))(a4 \<mapsto> VPrim 4)"
    by auto
  from allocate_resting [OF h4(2), of a5 "TPrim P_i32" "VPrim 5" sz] assms h4(3,4) obtain h5
    where h5: "allocate h4 a5 (TPrim P_i32) sz (VPrim 5) = ret (a5, h5)" "resting [a5, a4, a3, a2, a1] h5"
      "bytes_allocated h5 = sz + sz + sz + sz + sz" "unat (bytes_allocated h5) = 5 * unat sz"
      "data_at (mem h5) = (data_at (mem h4))(a5 \<mapsto> VPrim 5)"
    by auto
  obtain h6 where h6: "drop_root a2 h5 = ret h6" "resting [a5, a4, a3, a2, a1] h6" "bytes_allocated h6 = bytes_allocated h5"
      "data_at (mem h6) = data_at (mem h5)" using drop_resting [OF h5(2), of a2] by auto
  obtain h7 where h7: "drop_root a3 h6 = ret h7" "resting [a5, a4, a3, a2, a1] h7" "bytes_allocated h7 = bytes_allocated h6"
      "data_at (mem h7) = data_at (mem h6)" using drop_resting [OF h6(2), of a3] by auto
  obtain h8 where h8: "drop_root a4 h7 = ret h8" "resting [a5, a4, a3, a2, a1] h8" "bytes_allocated h8 = bytes_allocated h7"
      "data_at (mem h8) = data_at (mem h7)" using drop_resting [OF h7(2), of a4] by auto
  obtain h9 where h9: "drop_root a5 h8 = ret h9" "resting [a5, a4, a3, a2, a1] h9" "bytes_allocated h9 = bytes_allocated h8"
      "data_at (mem h9) = data_at (mem h8)" using drop_resting [OF h8(2), of a5] by auto
  obtain h11 where h11: "drop_root a1 h9 = ret h11" using drop_resting [OF h9(2), of a1] by auto
  have "gc_root_deref (mem h9) a1 = ret (VPrim 1)"
    by (rule deref_data_at) (use assms(1) h1(5) h2(5) h3(5) h4(5) h5(5) h6(4) h7(4) h8(4) h9(4) in simp)
  then have "manual_collection p sz a1 a2 a3 a4 a5 (default_heap bg) =
    ret ([Allocations 5, Bytes (5 * sz), Allocations 5, Allocations 5, Bytes (5 * sz), Shown (VPrim 1)], h11)"
    using h1(1) h2(1) h3(1) h4(1) h5(1,3) h6(1,3) h7(1,3) h8(1,3) h9(1,3) h11 resting_count [OF h5(2)]
      resting_count [OF h9(2)] resting_collect [OF h9(2)]
    by (simp add: manual_collection_def)
  then show ?thesis by blast
qed

text \<open>
  C36: what the demo prints. Values come back as they went in, and all counts and byte totals are exact; the manual
  collection of four dropped objects out of five frees nothing, and the memory pressure demo makes no pressure: a thousand
  vectors are allocated and ten are kept, and after \<open>collect\<close> it prints the same thousand allocations and the same bytes as
  before, because only the boxes count and a thousand of them (of up to 1048 bytes each) stay below the threshold.
\<close>

theorem demo_prints:
  assumes "distinct [a1, a2, a3]" and "distinct [b1, b2, b3, b4, b5]" and "distinct cs" and "length cs = 1000"
    and "unat sz + unat sz_str + unat sz_vec \<le> 1048576" and "5 * unat sz \<le> 1048576" and "1000 * unat sz_vec \<le> 1048576"
    and "current_ctx s tid = None"
  shows "\<exists>s' bytes. demo p sz sz_str sz_vec (a1, a2, a3) (b1, b2, b3, b4, b5) cs tid first second third s =
    ret ([Shown (VPrim 42), Shown (VPrim 0), Shown (VSeq (map VPrim [1, 2, 3, 4, 5])), Allocations 3,
          Allocations 5, Bytes (5 * sz), Allocations 5, Allocations 5, Bytes (5 * sz), Shown (VPrim 1),
          Allocations 1000, Bytes bytes, Allocations 1000, Bytes bytes, Kept 10], s') \<and>
    unat bytes = 1000 * unat sz_vec \<and> current_ctx s' tid = None"
proof -
  obtain i1 g1 c1 i2 g2 c2 i3 g3 c3 where ids: "first = (i1, g1, c1)" "second = (i2, g2, c2)" "third = (i3, g3, c3)"
    by (cases first; cases second; cases third)
  let ?o1 = "[Shown (VPrim 42), Shown (VPrim 0), Shown (VSeq (map VPrim [1, 2, 3, 4, 5])), Allocations 3]"
    and ?o2 = "[Allocations 5, Bytes (5 * sz), Allocations 5, Allocations 5, Bytes (5 * sz), Shown (VPrim 1)]"
    and ?o3 = "\<lambda>bytes. [Allocations 1000, Bytes bytes, Allocations 1000, Bytes bytes, Kept 10]"
  obtain h1 where h1: "basic_allocation sz sz_str sz_vec a1 a2 a3 (default_heap g1) = ret (?o1, h1)"
    using basic_allocation_run [OF assms(1,5)] by blast
  obtain s1 where s1: "in_new_context p (basic_allocation sz sz_str sz_vec a1 a2 a3) s tid i1 g1 c1 = ret (?o1, s1)" "current_ctx s1 tid = None"
    using in_new_context_runs [of "basic_allocation sz sz_str sz_vec a1 a2 a3" g1 ?o1 h1 s tid p i1 c1, OF h1 assms(8)] by blast
  obtain h2 where h2: "manual_collection p sz b1 b2 b3 b4 b5 (default_heap g2) = ret (?o2, h2)"
    using manual_collection_run [OF assms(2,6)] by blast
  obtain s2 where s2: "in_new_context p (manual_collection p sz b1 b2 b3 b4 b5) s1 tid i2 g2 c2 = ret (?o2, s2)" "current_ctx s2 tid = None"
    using in_new_context_runs [of "manual_collection p sz b1 b2 b3 b4 b5" g2 ?o2 h2 s1 tid p i2 c2, OF h2 s1(2)] by blast
  obtain h3 bytes where h3: "memory_pressure p sz_vec cs (default_heap g3) = ret (?o3 bytes, h3)" "unat bytes = 1000 * unat sz_vec"
    using memory_pressure_run [OF assms(3,4,7)] by blast
  obtain s3 where s3: "in_new_context p (memory_pressure p sz_vec cs) s2 tid i3 g3 c3 = ret (?o3 bytes, s3)" "current_ctx s3 tid = None"
    using in_new_context_runs [of "memory_pressure p sz_vec cs" g3 "?o3 bytes" h3 s2 tid p i3 c3, OF h3(1) s2(2)] by blast
  show ?thesis using s1(1) s2(1) s3 h3(2) by (intro exI [of _ s3] exI [of _ bytes]) (simp add: demo_def ids)
qed

theorem demo_prints_witness:
  "\<exists>s' bytes. demo Release 32 48 56 (2, 3, 4) (2, 3, 4, 5, 6) [0..<1000] 1 (0, 9, 5) (1, 10, 6) (2, 11, 7) system_init =
    ret ([Shown (VPrim 42), Shown (VPrim 0), Shown (VSeq (map VPrim [1, 2, 3, 4, 5])), Allocations 3,
          Allocations 5, Bytes 160, Allocations 5, Allocations 5, Bytes 160, Shown (VPrim 1),
          Allocations 1000, Bytes bytes, Allocations 1000, Bytes bytes, Kept 10], s') \<and> unat bytes = 56000"
  using demo_prints [of 2 3 4 2 3 4 5 6 "[0..<1000]" 32 48 56 system_init 1 Release "(0, 9, 5)" "(1, 10, 6)" "(2, 11, 7)"]
  by (auto simp: system_init_def)

end
