(* ===== verification/Unit_Tests.thy ===== *)
theory Unit_Tests
  imports Client_Programs
begin

text \<open>
  The single-threaded unit tests of \<open>src/src/lib.rs\<close> and \<open>src/src/cell.rs\<close> as programs. A test returns its
  asserted conditions in order and the system it leaves, after its handles and its context have gone
  out of scope. Addresses and sizes are parameters as in \<open>Client_Programs\<close>; a test passes when it returns
  and every condition is true.
\<close>

section \<open>Helpers\<close>

definition drop_in :: "heap_id \<Rightarrow> addr \<Rightarrow> system \<Rightarrow> system prog" where
  "drop_in hid a s = bind_prog (get_heap s hid) (\<lambda>h. bind_prog (drop_root a h) (\<lambda>h'. ret (put_heap hid h' s)))"

definition drops_in :: "heap_id \<Rightarrow> addr list \<Rightarrow> thread_id \<Rightarrow> ctx_id \<Rightarrow> system \<Rightarrow> system prog" where
  "drops_in hid as tid c s = bind_prog (for_each (drop_in hid) as s) (\<lambda>s'. context_drop s' tid c)"

definition root_in :: "heap_id \<Rightarrow> gc_ptr \<Rightarrow> system \<Rightarrow> (gc_root \<times> system) prog" where
  "root_in hid a s =
     bind_prog (get_heap s hid) (\<lambda>h.
     bind_prog (gc_ptr_root (mem h) a) (\<lambda>(r, m). ret (r, put_heap hid (h\<lparr>mem := m\<rparr>) s)))"

definition deref_in :: "heap_id \<Rightarrow> gc_root \<Rightarrow> system \<Rightarrow> val prog" where
  "deref_in hid r s = bind_prog (get_heap s hid) (\<lambda>h. gc_root_deref (mem h) r)"

section \<open>lib.rs\<close>

definition test_basic_allocation ::
    "profile \<Rightarrow> usize \<Rightarrow> addr \<Rightarrow> thread_id \<Rightarrow> heap_id \<Rightarrow> thread_id \<Rightarrow> ctx_id \<Rightarrow> (bool list \<times> system) prog" where
  "test_basic_allocation p sz a tid hid bg c =
     bind_prog (context_new p system_init tid hid bg c) (\<lambda>s0.
     bind_prog (context_allocate s0 c a (TPrim P_i32) sz (VPrim 42)) (\<lambda>(ptr, s1).
     bind_prog (deref_in hid ptr s1) (\<lambda>v.
     bind_prog (drops_in hid [ptr] tid c s1) (\<lambda>s2. ret ([v = VPrim 42], s2)))))"

definition test_allocation_and_collection ::
    "profile \<Rightarrow> usize \<Rightarrow> addr \<Rightarrow> addr \<Rightarrow> thread_id \<Rightarrow> heap_id \<Rightarrow> thread_id \<Rightarrow> ctx_id \<Rightarrow> (bool list \<times> system) prog" where
  "test_allocation_and_collection p sz a1 a2 tid hid bg c =
     bind_prog (context_new p system_init tid hid bg c) (\<lambda>s0.
     bind_prog (context_allocate s0 c a1 (TPrim P_i32) sz (VPrim 100)) (\<lambda>(ptr1, s1).
     bind_prog (context_allocate s1 c a2 (TPrim P_i32) sz (VPrim 200)) (\<lambda>(ptr2, s2).
     bind_prog (drop_in hid ptr2 s2) (\<lambda>s3.
     bind_prog (context_deref s3 c) (\<lambda>h3.
     bind_prog (collect p h3) (\<lambda>h4.
     bind_prog (deref_in hid ptr1 (put_heap hid h4 s3)) (\<lambda>v.
     bind_prog (drops_in hid [ptr1] tid c (put_heap hid h4 s3)) (\<lambda>s5. ret ([v = VPrim 100], s5)))))))))"

definition test_incremental_marking ::
    "profile \<Rightarrow> usize \<Rightarrow> addr \<Rightarrow> addr \<Rightarrow> thread_id \<Rightarrow> heap_id \<Rightarrow> thread_id \<Rightarrow> ctx_id \<Rightarrow> (bool list \<times> system) prog" where
  "test_incremental_marking p sz a1 a2 tid hid bg c =
     bind_prog (context_new p system_init tid hid bg c) (\<lambda>s0.
     bind_prog (context_allocate s0 c a1 (TIter K_Vec (TPrim P_i32)) sz (VSeq (map VPrim [1, 2, 3]))) (\<lambda>(root, s1).
     bind_prog (context_allocate s1 c a2 (TIter K_Vec (TPrim P_i32)) sz (VSeq (map VPrim [4, 5, 6]))) (\<lambda>(temp, s2).
     bind_prog (context_deref s2 c) (\<lambda>h2.
     bind_prog (force_collect p h2) (\<lambda>(_, h3).
     bind_prog (deref_in hid root (put_heap hid h3 s2)) (\<lambda>v.
     bind_prog (drops_in hid [temp, root] tid c (put_heap hid h3 s2)) (\<lambda>s4.
     ret ([(case v of VSeq vs \<Rightarrow> length vs = 3 | _ \<Rightarrow> False)], s4))))))))"

section \<open>cell.rs\<close>

text \<open>The cell of this test is a local variable: its store is the new binding, after the barrier.\<close>

definition test_gcptrcell_basic ::
    "profile \<Rightarrow> usize \<Rightarrow> addr \<Rightarrow> addr \<Rightarrow> thread_id \<Rightarrow> heap_id \<Rightarrow> thread_id \<Rightarrow> ctx_id \<Rightarrow> (bool list \<times> system) prog" where
  "test_gcptrcell_basic p sz a1 a2 tid hid bg c =
     bind_prog (context_new p system_init tid hid bg c) (\<lambda>s0.
     bind_prog (context_allocate s0 c a1 (TPrim P_i32) sz (VPrim 10)) (\<lambda>(value1, s1).
     bind_prog (context_allocate s1 c a2 (TPrim P_i32) sz (VPrim 20)) (\<lambda>(value2, s2).
     bind_prog (root_in hid (gc_root_as_ptr value1) s2) (\<lambda>(retrieved1, s3).
     bind_prog (deref_in hid retrieved1 s3) (\<lambda>v1.
     bind_prog (with_current_context s3 tid (context_barrier hid (VPtr True (gc_root_as_ptr value2)))) (\<lambda>(_, s4).
     bind_prog (root_in hid (gc_root_as_ptr value2) s4) (\<lambda>(retrieved2, s5).
     bind_prog (deref_in hid retrieved2 s5) (\<lambda>v2.
     bind_prog (drops_in hid [retrieved2, retrieved1, value2, value1] tid c s5) (\<lambda>s6.
     ret ([v1 = VPrim 10, v2 = VPrim 20], s6))))))))))"

definition test_gcptrcell_write_barrier ::
    "profile \<Rightarrow> usize \<Rightarrow> usize \<Rightarrow> addr \<Rightarrow> addr \<Rightarrow> addr \<Rightarrow> thread_id \<Rightarrow> heap_id \<Rightarrow> thread_id \<Rightarrow> ctx_id \<Rightarrow>
     (bool list \<times> system) prog" where
  "test_gcptrcell_write_barrier p sz sz_cell a1 a2 a3 tid hid bg c =
     bind_prog (context_off p system_init tid hid bg c) (\<lambda>s0.
     bind_prog (context_allocate s0 c a1 (TPrim P_i32) sz (VPrim 10)) (\<lambda>(value1, s1).
     bind_prog (context_allocate s1 c a2 (TPrim P_i32) sz (VPrim 20)) (\<lambda>(temporary, s2).
     let value2_unrooted = gc_root_as_ptr temporary in
     bind_prog (drop_in hid temporary s2) (\<lambda>s3.
     bind_prog (context_allocate s3 c a3 (TGcCell (TGcPtr True)) sz_cell (cell_new (VPtr True (gc_root_as_ptr value1)))) (\<lambda>(cell_ptr, s4).
     bind_prog (context_deref s4 c) (\<lambda>h4.
     bind_prog (try_mark_full h4) (\<lambda>(_, h5).
     bind_prog (gc_ptr_header (mem h5) value2_unrooted) (\<lambda>hd5.
     bind_prog (thread_cell_set (put_heap hid h5 s4) tid hid cell_ptr [] (VPtr True value2_unrooted)) (\<lambda>s6.
     bind_prog (context_deref s6 c) (\<lambda>h6.
     bind_prog (gc_ptr_header (mem h6) value2_unrooted) (\<lambda>hd6.
     bind_prog (sweep_and_finish p h6) (\<lambda>(_, h7).
     bind_prog (gc_ptr_read (mem h7) value2_unrooted) (\<lambda>v.
     bind_prog (drops_in hid [cell_ptr, value1] tid c (put_heap hid h7 s6)) (\<lambda>s8.
     ret ([header_is_white hd5, \<not> header_is_white hd6, bytes_allocated h7 = bytes_allocated h4, v = VPrim 20], s8)))))))))))))))"

lemmas test_exec = drop_in_def drops_in_def root_in_def deref_in_def drop_root_def gc_root_as_ptr_def
  thread_cell_set_def context_barrier_def gc_ptr_read_def exec context_checks

section \<open>Results\<close>

lemma test_basic_allocation_passes:
  "\<exists>s. test_basic_allocation Release sz a tid hid bg c = ret ([True], s)"
  by (simp add: test_basic_allocation_def test_exec)

lemma test_gcptrcell_basic_passes:
  "a1 \<noteq> a2 \<Longrightarrow> \<exists>s. test_gcptrcell_basic Release sz a1 a2 tid hid bg c = ret ([True, True], s)"
  by (simp add: test_gcptrcell_basic_def test_exec)

lemma test_write_barrier_passes:
  "distinct [a1, a2, a3] \<Longrightarrow>
   \<exists>s. test_gcptrcell_write_barrier Release sz sz_cell a1 a2 a3 tid hid bg c = ret ([True, True, True, True], s)"
  by (simp add: test_gcptrcell_write_barrier_def test_exec)

lemma test_allocation_and_collection_passes:
  "a1 \<noteq> a2 \<Longrightarrow> \<exists>s. test_allocation_and_collection Release sz a1 a2 tid hid bg c = ret ([True], s)"
  by (cases "1048576 < sz + sz") (simp_all add: test_allocation_and_collection_def test_exec)

lemma test_incremental_marking_passes:
  "a1 \<noteq> a2 \<Longrightarrow> \<exists>s. test_incremental_marking Release sz a1 a2 tid hid bg c = ret ([True], s)"
  by (simp add: test_incremental_marking_def test_exec)

section \<open>Properties\<close>



end
