(* ===== verification/Concurrent_Marking.thy ===== *)
theory Concurrent_Marking
  imports Mutator
begin

text \<open>
  A mark phase at the granularity of the atomic operations of the code. A call of \<open>GcCell::set\<close> is a sequence
  of steps: it registers at the busy counter, loads the phase, shades the objects of the new value one by one
  into the tracer of its context, merges the tracer into the shared queue under its lock, leaves the counter and
  stores the value. A marker is a thread in \<open>do_mark_with_tracer\<close>: it steals a batch, traces one object at a time and
  then blackens it, and merges what is left. Any number of calls and markers interleave, with other threads cloning and
  dropping handles.

  The invariant says that every gray object is in the shared queue, in some tracer or in the hands of a
  marker, and that a call that is about to store has shaded the objects it stores. It holds as long as the mark
  phase lasts, and when it is over (no one registered, the markers idle) it gives back the invariant of
  \<open>Mutator\<close>. The last theorem shows what the check of the phase cannot see: a phase that begins between the check and
  the store.
\<close>

section \<open>A call of set\<close>

datatype set_pc =
    Enter | Registered | NotMarking | Shading "(bool \<times> addr) list" | Merging | Leaving | Storing | Returned

record set_call =
  cell_obj :: addr
  cell_path :: path
  cell_ty :: ty
  new_value :: val
  spc :: set_pc
  local_gray :: tracer

definition set_step :: "set_call \<Rightarrow> heap \<Rightarrow> (set_call \<times> heap) prog" where
  "set_step c h =
     (case spc c of
        Enter \<Rightarrow> ret (c\<lparr>spc := Registered\<rparr>, h\<lparr>n_busy_marking := n_busy_marking h + 1\<rparr>)
      | Registered \<Rightarrow> ret (c\<lparr>spc := if is_marking h then Shading (traced_ptrs (new_value c)) else NotMarking\<rparr>, h)
      | NotMarking \<Rightarrow> ret (c\<lparr>spc := Storing\<rparr>, h\<lparr>n_busy_marking := n_busy_marking h - 1\<rparr>)
      | Shading [] \<Rightarrow> ret (c\<lparr>spc := Merging\<rparr>, h)
      | Shading (q # qs) \<Rightarrow>
          bind_prog (mark q (mem h, local_gray c)) (\<lambda>(m, lg). ret (c\<lparr>spc := Shading qs, local_gray := lg\<rparr>, h\<lparr>mem := m\<rparr>))
      | Merging \<Rightarrow> (let (h', lg) = merge_work h (local_gray c) in ret (c\<lparr>spc := Leaving, local_gray := lg\<rparr>, h'))
      | Leaving \<Rightarrow> ret (c\<lparr>spc := Storing\<rparr>, decrement_busy_marking h)
      | Storing \<Rightarrow>
          bind_prog (store_cell h (cell_obj c) (cell_path c) (new_value c)) (\<lambda>h'. ret (c\<lparr>spc := Returned\<rparr>, h'))
      | Returned \<Rightarrow> ret (c, h))"

primrec set_steps :: "nat \<Rightarrow> set_call \<Rightarrow> heap \<Rightarrow> (set_call \<times> heap) prog" where
  "set_steps 0 c h = ret (c, h)"
| "set_steps (Suc n) c h = bind_prog (set_step c h) (\<lambda>(c', h'). set_steps n c' h')"

fun registered :: "set_pc \<Rightarrow> bool" where
  "registered Enter = False"
| "registered Storing = False"
| "registered Returned = False"
| "registered pc = True"

section \<open>A marker\<close>

text \<open>
  The object in hand has been traced and is not black yet. The code merges when the budget of an increment is used up or no work
  is left; here a marker may merge after any object, and start again with an empty tracer.
\<close>

record marker =
  work :: tracer
  in_hand :: "addr option"

definition marker_step :: "marker \<Rightarrow> heap \<Rightarrow> (marker \<times> heap) prog" where
  "marker_step k h =
     (case in_hand k of
        Some a \<Rightarrow> bind_prog (blacken a (mem h, work k)) (\<lambda>(m, tr). ret (k\<lparr>work := tr, in_hand := None\<rparr>, h\<lparr>mem := m\<rparr>))
      | None \<Rightarrow>
          (case pop_work (work k) of
             Some (a, tr) \<Rightarrow>
               bind_prog (vtable_trace a (mem h, tr)) (\<lambda>(m, tr'). ret (k\<lparr>work := tr', in_hand := Some a\<rparr>, h\<lparr>mem := m\<rparr>))
           | None \<Rightarrow> (let (_, h', tr') = steal_work h (work k) BATCH_SIZE in ret (k\<lparr>work := tr'\<rparr>, h'))))"

definition marker_merge :: "marker \<Rightarrow> heap \<Rightarrow> (marker \<times> heap) prog" where
  "marker_merge k h = (let (h', tr) = merge_work h (work k) in ret (k\<lparr>work := tr\<rparr>, h'))"

section \<open>All threads\<close>

record cm_state =
  calls :: "nat \<Rightarrow> set_call"
  markers :: "nat \<Rightarrow> marker"
  cheap :: heap

datatype cm_event = SetStep nat | MarkStep nat | MarkMerge nat | Atomic operation

fun run_cm :: "profile \<Rightarrow> cm_event \<Rightarrow> cm_state \<Rightarrow> cm_state prog" where
  "run_cm p (SetStep t) st =
     bind_prog (set_step (calls st t) (cheap st)) (\<lambda>(c, h). ret (st\<lparr>calls := (calls st)(t := c), cheap := h\<rparr>))"
| "run_cm p (MarkStep i) st =
     bind_prog (marker_step (markers st i) (cheap st)) (\<lambda>(k, h). ret (st\<lparr>markers := (markers st)(i := k), cheap := h\<rparr>))"
| "run_cm p (MarkMerge i) st =
     bind_prog (marker_merge (markers st i) (cheap st)) (\<lambda>(k, h). ret (st\<lparr>markers := (markers st)(i := k), cheap := h\<rparr>))"
| "run_cm p (Atomic x) st = bind_prog (run_op p x (cheap st)) (\<lambda>h. ret (st\<lparr>cheap := h\<rparr>))"

definition call_storable :: "set_call \<Rightarrow> heap \<Rightarrow> bool" where
  "call_storable c h = storable (mem h) (cell_obj c) (cell_path c) (cell_ty c) (new_value c)"

text \<open>
  The discipline of the mark phase: the caller of \<open>set\<close> has a live cell and live objects to store, a marker merges between two
  objects, and handles are cloned and dropped by their owners.
\<close>

fun handle_op :: "operation \<Rightarrow> bool" where
  "handle_op (CloneRoot a) = True"
| "handle_op (DropRoot a) = True"
| "handle_op x = False"

fun cm_allowed :: "nat \<Rightarrow> nat \<Rightarrow> profile \<Rightarrow> cm_event \<Rightarrow> cm_state \<Rightarrow> bool" where
  "cm_allowed nc nm p (SetStep t) st = (t < nc \<and> call_storable (calls st t) (cheap st))"
| "cm_allowed nc nm p (MarkStep i) st = (i < nm)"
| "cm_allowed nc nm p (MarkMerge i) st = (i < nm \<and> in_hand (markers st i) = None)"
| "cm_allowed nc nm p (Atomic x) st = (handle_op x \<and> documented p x (cheap st))"

section \<open>Invariant\<close>

definition held :: "marker \<Rightarrow> addr set" where
  "held k = set (work k) \<union> set_option (in_hand k)"

text \<open>Every object that someone still has to scan.\<close>

definition pending :: "nat \<Rightarrow> nat \<Rightarrow> cm_state \<Rightarrow> addr set" where
  "pending nc nm st =
     set (gray_queue (cheap st)) \<union> (\<Union>t<nc. set (local_gray (calls st t))) \<union> (\<Union>i<nm. held (markers st i))"

definition cm_heap :: "heap \<Rightarrow> addr set \<Rightarrow> bool" where
  "cm_heap h P \<longleftrightarrow>
     (\<exists>xs. heap_inv xs h) \<and> phase h = phase_as_u8 Marking \<and> incremental_work_budget (options h) \<noteq> 0 \<and>
     roots_covered (mem h) \<and> tricolor (mem h) P"

text \<open>A call that will store has shaded what it stores, and only a registered call has work of its own.\<close>

definition call_ok :: "addr set \<Rightarrow> set_call \<Rightarrow> bool" where
  "call_ok W c \<longleftrightarrow>
     (case spc c of
        Enter \<Rightarrow> local_gray c = []
      | Registered \<Rightarrow> local_gray c = []
      | NotMarking \<Rightarrow> False
      | Shading qs \<Rightarrow> snd ` set (gc_ptrs (new_value c)) \<subseteq> W \<union> snd ` set qs \<and> set qs \<subseteq> set (gc_ptrs (new_value c))
      | Merging \<Rightarrow> snd ` set (gc_ptrs (new_value c)) \<subseteq> W
      | Leaving \<Rightarrow> snd ` set (gc_ptrs (new_value c)) \<subseteq> W \<and> local_gray c = []
      | Storing \<Rightarrow> snd ` set (gc_ptrs (new_value c)) \<subseteq> W \<and> local_gray c = []
      | Returned \<Rightarrow> local_gray c = [])"

definition marker_ok :: "mem \<Rightarrow> marker \<Rightarrow> bool" where
  "marker_ok m k \<longleftrightarrow> (\<forall>a. in_hand k = Some a \<longrightarrow> succs m a \<subseteq> nonwhite m)"

definition busy_calls :: "nat \<Rightarrow> cm_state \<Rightarrow> nat set" where
  "busy_calls nc st = {t. t < nc \<and> registered (spc (calls st t))}"

definition cm_inv :: "nat \<Rightarrow> nat \<Rightarrow> cm_state \<Rightarrow> bool" where
  "cm_inv nc nm st \<longleftrightarrow>
     cm_heap (cheap st) (pending nc nm st) \<and>
     (\<forall>t<nc. call_ok (nonwhite (mem (cheap st))) (calls st t)) \<and>
     (\<forall>i<nm. marker_ok (mem (cheap st)) (markers st i)) \<and>
     n_busy_marking (cheap st) = of_nat (card (busy_calls nc st))"

section \<open>What a step does to the memory\<close>

text \<open>No object becomes white, and new edges lead to marked objects only.\<close>

definition grows :: "mem \<Rightarrow> mem \<Rightarrow> bool" where
  "grows m m' \<longleftrightarrow> nonwhite m \<subseteq> nonwhite m' \<and> (\<forall>a. succs m' a \<subseteq> succs m a \<union> nonwhite m')"

lemma grows_refl [simp]: "grows m m"
  by (auto simp: grows_def)

lemma grows_recolored: "recolored m m' \<Longrightarrow> nonwhite m \<subseteq> nonwhite m' \<Longrightarrow> grows m m'"
  by (auto simp: grows_def recolored_succs)

lemma grows_call_ok: "grows m m' \<Longrightarrow> call_ok (nonwhite m) c \<Longrightarrow> call_ok (nonwhite m') c"
  by (auto simp: grows_def call_ok_def split: set_pc.splits)

lemma grows_marker_ok: "grows m m' \<Longrightarrow> marker_ok m k \<Longrightarrow> marker_ok m' k"
  by (fastforce simp: grows_def marker_ok_def)

lemma cm_heapD:
  assumes "cm_heap h P"
  shows "\<exists>xs. heap_inv xs h" and "is_marking h" and "mem_ok (mem h)" and "tricolor (mem h) P" and "finite (dom (mem h))"
    and "roots_covered (mem h)"
proof -
  obtain xs where xs: "heap_inv xs h" using assms by (auto simp: cm_heap_def)
  then show "\<exists>xs. heap_inv xs h" by blast
  show "finite (dom (mem h))" using xs by (metis heap_inv_def List.finite_set)
  show "is_marking h" "mem_ok (mem h)" "tricolor (mem h) P" "roots_covered (mem h)"
    using assms is_marking_phase tricolorD(1) by (auto simp: cm_heap_def)
qed

lemma cm_heap_frame:
  assumes "cm_heap h P" and "mem h' = mem h" "head h' = head h" "bytes_allocated h' = bytes_allocated h"
    "phase h' = phase h" "options h' = options h"
  shows "cm_heap h' P"
  using assms by (auto simp: cm_heap_def heap_inv_def)

lemma cm_heap_recolored:
  assumes h: "cm_heap h P" and rc: "recolored (mem h) m" and nw: "nonwhite (mem h) \<subseteq> nonwhite m" and tri: "tricolor m P'"
  shows "cm_heap (h\<lparr>mem := m\<rparr>) P'" and "grows (mem h) m"
proof -
  obtain xs where "heap_inv xs h" using cm_heapD(1) [OF h] by blast
  then have "heap_inv xs (h\<lparr>mem := m\<rparr>)" by (rule heap_inv_recolored [OF _ rc tricolorD(1) [OF tri]]) simp_all
  then show "cm_heap (h\<lparr>mem := m\<rparr>) P'"
    using h tri roots_covered_recolored [OF _ rc nw] by (auto simp: cm_heap_def)
  show "grows (mem h) m" by (rule grows_recolored [OF rc nw])
qed

lemma cm_heap_shades:
  assumes h: "cm_heap h (Q \<union> set tr)" and sh: "shades A (mem h, tr) (m, tr')"
  shows "cm_heap (h\<lparr>mem := m\<rparr>) (Q \<union> set tr')" and "grows (mem h) m" and "A \<subseteq> nonwhite m"
proof -
  have sh': "recolored (mem h) m" "nonwhite m = nonwhite (mem h) \<union> A" using sh by (simp_all add: shades_def)
  have "tricolor m (Q \<union> set tr')" using tricolor_shades [of "(mem h, tr)", OF _ sh] cm_heapD(4) [OF h] by simp
  then show "cm_heap (h\<lparr>mem := m\<rparr>) (Q \<union> set tr')" "grows (mem h) m"
    using cm_heap_recolored [OF h sh'(1)] sh'(2) by simp_all
  show "A \<subseteq> nonwhite m" using sh'(2) by simp
qed

lemma cm_heap_store:
  assumes h: "cm_heap h P" and st: "storable (mem h) a p t v" and h': "stored h a p v h'"
    and v: "snd ` set (gc_ptrs v) \<subseteq> nonwhite (mem h)"
  shows "cm_heap h' P" and "grows (mem h) (mem h')"
proof -
  note D = cm_heapD [OF h] and F = stored_frame [OF h']
  obtain xs where xs: "heap_inv xs h" using D(1) by blast
  obtain b where b: "mem h a = Some b" "mem h' = (mem h)(a \<mapsto> set_data (set_cell p v (data b)) b)"
    using h' by (auto simp: stored_def)
  show "cm_heap h' P"
    using h stored_heap_inv [OF xs st h'] stored_tricolor [OF D(4) st h' v] stored_roots_covered [OF D(6,3) st h' v] F
    by (auto simp: cm_heap_def)
  have "succs (mem h') c \<subseteq> succs (mem h) c \<union> (if c = a then snd ` set (gc_ptrs v) else {})" for c
    unfolding b(2) by (rule storable_ptrs(2) [OF D(3) st b(1)])
  then show "grows (mem h) (mem h')" using v F(5) unfolding grows_def by (fastforce split: if_splits)
qed

section \<open>Steps of a call\<close>

definition set_post :: "addr set \<Rightarrow> set_call \<Rightarrow> heap \<Rightarrow> set_call \<times> heap \<Rightarrow> bool" where
  "set_post Q c h r \<longleftrightarrow>
     cm_heap (snd r) (Q \<union> set (gray_queue (snd r)) \<union> set (local_gray (fst r))) \<and> grows (mem h) (mem (snd r)) \<and>
     call_ok (nonwhite (mem (snd r))) (fst r) \<and>
     n_busy_marking (snd r) + of_bool (registered (spc c)) = n_busy_marking h + of_bool (registered (spc (fst r)))"

lemma set_step_run:
  assumes h: "cm_heap h (Q \<union> set (gray_queue h) \<union> set (local_gray c))" and c: "call_ok (nonwhite (mem h)) c"
    and st: "call_storable c h"
  shows "returns (set_step c h) (set_post Q c h)"
proof (cases "spc c")
  case (Shading qs)
  show ?thesis
  proof (cases qs)
    case (Cons q qs')
    have "ptr_ok (mem h) q" using c Shading Cons st by (auto simp: call_ok_def call_storable_def storable_def)
    then obtain s where s: "mark q (mem h, local_gray c) = ret s" "shades {snd q} (mem h, local_gray c) s"
      using mark_shades [OF cm_heapD(3) [OF h]] by (blast elim: returnsE)
    obtain m lg where ml: "s = (m, lg)" by (cases s)
    note sh = cm_heap_shades [OF h s(2) [unfolded ml]]
    have "call_ok (nonwhite m) (c\<lparr>spc := Shading qs', local_gray := lg\<rparr>)"
      using grows_call_ok [OF sh(2) c] sh(3) Shading Cons by (auto simp: call_ok_def)
    then show ?thesis using s(1) ml Shading Cons sh by (simp add: set_step_def set_post_def)
  qed (use h c Shading in \<open>simp add: set_step_def set_post_def call_ok_def\<close>)
next
  case Registered
  have "set (traced_ptrs (new_value c)) = set (gc_ptrs (new_value c))"
    using st contract_traces_all by (auto simp: call_storable_def storable_def)
  then show ?thesis using h c Registered cm_heapD(2) [OF h] by (simp add: set_step_def set_post_def call_ok_def)
next
  case Merging
  have "cm_heap (h\<lparr>gray_queue := gray_queue h @ local_gray c\<rparr>) (Q \<union> set (gray_queue h) \<union> set (local_gray c))"
    by (rule cm_heap_frame [OF h]) simp_all
  then show ?thesis using c Merging
    by (simp add: set_step_def set_post_def call_ok_def merge_work_def append_to_def Un_assoc)
next
  case Storing
  obtain h' where h': "store_cell h (cell_obj c) (cell_path c) (new_value c) = ret h'"
      "stored h (cell_obj c) (cell_path c) (new_value c) h'"
    using store_cell_run [OF st [unfolded call_storable_def]] by (rule returnsE)
  have v: "snd ` set (gc_ptrs (new_value c)) \<subseteq> nonwhite (mem h)" "local_gray c = []"
    using c Storing by (simp_all add: call_ok_def)
  note store = cm_heap_store [OF h st [unfolded call_storable_def] h'(2) v(1)]
  show ?thesis using h'(1) store v(2) Storing stored_frame [OF h'(2)]
    by (simp add: set_step_def set_post_def call_ok_def)
qed (use h c cm_heap_frame [OF h] in \<open>simp_all add: set_step_def set_post_def call_ok_def decrement_busy_marking_def\<close>)

section \<open>Steps of a marker\<close>

definition marker_post :: "addr set \<Rightarrow> heap \<Rightarrow> marker \<times> heap \<Rightarrow> bool" where
  "marker_post Q h r \<longleftrightarrow>
     cm_heap (snd r) (Q \<union> set (gray_queue (snd r)) \<union> held (fst r)) \<and> grows (mem h) (mem (snd r)) \<and>
     marker_ok (mem (snd r)) (fst r) \<and> n_busy_marking (snd r) = n_busy_marking h"

lemma marker_blackens:
  assumes h: "cm_heap h (Q \<union> set (gray_queue h) \<union> held k)" and k: "marker_ok (mem h) k" and a: "in_hand k = Some a"
  shows "returns (marker_step k h) (marker_post Q h)"
proof -
  let ?P = "Q \<union> set (gray_queue h) \<union> set (work k)"
  have tri: "tricolor (mem h) (insert a ?P)" using cm_heapD(4) [OF h] a by (simp add: held_def)
  obtain b where b: "mem h a = Some b" using tricolorD(2) [OF tri, of a] by blast
  let ?m = "(mem h)(a \<mapsto> set_color 2 b)"
  have "tricolor ?m ?P" using tricolor_blacken [OF tri b] k a by (simp add: marker_ok_def)
  moreover have "nonwhite (mem h) \<subseteq> nonwhite ?m" using b by (auto simp: nonwhite_upd)
  ultimately have "cm_heap (h\<lparr>mem := ?m\<rparr>) ?P" "grows (mem h) ?m"
    using cm_heap_recolored [OF h recolored_upd [of "mem h" a b 2, OF b]] by simp_all
  then show ?thesis using a b by (simp add: marker_step_def blacken_def marker_post_def held_def marker_ok_def)
qed

lemma marker_traces:
  assumes h: "cm_heap h (Q \<union> set (gray_queue h) \<union> held k)" and k: "in_hand k = None" "pop_work (work k) = Some (a, tr)"
  shows "returns (marker_step k h) (marker_post Q h)"
proof -
  have w: "work k = vec_push tr a" using k(2) by (simp add: pop_work_def vec_pop_Some)
  have h': "cm_heap h (insert a Q \<union> set (gray_queue h) \<union> set tr)" using h w k(1) by (simp add: held_def)
  have a: "a \<in> dom (mem h)" using tricolorD(2) [OF cm_heapD(4) [OF h']] by simp
  obtain s where s: "vtable_trace a (mem h, tr) = ret s" "shades (succs (mem h) a) (mem h, tr) s"
    using vt.shades_succs [OF cm_heapD(3) [OF h] a] by (blast elim: returnsE)
  obtain m tr' where mt: "s = (m, tr')" by (cases s)
  note sh = cm_heap_shades [OF h' s(2) [unfolded mt]]
  have "succs m a = succs (mem h) a" using recolored_succs [of "mem h" m] s(2) mt by (simp add: shades_def)
  then show ?thesis
    using s(1) mt sh k by (simp add: marker_step_def marker_post_def held_def marker_ok_def Un_ac)
qed

lemma marker_steals:
  assumes h: "cm_heap h (Q \<union> set (gray_queue h) \<union> held k)" and k: "in_hand k = None" "pop_work (work k) = None"
  shows "returns (marker_step k h) (marker_post Q h)"
proof -
  obtain ok tr q where st: "steal_from (work k) BATCH_SIZE (gray_queue h) = (ok, tr, q)" by (metis prod_cases3)
  have "set tr \<union> set q = set (work k) \<union> set (gray_queue h)" by (rule steal_from_set [OF st])
  then have "Q \<union> set (gray_queue h) \<union> held k = Q \<union> set q \<union> set tr" using k(1) by (auto simp: held_def)
  then have "cm_heap (h\<lparr>gray_queue := q\<rparr>) (Q \<union> set q \<union> set tr)" using cm_heap_frame [OF h] by simp
  then show ?thesis using st k by (simp add: marker_step_def steal_work_def marker_post_def held_def marker_ok_def)
qed

lemma marker_step_run:
  assumes "cm_heap h (Q \<union> set (gray_queue h) \<union> held k)" and "marker_ok (mem h) k"
  shows "returns (marker_step k h) (marker_post Q h)"
proof (cases "in_hand k")
  case None
  then show ?thesis using marker_traces [OF assms(1)] marker_steals [OF assms(1)] by (cases "pop_work (work k)") auto
next
  case (Some a)
  then show ?thesis by (rule marker_blackens [OF assms])
qed

lemma marker_merge_run:
  assumes h: "cm_heap h (Q \<union> set (gray_queue h) \<union> held k)" and k: "in_hand k = None"
  shows "returns (marker_merge k h) (marker_post Q h)"
proof -
  have "cm_heap (h\<lparr>gray_queue := gray_queue h @ work k\<rparr>) (Q \<union> set (gray_queue h) \<union> held k)"
    by (rule cm_heap_frame [OF h]) simp_all
  then show ?thesis using k
    by (simp add: marker_merge_def merge_work_def append_to_def marker_post_def held_def marker_ok_def Un_assoc)
qed

section \<open>Handles\<close>

lemma cm_heap_handle:
  assumes h: "cm_heap h P" and x: "handle_op x" "documented p x h"
  shows "returns (run_op p x h) (\<lambda>h'. cm_heap h' P \<and> grows (mem h) (mem h') \<and> gray_queue h' = gray_queue h \<and>
    n_busy_marking h' = n_busy_marking h)"
proof -
  note D = cm_heapD [OF h]
  obtain a where a: "x = CloneRoot a \<or> x = DropRoot a" using x(1) by (cases x) auto
  then have r: "root_at (mem h) a" using x(2) by auto
  then obtain b where b: "mem h a = Some b" using view_dom(4) by blast
  obtain xs where xs: "heap_inv xs h" using D(1) by blast
  have upd: "cm_heap (h\<lparr>mem := (mem h)(a \<mapsto> set_roots k b)\<rparr>) P \<and> grows (mem h) ((mem h)(a \<mapsto> set_roots k b))" for k
  proof -
    note views = set_roots_views [of "mem h" a b k, OF b]
    have "roots_covered ((mem h)(a \<mapsto> set_roots k b))"
      using D(6) r unfolding roots_covered_def views by auto
    then show ?thesis
      using h heap_inv_set_roots [OF xs b, of k] tricolor_set_roots [of "mem h" P a b k, OF D(4) b] views
      by (auto simp: cm_heap_def grows_def)
  qed
  show ?thesis using a upd b by (auto simp: handle_ops_eq)
qed

section \<open>Steps of all threads\<close>

definition call_rest :: "nat \<Rightarrow> nat \<Rightarrow> nat \<Rightarrow> cm_state \<Rightarrow> addr set" where
  "call_rest nc nm t st = (\<Union>u\<in>{u. u < nc \<and> u \<noteq> t}. set (local_gray (calls st u))) \<union> (\<Union>i<nm. held (markers st i))"

definition marker_rest :: "nat \<Rightarrow> nat \<Rightarrow> nat \<Rightarrow> cm_state \<Rightarrow> addr set" where
  "marker_rest nc nm i st = (\<Union>t<nc. set (local_gray (calls st t))) \<union> (\<Union>j\<in>{j. j < nm \<and> j \<noteq> i}. held (markers st j))"

lemma pending_call:
  assumes "t < nc"
  shows "pending nc nm (st\<lparr>calls := (calls st)(t := c), cheap := h\<rparr>) =
    call_rest nc nm t st \<union> set (gray_queue h) \<union> set (local_gray c)"
proof -
  have "(\<Union>u<nc. set (local_gray (((calls st)(t := c)) u))) =
      (\<Union>u\<in>{u. u < nc \<and> u \<noteq> t}. set (local_gray (calls st u))) \<union> set (local_gray c)"
    using assms by (auto split: if_splits)
  then show ?thesis by (auto simp: pending_def call_rest_def)
qed

lemma pending_marker:
  assumes "i < nm"
  shows "pending nc nm (st\<lparr>markers := (markers st)(i := k), cheap := h\<rparr>) =
    marker_rest nc nm i st \<union> set (gray_queue h) \<union> held k"
proof -
  have "(\<Union>j<nm. held (((markers st)(i := k)) j)) = (\<Union>j\<in>{j. j < nm \<and> j \<noteq> i}. held (markers st j)) \<union> held k"
    using assms by (auto split: if_splits)
  then show ?thesis by (auto simp: pending_def marker_rest_def)
qed

lemma pending_self:
  "t < nc \<Longrightarrow> pending nc nm st = call_rest nc nm t st \<union> set (gray_queue (cheap st)) \<union> set (local_gray (calls st t))"
  "i < nm \<Longrightarrow> pending nc nm st = marker_rest nc nm i st \<union> set (gray_queue (cheap st)) \<union> held (markers st i)"
  using pending_call [where t = t and c = "calls st t" and h = "cheap st" and st = st]
    pending_marker [where i = i and k = "markers st i" and h = "cheap st" and st = st]
  by simp_all

lemma card_remove_bool: "finite B \<Longrightarrow> card B = card (B - {t}) + of_bool (t \<in> B)"
  using card.remove [of B t] by (cases "t \<in> B") simp_all

lemma busy_calls_upd:
  assumes t: "t < nc" and n: "n_busy_marking h = of_nat (card (busy_calls nc st))"
    and n': "n_busy_marking h' + of_bool (registered (spc (calls st t))) = n_busy_marking h + of_bool (registered (spc c))"
  shows "n_busy_marking h' = of_nat (card (busy_calls nc (st\<lparr>calls := (calls st)(t := c), cheap := h'\<rparr>)))"
proof -
  let ?B = "busy_calls nc st" and ?B' = "busy_calls nc (st\<lparr>calls := (calls st)(t := c), cheap := h'\<rparr>)"
  let ?r = "registered (spc (calls st t))" and ?r' = "registered (spc c)"
  have fin: "finite ?B" "finite ?B'" by (simp_all add: busy_calls_def)
  have eq: "?B - {t} = ?B' - {t}" by (auto simp: busy_calls_def)
  have c: "card ?B = card (?B - {t}) + of_bool ?r" "card ?B' = card (?B - {t}) + of_bool ?r'"
    using card_remove_bool [OF fin(1), of t] card_remove_bool [OF fin(2), of t] t unfolding eq by (simp_all add: busy_calls_def)
  show ?thesis
    using n n' unfolding c(1) c(2) by (cases ?r; cases ?r') (auto simp: algebra_simps)
qed

lemma cm_invD:
  assumes "cm_inv nc nm st"
  shows "cm_heap (cheap st) (pending nc nm st)" and "t < nc \<Longrightarrow> call_ok (nonwhite (mem (cheap st))) (calls st t)"
    and "i < nm \<Longrightarrow> marker_ok (mem (cheap st)) (markers st i)"
    and "n_busy_marking (cheap st) = of_nat (card (busy_calls nc st))"
  using assms by (simp_all add: cm_inv_def)

lemma cm_set_step:
  assumes inv: "cm_inv nc nm st" and ok: "cm_allowed nc nm p (SetStep t) st"
  shows "returns (run_cm p (SetStep t) st) (cm_inv nc nm)"
proof -
  note I = cm_invD [OF inv]
  have t: "t < nc" "call_storable (calls st t) (cheap st)" using ok by simp_all
  have "returns (set_step (calls st t) (cheap st)) (set_post (call_rest nc nm t st) (calls st t) (cheap st))"
    using set_step_run [OF _ I(2) [OF t(1)] t(2)] I(1) unfolding pending_self(1) [OF t(1)] by simp
  then show ?thesis unfolding run_cm.simps
  proof (rule returns_bindI)
    fix r assume r: "set_post (call_rest nc nm t st) (calls st t) (cheap st) r"
    obtain c h where ch: "r = (c, h)" by (cases r)
    note R = r [unfolded set_post_def ch fst_conv snd_conv]
    have "cm_inv nc nm (st\<lparr>calls := (calls st)(t := c), cheap := h\<rparr>)"
      unfolding cm_inv_def pending_call [OF t(1)]
      using R I grows_call_ok grows_marker_ok busy_calls_upd [OF t(1) I(4)] by auto
    then show "returns (case r of (c, h) \<Rightarrow> ret (st\<lparr>calls := (calls st)(t := c), cheap := h\<rparr>)) (cm_inv nc nm)"
      using ch by simp
  qed
qed

lemma cm_marker:
  assumes inv: "cm_inv nc nm st" and i: "i < nm" and post: "marker_post (marker_rest nc nm i st) (cheap st) (k, h)"
  shows "cm_inv nc nm (st\<lparr>markers := (markers st)(i := k), cheap := h\<rparr>)"
proof -
  note I = cm_invD [OF inv] and R = post [unfolded marker_post_def fst_conv snd_conv]
  have "busy_calls nc (st\<lparr>markers := (markers st)(i := k), cheap := h\<rparr>) = busy_calls nc st" by (simp add: busy_calls_def)
  then show ?thesis
    unfolding cm_inv_def pending_marker [OF i] using R I grows_call_ok grows_marker_ok by auto
qed

lemma cm_step:
  assumes inv: "cm_inv nc nm st" and ok: "cm_allowed nc nm p e st"
  shows "returns (run_cm p e st) (cm_inv nc nm)"
proof (cases e)
  case (SetStep t)
  then show ?thesis using cm_set_step [OF inv] ok by blast
next
  case (MarkStep i)
  then have i: "i < nm" using ok by simp
  have "returns (marker_step (markers st i) (cheap st)) (marker_post (marker_rest nc nm i st) (cheap st))"
    using marker_step_run [OF _ cm_invD(3) [OF inv i]] cm_invD(1) [OF inv] unfolding pending_self(2) [OF i] by simp
  then show ?thesis unfolding MarkStep run_cm.simps
    by (rule returns_bindI) (use cm_marker [OF inv i] in auto)
next
  case (MarkMerge i)
  then have i: "i < nm" "in_hand (markers st i) = None" using ok by simp_all
  have "returns (marker_merge (markers st i) (cheap st)) (marker_post (marker_rest nc nm i st) (cheap st))"
    using marker_merge_run [OF _ i(2)] cm_invD(1) [OF inv] unfolding pending_self(2) [OF i(1)] by simp
  then show ?thesis unfolding MarkMerge run_cm.simps
    by (rule returns_bindI) (use cm_marker [OF inv i(1)] in auto)
next
  case (Atomic x)
  note I = cm_invD [OF inv]
  have "handle_op x" "documented p x (cheap st)" using ok Atomic by simp_all
  from cm_heap_handle [OF I(1) this] show ?thesis unfolding Atomic run_cm.simps
  proof (rule returns_bindI)
    fix h assume h: "cm_heap h (pending nc nm st) \<and> grows (mem (cheap st)) (mem h) \<and> gray_queue h = gray_queue (cheap st) \<and>
        n_busy_marking h = n_busy_marking (cheap st)"
    then have "pending nc nm (st\<lparr>cheap := h\<rparr>) = pending nc nm st" "busy_calls nc (st\<lparr>cheap := h\<rparr>) = busy_calls nc st"
      by (simp_all add: pending_def busy_calls_def)
    then show "returns (ret (st\<lparr>cheap := h\<rparr>)) (cm_inv nc nm)"
      using h I grows_call_ok grows_marker_ok by (auto simp: cm_inv_def)
  qed
qed

interpretation cm: machine "run_cm p" "cm_allowed nc nm p" "cm_inv nc nm" for p nc nm
  by unfold_locales (rule cm_step)

section \<open>A call that is not interrupted\<close>

lemma set_steps_add: "set_steps (n + k) c h = bind_prog (set_steps n c h) (\<lambda>(c', h'). set_steps k c' h')"
  by (induction n arbitrary: c h) (auto simp: bind_assoc split: prod.splits intro!: bind_cong)

lemma set_steps_shading:
  assumes "for_each mark qs (mem h, lg) = ret (m, lg')"
  shows "set_steps (length qs) (c\<lparr>spc := Shading qs, local_gray := lg\<rparr>) h =
    ret (c\<lparr>spc := Shading [], local_gray := lg'\<rparr>, h\<lparr>mem := m\<rparr>)"
  using assms
proof (induction qs arbitrary: h lg)
  case (Cons q qs)
  then obtain m1 lg1 where s: "mark q (mem h, lg) = ret (m1, lg1)" "for_each mark qs (m1, lg1) = ret (m, lg')"
    by (auto simp: bind_eq_ret_iff)
  then show ?case using Cons.IH [of "h\<lparr>mem := m1\<rparr>" lg1] by (simp add: set_step_def)
qed simp

section \<open>A run of the mark phase\<close>

definition set_of :: "addr \<Rightarrow> val \<Rightarrow> set_call" where
  "set_of a v = \<lparr>cell_obj = a, cell_path = [], cell_ty = TOption (TGcPtr False), new_value = v, spc = Enter, local_gray = []\<rparr>"

definition cm_start :: "(nat \<Rightarrow> set_call) \<Rightarrow> heap \<Rightarrow> cm_state" where
  "cm_start cs h = \<lparr>calls = cs, markers = (\<lambda>_. \<lparr>work = [], in_hand = None\<rparr>), cheap = h\<rparr>"

lemma cm_start_inv:
  assumes gi: "gc_inv h" and mk: "is_marking h" and cs: "\<And>t. t < nc \<Longrightarrow> spc (cs t) = Enter \<and> local_gray (cs t) = []"
  shows "cm_inv nc nm (cm_start cs h)"
proof -
  have ms: "marking_state h" by (rule gc_inv_marking [OF gi mk])
  have "pending nc nm (cm_start cs h) = set (gray_queue h)" using cs by (simp add: pending_def cm_start_def held_def)
  moreover have "busy_calls nc (cm_start cs h) = {}" using cs by (auto simp: busy_calls_def cm_start_def)
  ultimately show ?thesis
    using gi ms cs by (simp add: cm_inv_def cm_start_def cm_heap_def gc_inv_def marking_state_def call_ok_def marker_ok_def)
qed

lemma cm_end:
  assumes inv: "cm_inv nc nm st" and nc: "nc < 2 ^ 64" and busy: "n_busy_marking (cheap st) = 0"
    and idle: "\<And>i. i < nm \<Longrightarrow> work (markers st i) = [] \<and> in_hand (markers st i) = None"
  shows "gc_inv (cheap st)"
proof -
  note I = cm_invD [OF inv]
  have "card (busy_calls nc st) \<le> nc" using card_mono [of "{..<nc}" "busy_calls nc st"] by (auto simp: busy_calls_def)
  moreover have "unat (of_nat (card (busy_calls nc st)) :: usize) = 0" using I(4) busy by simp
  then have "card (busy_calls nc st) mod 2 ^ 64 = 0" by (simp add: unat_of_nat)
  ultimately have "card (busy_calls nc st) = 0" using nc by simp
  then have "\<not> registered (spc (calls st t))" if "t < nc" for t using that by (auto simp: busy_calls_def)
  moreover have "local_gray c = []" if "call_ok W c" "\<not> registered (spc c)" for W c
    using that by (auto simp: call_ok_def split: set_pc.splits)
  ultimately have "local_gray (calls st t) = []" if "t < nc" for t using that I(2) by blast
  then have "pending nc nm st = set (gray_queue (cheap st))" using idle by (simp add: pending_def held_def)
  then show ?thesis using I(1) busy by (simp add: cm_heap_def gc_inv_def marking_state_def)
qed

text \<open>
  Two calls of \<open>set\<close> and a marker, on a heap whose mark phase has just begun: the cell at 2 gets the white node at 3, the
  cell at 4 the white node at 5, while the marker scans the cells.
\<close>

definition cm_heap_ops :: "operation list" where
  "cm_heap_ops =
     [Allocate 5 Node 48 (node_val 5 None), Allocate 3 Node 48 (node_val 3 None), Allocate 4 CellObj 48 (cell_new VNone),
      Allocate 2 CellObj 48 (cell_new VNone), StartMarking]"

definition cm_calls :: "nat \<Rightarrow> set_call" where
  "cm_calls t = (if t = 0 then set_of 2 (VSome (VPtr False 3)) else set_of 4 (VSome (VPtr False 5)))"

definition cm_run_example :: "cm_event list" where
  "cm_run_example =
     [SetStep 0, SetStep 1, MarkStep 0, SetStep 0, MarkStep 0, SetStep 0, SetStep 1, MarkStep 0, SetStep 1, Atomic (DropRoot 3),
      SetStep 0, SetStep 0, SetStep 0, MarkStep 0, SetStep 0, MarkStep 0, MarkMerge 0, SetStep 1, SetStep 1, SetStep 1, SetStep 1]"

text \<open>What the type checker, the documented contracts and the discipline of \<open>Mutator\<close> ask of an event.\<close>

fun cm_documented :: "profile \<Rightarrow> cm_event \<Rightarrow> cm_state \<Rightarrow> bool" where
  "cm_documented p (SetStep t) st = call_storable (calls st t) (cheap st)"
| "cm_documented p (MarkStep i) st = True"
| "cm_documented p (MarkMerge i) st = (in_hand (markers st i) = None)"
| "cm_documented p (Atomic x) st = allowed p x (cheap st)"

text \<open>
  The cell at 4 holds the only pointer to the node at 3. A call that moves it into the cell at 2 finds the heap idle and backs
  out; then a mark phase begins, another thread clears the cell at 4, and both cells are scanned before the
  call stores.
\<close>

definition stale_check_run :: "cm_event list" where
  "stale_check_run =
     [Atomic (Allocate 3 Node 48 (node_val 3 None)), Atomic (Allocate 4 CellObj 48 (cell_new (VSome (VPtr False 3)))),
      Atomic (Allocate 2 CellObj 48 (cell_new VNone)), Atomic (DropRoot 3),
      SetStep 0, SetStep 0, SetStep 0, Atomic StartMarking, Atomic (SetCell 4 [] (TOption (TGcPtr False)) VNone),
      Atomic (MarkIncrement 10), SetStep 0, Atomic SweepAndFinish]"

lemmas cm_checks = set_step_def marker_step_def marker_merge_def call_storable_def set_of_def cm_start_def cm_calls_def

lemma cm_example_heap:
  "\<exists>h. run_ops (run_op Release) cm_heap_ops (heap_init options_DEFAULT) = ret h \<and>
     all_allowed (run_op Release) (allowed Release) cm_heap_ops (heap_init options_DEFAULT) \<and> is_marking h \<and>
     all_allowed (run_cm Release) (cm_allowed 2 1 Release) cm_run_example (cm_start cm_calls h)"
  by (simp add: cm_heap_ops_def cm_run_example_def cm_checks exec op_checks CellObj_def)

section \<open>Properties\<close>

text \<open>
  C5: marking by several threads while others set cells. Take a heap in a mark phase, any number of calls of \<open>set\<close> that
  have not begun and any number of idle markers, and let the atomic steps of all of them interleave in any
  order, with handles cloned and dropped in between. Every step succeeds, the heap stays well formed and no reachable
  object is lost; and when the busy counter is zero, the markers have nothing left and the queue is empty, the
  sweep keeps everything that is reachable.
\<close>

theorem concurrent_marking_safe:
  assumes "gc_reachable p o' h" and "incremental_work_budget o' \<noteq> 0" and "is_marking h" and "nc < 2 ^ 64"
    and "\<And>t. t < nc \<Longrightarrow> spc (cs t) = Enter \<and> local_gray (cs t) = []"
    and "all_allowed (run_cm p) (cm_allowed nc nm p) es (cm_start cs h)"
  shows "\<exists>st. run_ops (run_cm p) es (cm_start cs h) = ret st \<and> (\<exists>xs. heap_inv xs (cheap st)) \<and>
    reach (mem (cheap st)) \<subseteq> dom (mem (cheap st)) \<and>
    (n_busy_marking (cheap st) = 0 \<and> (\<forall>i<nm. work (markers st i) = [] \<and> in_hand (markers st i) = None) \<and>
     gray_queue (cheap st) = [] \<and> pacing_safe p (cheap st) \<longrightarrow>
       (\<exists>h'. run_op p SweepAndFinish (cheap st) = ret h' \<and> reach (mem (cheap st)) \<subseteq> dom (mem h')))"
proof -
  have "cm_inv nc nm (cm_start cs h)"
    using cm_start_inv [OF gc_reachable_inv [OF assms(1,2)] assms(3)] assms(5) by blast
  from cm.run_ops_inv [OF this assms(6)] obtain st
    where run: "run_ops (run_cm p) es (cm_start cs h) = ret st" and inv: "cm_inv nc nm st" by (rule returnsE)
  note D = cm_heapD [OF cm_invD(1) [OF inv]]
  have "\<exists>h'. run_op p SweepAndFinish (cheap st) = ret h' \<and> reach (mem (cheap st)) \<subseteq> dom (mem h')"
    if e: "n_busy_marking (cheap st) = 0" "\<forall>i<nm. work (markers st i) = [] \<and> in_hand (markers st i) = None"
      "gray_queue (cheap st) = []" "pacing_safe p (cheap st)"
  proof -
    have "gc_inv (cheap st)" using cm_end [OF inv assms(4) e(1)] e(2) by blast
    moreover have "allowed p SweepAndFinish (cheap st)" using D(2) e(3,4) by simp
    ultimately have "returns (run_op p SweepAndFinish (cheap st)) (safe_from (cheap st))" by (rule run_op_safe)
    then show ?thesis by (auto simp: returns_iff safe_from_def simp del: run_op.simps)
  qed
  moreover have "reach (mem (cheap st)) \<subseteq> dom (mem (cheap st))" using reach_dom [OF _ D(3)] by blast
  ultimately show ?thesis using run D(1) by (intro exI [of _ st]) blast
qed

theorem concurrent_marking_safe_witness:
  "\<exists>h st. run_ops (run_op Release) cm_heap_ops (heap_init options_DEFAULT) = ret h \<and>
     run_ops (run_cm Release) cm_run_example (cm_start cm_calls h) = ret st \<and> (\<exists>xs. heap_inv xs (cheap st))"
proof -
  obtain h where h: "run_ops (run_op Release) cm_heap_ops (heap_init options_DEFAULT) = ret h"
      "all_allowed (run_op Release) (allowed Release) cm_heap_ops (heap_init options_DEFAULT)" "is_marking h"
      "all_allowed (run_cm Release) (cm_allowed 2 1 Release) cm_run_example (cm_start cm_calls h)"
    using cm_example_heap by (elim exE conjE)
  have "gc_reachable Release options_DEFAULT h" by (rule gc_reachable_run [OF gc_reachable.init h(2,1)])
  moreover have "incremental_work_budget options_DEFAULT \<noteq> 0" by (simp add: options_DEFAULT_def)
  moreover have "(2 :: nat) < 2 ^ 64" by simp
  moreover have "spc (cm_calls t) = Enter \<and> local_gray (cm_calls t) = []" for t by (simp add: cm_calls_def set_of_def)
  ultimately show ?thesis using concurrent_marking_safe [of Release options_DEFAULT h 2 cm_calls 1 cm_run_example] h by blast
qed

text \<open>
  C21: the steps refine the call. A call of \<open>set\<close> whose steps no other thread interrupts does to the heap and to the tracer of
  its context exactly what \<open>cell_set\<close> does, on a heap that is marking and on one that is not.
\<close>

theorem set_steps_refine:
  assumes "spc c = Enter" and "cell_set h (Some (local_gray c)) (cell_obj c) (cell_path c) (new_value c) = ret (h', Some lg)"
  shows "\<exists>n. set_steps n c h = ret (c\<lparr>spc := Returned, local_gray := lg\<rparr>, h')"
proof (cases "is_marking h")
  case False
  then have "set_steps 4 c h = ret (c\<lparr>spc := Returned, local_gray := lg\<rparr>, h')"
    using assms by (auto simp: numeral_eq_Suc set_step_def is_marking_def cell_set_def write_barrier_def
        check_is_marking_and_increment_busy_def bind_eq_ret_iff)
  then show ?thesis ..
next
  case True
  let ?h1 = "h\<lparr>n_busy_marking := n_busy_marking h + 1\<rparr>" and ?qs = "traced_ptrs (new_value c)"
  obtain m l1 where tr: "for_each mark ?qs (mem h, local_gray c) = ret (m, l1)"
    and st: "store_cell (decrement_busy_marking (?h1\<lparr>mem := m, gray_queue := gray_queue h @ l1\<rparr>)) (cell_obj c) (cell_path c)
        (new_value c) = ret h'"
    and lg: "lg = []"
    using assms(2) True by (auto simp: cell_set_def write_barrier_def check_is_marking_and_increment_busy_def is_marking_def
        trace_eq_marks merge_work_def append_to_def bind_eq_ret_iff)
  have "set_steps 2 c h = ret (c\<lparr>spc := Shading ?qs\<rparr>, ?h1)"
    using assms(1) True by (simp add: numeral_eq_Suc set_step_def is_marking_def)
  moreover have "set_steps (length ?qs) (c\<lparr>spc := Shading ?qs\<rparr>) ?h1 =
      ret (c\<lparr>spc := Shading [], local_gray := l1\<rparr>, ?h1\<lparr>mem := m\<rparr>)"
    using set_steps_shading [of ?qs ?h1 "local_gray c" m l1 c] tr by simp
  moreover have "set_steps 4 (c\<lparr>spc := Shading [], local_gray := l1\<rparr>) (?h1\<lparr>mem := m\<rparr>) =
      ret (c\<lparr>spc := Returned, local_gray := lg\<rparr>, h')"
    using st lg by (simp add: numeral_eq_Suc set_step_def merge_work_def append_to_def)
  ultimately have "set_steps (2 + (length ?qs + 4)) c h = ret (c\<lparr>spc := Returned, local_gray := lg\<rparr>, h')"
    unfolding set_steps_add by simp
  then show ?thesis ..
qed

theorem set_steps_refine_witness:
  "\<exists>n h' lg. cell_set cell_heap (Some []) 2 [] (VSome (VPtr False 3)) = ret (h', Some lg) \<and>
     set_steps n (set_of 2 (VSome (VPtr False 3))) cell_heap =
       ret ((set_of 2 (VSome (VPtr False 3)))\<lparr>spc := Returned, local_gray := lg\<rparr>, h')"
proof -
  let ?c = "set_of 2 (VSome (VPtr False 3))"
  obtain h' lg where c: "cell_set cell_heap (Some (local_gray ?c)) (cell_obj ?c) (cell_path ?c) (new_value ?c) = ret (h', Some lg)"
    by (simp add: set_of_def cell_heap_def exec)
  moreover have "spc ?c = Enter" by (simp add: set_of_def)
  ultimately show ?thesis using set_steps_refine [of ?c cell_heap h' lg] by (simp add: set_of_def)
qed

text \<open>
  C17: the check of the phase can be stale. Every event of this run is within the discipline, atomic calls and the steps of \<open>set\<close>
  alike; but the mark phase begins between the check of one call and its store. The store puts a white object
  into a scanned one without shading it, and the sweep frees it: a rooted cell points to freed memory.
\<close>

theorem stale_check_unsafe:
  "all_allowed (run_cm Release) (cm_documented Release) stale_check_run
     (cm_start (\<lambda>_. set_of 2 (VSome (VPtr False 3))) (heap_init options_DEFAULT)) \<and>
   (\<exists>st. run_ops (run_cm Release) stale_check_run
        (cm_start (\<lambda>_. set_of 2 (VSome (VPtr False 3))) (heap_init options_DEFAULT)) = ret st \<and>
      root_at (mem (cheap st)) 2 \<and> 3 \<in> succs (mem (cheap st)) 2 \<and>
      gc_ptr_read (mem (cheap st)) 3 = raise (UseAfterFree 3))"
  by (intro conjI) (simp_all add: stale_check_run_def cm_checks exec op_checks gc_ptr_read_def CellObj_def)

end
