(* ===== verification/Concurrent_Sweep.thy ===== *)
theory Concurrent_Sweep
  imports Mutator
begin

text \<open>
  The sweep of \<open>src/src/heap.rs\<close> step by step, beside threads that go on working. \<open>do_sweep\<close> is a thread with a
  program counter and its local variables: it stores the phase, loads the head, and then for each object of the list first
  reads its link and its colour and root count, and after that unlinks and drops it or makes it white again; at the end it
  subtracts what it freed and stores the phase. Between two steps any thread may call an operation of \<open>Mutator\<close>.

  During the sweep the write barrier is off, and objects that were allocated while the heap was marking are white. The invariant
  says what keeps the sweep safe all the same: nothing but garbage points to a white object ahead of the cursor. It holds when the
  mark phase is over, and it survives every operation that does not store or root such an object; the first theorem makes this
  precise, the last one shows a store of such an object.
\<close>

section \<open>The sweeping thread\<close>

datatype sweep_pc =
    StartSweep | LoadHead | Examine | Unlink addr "addr option" | Reset addr "addr option" | Subtract | FinishGc | SweepDone

record sw_state =
  swpc :: sweep_pc
  prev_next :: link
  current :: "addr option"
  freed :: usize
  allocated :: usize
  sheap :: heap

definition sweep_step :: "profile \<Rightarrow> sw_state \<Rightarrow> sw_state prog" where
  "sweep_step p st =
     (let h = sheap st
      in case swpc st of
           StartSweep \<Rightarrow> ret (st\<lparr>swpc := LoadHead, freed := 0, sheap := start_sweeping h\<rparr>)
         | LoadHead \<Rightarrow> ret (st\<lparr>swpc := Examine, current := head h, prev_next := HeadLink\<rparr>)
         | Examine \<Rightarrow>
             (case current st of
                None \<Rightarrow> ret (st\<lparr>swpc := Subtract\<rparr>)
              | Some a \<Rightarrow>
                  bind_prog (deref (mem h) a) (\<lambda>b.
                  ret (st\<lparr>swpc := if header_is_white (header b) then Unlink a (nxt (header b))
                                  else Reset a (nxt (header b))\<rparr>)))
         | Unlink a n \<Rightarrow>
             bind_prog (deref (mem h) a) (\<lambda>b.
             bind_prog (store_link (prev_next st) n (mem h, head h)) (\<lambda>s1.
             bind_prog (drop_impl (fst s1) a) (\<lambda>m2.
             bind_prog (add_usize p (freed st) (vt_size (vtable (header b)))) (\<lambda>freed1.
             ret (st\<lparr>swpc := Examine, current := n, freed := freed1, sheap := h\<lparr>mem := m2, head := snd s1\<rparr>\<rparr>)))))
         | Reset a n \<Rightarrow>
             bind_prog (deref (mem h) a) (\<lambda>b.
             ret (st\<lparr>swpc := Examine, prev_next := NextLink a, current := n,
                     sheap := h\<lparr>mem := (mem h)(a \<mapsto> set_color (reset_white (color (header b))) b)\<rparr>\<rparr>))
         | Subtract \<Rightarrow>
             bind_prog (sub_usize p (bytes_allocated h) (freed st)) (\<lambda>n.
             ret (st\<lparr>swpc := FinishGc, allocated := n, sheap := h\<lparr>bytes_allocated := bytes_allocated h - freed st\<rparr>\<rparr>))
         | FinishGc \<Rightarrow> ret (st\<lparr>swpc := SweepDone, sheap := finish_gc h\<rparr>)
         | SweepDone \<Rightarrow> ret st)"

definition sw_start :: "heap \<Rightarrow> sw_state" where
  "sw_start h = \<lparr>swpc = StartSweep, prev_next = HeadLink, current = None, freed = 0, allocated = 0, sheap = h\<rparr>"

primrec sweep_steps :: "nat \<Rightarrow> profile \<Rightarrow> sw_state \<Rightarrow> sw_state prog" where
  "sweep_steps 0 p st = ret st"
| "sweep_steps (Suc n) p st = bind_prog (sweep_step p st) (sweep_steps n p)"

section \<open>The other threads\<close>

datatype sw_event = SweepStep | Thread operation

fun run_sw :: "profile \<Rightarrow> sw_event \<Rightarrow> sw_state \<Rightarrow> sw_state prog" where
  "run_sw p SweepStep st = sweep_step p st"
| "run_sw p (Thread x) st = bind_prog (run_op p x (sheap st)) (\<lambda>h. ret (st\<lparr>sheap := h\<rparr>))"

text \<open>Where the part of the list begins that the sweep has not examined yet, and the objects of that part.\<close>

definition cursor :: "sw_state \<Rightarrow> addr option" where
  "cursor st =
     (case swpc st of
        StartSweep \<Rightarrow> head (sheap st) | LoadHead \<Rightarrow> head (sheap st) | Examine \<Rightarrow> current st | Unlink a n \<Rightarrow> Some a
      | Reset a n \<Rightarrow> n | Subtract \<Rightarrow> None | FinishGc \<Rightarrow> None | SweepDone \<Rightarrow> None)"

partial_function (option) list_from :: "mem \<Rightarrow> addr option \<Rightarrow> addr list prog" where
  "list_from m p =
     (case p of
        None \<Rightarrow> ret []
      | Some a \<Rightarrow> bind_prog (deref m a) (\<lambda>b. bind_prog (list_from m (nxt (header b))) (\<lambda>as. ret (a # as))))"

definition ahead :: "sw_state \<Rightarrow> addr list" where
  "ahead st = (case list_from (mem (sheap st)) (cursor st) of Some (Inr as) \<Rightarrow> as | _ \<Rightarrow> [])"

definition white_ahead :: "sw_state \<Rightarrow> addr list" where
  "white_ahead st = filter (white_at (mem (sheap st))) (ahead st)"

text \<open>
  The discipline. A value that is stored or allocated has no pointer to a white object ahead of the sweep; an object that is
  rooted through a pointer is not garbage; and no allocation falls between the load of the head and the first object kept,
  because the sweep would overwrite the head (\<open>sweep_loses_allocation\<close> of \<open>Insertion\<close>).
\<close>

definition head_exposed :: "sw_state \<Rightarrow> bool" where
  "head_exposed st \<longleftrightarrow> swpc st \<noteq> LoadHead \<and> prev_next st = HeadLink \<and> cursor st \<noteq> None"

definition passes :: "sw_state \<Rightarrow> val \<Rightarrow> bool" where
  "passes st v \<longleftrightarrow> snd ` set (gc_ptrs v) \<inter> set (white_ahead st) = {}"

fun no_hazard :: "operation \<Rightarrow> sw_state \<Rightarrow> bool" where
  "no_hazard (Allocate a t sz v) st = (passes st v \<and> \<not> head_exposed st)"
| "no_hazard (RootPtr a) st = (a \<in> set (white_ahead st) \<longrightarrow> root_at (mem (sheap st)) a)"
| "no_hazard (SetCell a pth t v) st = passes st v"
| "no_hazard (CloneRoot a) st = True"
| "no_hazard (DropRoot a) st = True"
| "no_hazard (MarkIncrement n) st = False"
| "no_hazard SweepAndFinish st = False"
| "no_hazard x st = (swpc st \<noteq> SweepDone)"

fun sw_allowed :: "profile \<Rightarrow> sw_event \<Rightarrow> sw_state \<Rightarrow> bool" where
  "sw_allowed p SweepStep st = True"
| "sw_allowed p (Thread x) st = (swpc st \<noteq> StartSweep \<and> documented p x (sheap st) \<and> no_hazard x st)"

text \<open>Without the last two conditions.\<close>

fun sw_documented :: "profile \<Rightarrow> sw_event \<Rightarrow> sw_state \<Rightarrow> bool" where
  "sw_documented p SweepStep st = True"
| "sw_documented p (Thread x) st = documented p x (sheap st)"

lemma list_from_exec [exec]:
  "list_from m None = ret []"
  "list_from m (Some a) =
     bind_prog (deref m a) (\<lambda>b. bind_prog (list_from m (nxt (header b))) (\<lambda>as. ret (a # as)))"
  by (simp_all add: list_from.simps)

lemma chain_list_from: "chain m p xs \<Longrightarrow> list_from m p = ret xs"
  by (induction xs arbitrary: p) (auto simp: list_from_exec)

lemmas sw_checks = sweep_step_def sw_start_def cursor_def ahead_def white_ahead_def head_exposed_def passes_def

section \<open>The memory during a sweep\<close>

text \<open>
  \<open>T\<close> is the part of the list that is not examined. A white object there without a root will be freed, and only such an
  object may have pointers that dangle or lead to a white object in \<open>T\<close>.
\<close>

definition sw_ok :: "mem \<Rightarrow> addr set \<Rightarrow> bool" where
  "sw_ok m T \<longleftrightarrow>
     (\<forall>a b. m a = Some b \<longrightarrow> box_ok b \<and>
        (a \<notin> T \<or> kept m a \<longrightarrow> (\<forall>q\<in>set (gc_ptrs (data b)). ptr_ok m q \<and> \<not> (snd q \<in> T \<and> white_at m (snd q)))))"

lemma sw_okD:
  assumes "sw_ok m T" and "m a = Some b"
  shows "box_ok b"
    and "a \<notin> T \<or> kept m a \<Longrightarrow> q \<in> set (gc_ptrs (data b)) \<Longrightarrow> ptr_ok m q \<and> \<not> (snd q \<in> T \<and> white_at m (snd q))"
  using assms unfolding sw_ok_def by blast+

lemma sw_okI:
  assumes "\<And>a b. m a = Some b \<Longrightarrow> box_ok b"
    and "\<And>a b q. m a = Some b \<Longrightarrow> a \<notin> T \<or> kept m a \<Longrightarrow> q \<in> set (gc_ptrs (data b)) \<Longrightarrow>
      ptr_ok m q \<and> \<not> (snd q \<in> T \<and> white_at m (snd q))"
  shows "sw_ok m T"
  using assms unfolding sw_ok_def by blast

lemma sw_ok_empty: "sw_ok m {} \<longleftrightarrow> mem_ok m"
  by (simp add: sw_ok_def mem_ok_def)

lemma sw_ok_reach:
  assumes "sw_ok m T"
  shows "reach m \<subseteq> {a \<in> dom m. a \<notin> T \<or> kept m a}"
proof (rule reach_least)
  show "a \<in> {a \<in> dom m. a \<notin> T \<or> kept m a}" if "root_at m a" for a
    using that view_dom(4) [OF that] by (simp add: kept_def)
  show "succs m a \<subseteq> {a \<in> dom m. a \<notin> T \<or> kept m a}" if a: "a \<in> {a \<in> dom m. a \<notin> T \<or> kept m a}" for a
  proof -
    obtain b where b: "m a = Some b" "a \<notin> T \<or> kept m a" using a by blast
    then show ?thesis using sw_okD(2) [OF assms b] by (fastforce simp: succs_def ptr_ok_def kept_def)
  qed
qed

text \<open>At the end of marking every object that stays points to marked objects only.\<close>

lemma sw_ok_start:
  assumes ok: "mem_ok m" and "\<And>a. a \<in> dom m \<Longrightarrow> kept m a \<Longrightarrow> succs m a \<subseteq> nonwhite m" and T: "T = dom m"
  shows "sw_ok m T"
proof (rule sw_okI)
  show "box_ok b" if "m a = Some b" for a b using mem_okD(1) [OF ok that] .
  show "ptr_ok m q \<and> \<not> (snd q \<in> T \<and> white_at m (snd q))"
    if b: "m a = Some b" and k: "a \<notin> T \<or> kept m a" and q: "q \<in> set (gc_ptrs (data b))" for a b q
  proof -
    have "snd q \<in> succs m a" using b q by (simp add: succs_def)
    moreover have "a \<in> dom m" "kept m a" using b k T by auto
    ultimately have "snd q \<in> nonwhite m" using assms(2) by blast
    then show ?thesis using mem_okD(2) [OF ok b q] by (simp add: nonwhite_def)
  qed
qed

lemma sw_ok_pass: "sw_ok m T \<Longrightarrow> kept m a \<Longrightarrow> sw_ok m (T - {a})"
  by (rule sw_okI) (use sw_okD in blast)+

text \<open>Changing root count, data, link or colour of one box.\<close>

lemma sw_ok_update:
  assumes ok: "sw_ok m T" and b: "m a = Some b" and c: "box_ok c" "vtable (header c) = vtable (header b)"
    and w: "a \<in> T \<Longrightarrow> color (header c) = color (header b)"
    and r: "a \<in> T \<Longrightarrow> kept (m(a \<mapsto> c)) a \<Longrightarrow> kept m a"
    and q: "\<And>q. a \<notin> T \<or> kept m a \<Longrightarrow> q \<in> set (gc_ptrs (data c)) \<Longrightarrow> ptr_ok m q \<and> \<not> (snd q \<in> T \<and> white_at m (snd q))"
  shows "sw_ok (m(a \<mapsto> c)) T"
proof -
  let ?n = "m(a \<mapsto> c)"
  have p: "ptr_ok ?n q = ptr_ok m q" for q using b c(2) by (auto simp: ptr_ok_def leaf_at_def)
  have wt: "snd q \<in> T \<and> white_at ?n (snd q) \<longleftrightarrow> snd q \<in> T \<and> white_at m (snd q)" for q
    using b w by (auto simp: white_at_def)
  show ?thesis
  proof (rule sw_okI)
    show "box_ok d" if "?n x = Some d" for x d using that c(1) sw_okD(1) [OF ok] by (auto split: if_splits)
    show "ptr_ok ?n q \<and> \<not> (snd q \<in> T \<and> white_at ?n (snd q))"
      if x: "?n x = Some d" and k: "x \<notin> T \<or> kept ?n x" and i: "q \<in> set (gc_ptrs (data d))" for x d q
    proof (cases "x = a")
      case True
      then show ?thesis using q [of q] r k x i unfolding p wt by auto
    next
      case False
      then have "m x = Some d" "x \<notin> T \<or> kept m x" using x k by (auto simp: kept_def)
      then show ?thesis using sw_okD(2) [OF ok] i unfolding p wt by blast
    qed
  qed
qed

lemma sw_ok_relinked:
  assumes ok: "sw_ok m T" and sw: "swept {} m n"
  shows "sw_ok n T"
proof -
  have d: "\<exists>k. n a = map_option (set_nxt k) (m a)" for a
    using sweptD(1,4) [OF sw, of a] by (cases "m a") auto
  have so: "same_objs m n" unfolding same_objs_def
  proof
    show "rel_option same_obj (m a) (n a)" for a
      using d [of a] by (cases "m a") (auto simp: same_obj_def)
  qed
  have wt: "white_at n = white_at m"
  proof
    show "white_at n a = white_at m a" for a using d [of a] by (cases "m a") (auto simp: white_at_def)
  qed
  have k: "kept n = kept m" using wt same_objs_views(1) [OF so] by (simp add: kept_def fun_eq_iff)
  show ?thesis
  proof (rule sw_okI)
    fix a b assume b: "n a = Some b"
    then obtain c j where c: "m a = Some c" "b = set_nxt j c" using d [of a] by (cases "m a") auto
    show "box_ok b" using sw_okD(1) [OF ok c(1)] c(2) by (simp add: box_ok_def)
    show "ptr_ok n q \<and> \<not> (snd q \<in> T \<and> white_at n (snd q))" if "a \<notin> T \<or> kept n a" "q \<in> set (gc_ptrs (data b))" for q
      using sw_okD(2) [OF ok c(1)] that c(2) unfolding wt k same_objs_ptr_ok [OF so, symmetric] by simp
  qed
qed

lemma sw_ok_drop:
  assumes ok: "sw_ok m T" and a: "a \<in> T" "\<not> kept m a"
  shows "sw_ok (m(a := None)) (T - {a})"
proof (rule sw_okI)
  fix c b assume "(m(a := None)) c = Some b"
  then have c: "m c = Some b" "c \<noteq> a" by (auto split: if_splits)
  show "box_ok b" by (rule sw_okD(1) [OF ok c(1)])
  show "ptr_ok (m(a := None)) q \<and> \<not> (snd q \<in> T - {a} \<and> white_at (m(a := None)) (snd q))"
    if k: "c \<notin> T - {a} \<or> kept (m(a := None)) c" and q: "q \<in> set (gc_ptrs (data b))" for q
  proof -
    have "c \<notin> T \<or> kept m c" using k c(2) by (auto simp: kept_def)
    then have "ptr_ok m q \<and> \<not> (snd q \<in> T \<and> white_at m (snd q))" using sw_okD(2) [OF ok c(1)] q by blast
    moreover from this have "snd q \<noteq> a" using a by (auto simp: kept_def)
    ultimately show ?thesis by (auto simp: ptr_ok_def)
  qed
qed

lemma sw_ok_fresh:
  assumes ok: "sw_ok m T" and a: "m a = None" "T \<subseteq> dom m" and c: "box_ok c" "is_root (header c)"
    and q: "\<And>q. q \<in> set (gc_ptrs (data c)) \<Longrightarrow> ptr_ok m q \<and> \<not> (snd q \<in> T \<and> white_at m (snd q))"
    and T: "T \<subseteq> T'" "T' \<subseteq> insert a T"
  shows "sw_ok (m(a \<mapsto> c)) T'"
proof (rule sw_okI)
  let ?n = "m(a \<mapsto> c)"
  have lift: "ptr_ok ?n q \<and> \<not> (snd q \<in> T' \<and> white_at ?n (snd q))" if "ptr_ok m q \<and> \<not> (snd q \<in> T \<and> white_at m (snd q))" for q
  proof -
    have "snd q \<noteq> a" using that a(1) by (auto simp: ptr_ok_def)
    then show ?thesis using that ptr_ok_mono [of m q a c] a(1) T(2) by auto
  qed
  fix x d assume x: "?n x = Some d"
  show "box_ok d" using x c(1) sw_okD(1) [OF ok] by (auto split: if_splits)
  show "ptr_ok ?n q \<and> \<not> (snd q \<in> T' \<and> white_at ?n (snd q))" if k: "x \<notin> T' \<or> kept ?n x" and i: "q \<in> set (gc_ptrs (data d))" for q
  proof (cases "x = a")
    case True
    then show ?thesis using x i q by (intro lift) auto
  next
    case False
    then have "m x = Some d" "x \<notin> T \<or> kept m x" using x k T by (auto simp: kept_def)
    then show ?thesis using sw_okD(2) [OF ok] i by (intro lift) blast
  qed
qed

section \<open>Invariant\<close>

definition sw_link :: "addr list \<Rightarrow> addr list \<Rightarrow> sw_state \<Rightarrow> bool" where
  "sw_link dn rest st \<longleftrightarrow> (rest \<noteq> [] \<longrightarrow> prev_next st = link_of dn)"

definition sw_pc_ok :: "addr list \<Rightarrow> addr list \<Rightarrow> sw_state \<Rightarrow> bool" where
  "sw_pc_ok dn rest st \<longleftrightarrow>
     (case swpc st of
        StartSweep \<Rightarrow> dn = [] \<and> freed st = 0
      | LoadHead \<Rightarrow> dn = []
      | Examine \<Rightarrow> sw_link dn rest st
      | Unlink a n \<Rightarrow> sw_link dn rest st \<and> \<not> kept (mem (sheap st)) a \<and> (\<exists>b. mem (sheap st) a = Some b \<and> nxt (header b) = n)
      | Reset a n \<Rightarrow> dn \<noteq> [] \<and> last dn = a
      | _ \<Rightarrow> True) \<and>
     phase (sheap st) = phase_as_u8 (case swpc st of StartSweep \<Rightarrow> Marking | SweepDone \<Rightarrow> Idle | _ \<Rightarrow> Sweeping)"

text \<open>The list is a swept part \<open>dn\<close>, which is white but for an object about to be reset, and the rest from the cursor on.\<close>

definition sw_heap :: "addr list \<Rightarrow> addr list \<Rightarrow> sw_state \<Rightarrow> bool" where
  "sw_heap dn rest st \<longleftrightarrow>
     chain (mem (sheap st)) (head (sheap st)) (dn @ rest) \<and> chain (mem (sheap st)) (cursor st) rest \<and>
     set (dn @ rest) = dom (mem (sheap st)) \<and> sw_ok (mem (sheap st)) (set rest) \<and>
     (\<forall>c\<in>set dn. white_at (mem (sheap st)) c \<or> (\<exists>n. swpc st = Reset c n)) \<and>
     unat (bytes_allocated (sheap st)) =
       (\<Sum>a\<leftarrow>dn @ rest. unat (size_at (mem (sheap st)) a)) + (if swpc st = FinishGc \<or> swpc st = SweepDone then 0 else unat (freed st))"

definition sw_frame :: "heap \<Rightarrow> bool" where
  "sw_frame h \<longleftrightarrow> gray_queue h = [] \<and> n_busy_marking h = 0 \<and> incremental_work_budget (options h) \<noteq> 0"

definition sw_inv :: "sw_state \<Rightarrow> bool" where
  "sw_inv st \<longleftrightarrow> sw_frame (sheap st) \<and> (\<exists>dn rest. sw_heap dn rest st \<and> sw_pc_ok dn rest st)"

lemma sw_heapD:
  assumes "sw_heap dn rest st"
  shows "chain (mem (sheap st)) (head (sheap st)) (dn @ rest)" and "chain (mem (sheap st)) (cursor st) rest"
    and "set (dn @ rest) = dom (mem (sheap st))" and "sw_ok (mem (sheap st)) (set rest)"
    and "c \<in> set dn \<Longrightarrow> white_at (mem (sheap st)) c \<or> (\<exists>n. swpc st = Reset c n)"
    and "unat (bytes_allocated (sheap st)) =
       (\<Sum>a\<leftarrow>dn @ rest. unat (size_at (mem (sheap st)) a)) + (if swpc st = FinishGc \<or> swpc st = SweepDone then 0 else unat (freed st))"
    and "distinct (dn @ rest)" and "ahead st = rest"
  using assms chain_distinct [of "mem (sheap st)" "head (sheap st)" "dn @ rest"] chain_list_from [of "mem (sheap st)" "cursor st" rest]
  by (auto simp: sw_heap_def ahead_def ret_def)

section \<open>Steps of the sweep\<close>

fun sweep_rank :: "sweep_pc \<Rightarrow> nat \<Rightarrow> nat" where
  "sweep_rank StartSweep n = 2 * n + 6"
| "sweep_rank LoadHead n = 2 * n + 5"
| "sweep_rank Examine n = 2 * n + 4"
| "sweep_rank (Unlink a k) n = 2 * n + 3"
| "sweep_rank (Reset a k) n = 2 * n + 5"
| "sweep_rank Subtract n = 2"
| "sweep_rank FinishGc n = 1"
| "sweep_rank SweepDone n = 0"

definition steps_left :: "sw_state \<Rightarrow> nat" where
  "steps_left st = sweep_rank (swpc st) (length (ahead st))"

text \<open>What a step promises: the invariant, no reachable object freed, and less to do.\<close>

definition sw_safe :: "sw_state \<Rightarrow> sw_state \<Rightarrow> bool" where
  "sw_safe st st' \<longleftrightarrow>
     sw_inv st' \<and> reach (mem (sheap st)) \<subseteq> dom (mem (sheap st')) \<and> (swpc st \<noteq> SweepDone \<longrightarrow> steps_left st' < steps_left st)"

lemma sw_invI: "sw_frame (sheap st) \<Longrightarrow> sw_heap dn rest st \<Longrightarrow> sw_pc_ok dn rest st \<Longrightarrow> sw_inv st"
  by (auto simp: sw_inv_def)

lemma sw_inv_reach: "sw_inv st \<Longrightarrow> reach (mem (sheap st)) \<subseteq> dom (mem (sheap st))"
  using sw_ok_reach by (fastforce simp: sw_inv_def sw_heap_def)

lemma sw_stepI:
  assumes "sweep_step p st = ret st'" and "sw_frame (sheap st')" and h': "sw_heap dn' rest' st'" and "sw_pc_ok dn' rest' st'"
    and h: "sw_heap dn rest st" and "sweep_rank (swpc st') (length rest') < sweep_rank (swpc st) (length rest)"
    and "mem (sheap st') = mem (sheap st) \<or> reach (mem (sheap st)) \<subseteq> dom (mem (sheap st'))"
  shows "returns (sweep_step p st) (sw_safe st)"
proof -
  have "reach (mem (sheap st)) \<subseteq> dom (mem (sheap st))" using sw_ok_reach [OF sw_heapD(4) [OF h]] by blast
  then show ?thesis
    using assms sw_invI [OF assms(2-4)] sw_heapD(8) [OF h] sw_heapD(8) [OF h'] by (auto simp: sw_safe_def steps_left_def)
qed

lemma swept_other:
  assumes "swept S m n" and "c \<notin> S"
  shows "size_at n c = size_at m c" and "white_at n c = white_at m c"
  using sweptD(1,4) [OF assms(1), of c] assms(2) by (cases "m c"; auto simp: size_at_def white_at_def)+

lemma swept_sizes:
  assumes "swept S m n" and "S \<inter> set xs = {}"
  shows "(\<Sum>c\<leftarrow>xs. unat (size_at n c)) = (\<Sum>c\<leftarrow>xs. unat (size_at m c))"
proof -
  have "size_at n c = size_at m c" if "c \<in> set xs" for c using swept_other(1) [OF assms(1)] assms(2) that by blast
  then show ?thesis by (intro arg_cong [where f = sum_list] map_cong) simp_all
qed

lemma sw_unlink:
  assumes fr: "sw_frame (sheap st)" and sh: "sw_heap dn rest st" and pc: "sw_pc_ok dn rest st" and u: "swpc st = Unlink a n"
  shows "returns (sweep_step p st) (sw_safe st)"
proof -
  let ?h = "sheap st"
  let ?m = "mem ?h"
  note H = sw_heapD [OF sh]
  obtain b where b: "?m a = Some b" "nxt (header b) = n" and k: "\<not> kept ?m a" and l: "rest \<noteq> [] \<Longrightarrow> prev_next st = link_of dn"
      and ph: "phase ?h = phase_as_u8 Sweeping"
    using pc u by (auto simp: sw_pc_ok_def sw_link_def)
  obtain as where rest: "rest = a # as" using H(2) u by (auto simp: cursor_def chain_Some)
  have a: "a \<notin> set dn" "a \<notin> set as" using H(7) rest by auto
  obtain m1 hp1 where st: "store_link (link_of dn) n (?m, head ?h) = ret (m1, hp1)" "chain m1 hp1 (dn @ as)"
      "chain m1 n as" "swept {} ?m m1" "m1 a = Some b"
    using store_link_unlinks [OF H(1) [unfolded rest] b(1)] b(2) by blast
  let ?m2 = "m1(a := None)" and ?sz = "vt_size (vtable (header b))"
  have sw: "swept {a} ?m ?m2" by (rule swept_drop [OF b(1) k st(4)])
  have sum: "unat (bytes_allocated ?h) = (\<Sum>c\<leftarrow>dn @ as. unat (size_at ?m2 c)) + (unat (freed st) + unat ?sz)"
    using H(6) u rest b(1) swept_sizes [OF sw, of "dn @ as"] a by (simp add: size_at_def)
  then have fit: "unat (freed st) + unat ?sz < 2 ^ 64" using usize_lt [of "bytes_allocated ?h"] by linarith
  let ?st' = "st\<lparr>swpc := Examine, current := n, freed := freed st + ?sz, sheap := ?h\<lparr>mem := ?m2, head := hp1\<rparr>\<rparr>"
  have step: "sweep_step p st = ret ?st'"
    using u b st(1,5) l rest fit by (simp add: sweep_step_def)
  have dom2: "dom ?m2 = dom ?m - {a}"
  proof -
    have "m1 c = None \<longleftrightarrow> ?m c = None" for c using sweptD(1,4) [OF st(4), of c] by (cases "?m c") auto
    then have "dom m1 = dom ?m" unfolding dom_def by simp
    then show ?thesis by simp
  qed
  have "sw_heap dn as ?st'" unfolding sw_heap_def
  proof (intro conjI)
    show "chain (mem (sheap ?st')) (head (sheap ?st')) (dn @ as)" using chain_other [OF st(2)] a by simp
    show "chain (mem (sheap ?st')) (cursor ?st') as" using chain_other [OF st(3)] a by (simp add: cursor_def)
    show "set (dn @ as) = dom (mem (sheap ?st'))" using H(3) rest a dom2 by auto
    show "sw_ok (mem (sheap ?st')) (set as)"
    proof -
      have "kept m1 a = kept ?m a" by (rule swept_kept_other [OF st(4)]) simp
      then have "sw_ok ?m2 (set rest - {a})" using sw_ok_drop [OF sw_ok_relinked [OF H(4) st(4)], of a] rest k by simp
      then show ?thesis using rest a by simp
    qed
    show "\<forall>c\<in>set dn. white_at (mem (sheap ?st')) c \<or> (\<exists>n. swpc ?st' = Reset c n)"
    proof
      fix c assume c: "c \<in> set dn"
      then have "c \<noteq> a" using a by blast
      then show "white_at (mem (sheap ?st')) c \<or> (\<exists>n. swpc ?st' = Reset c n)"
        using H(5) [OF c] u swept_other(2) [OF sw, of c] by simp
    qed
    show "unat (bytes_allocated (sheap ?st')) = (\<Sum>a\<leftarrow>dn @ as. unat (size_at (mem (sheap ?st')) a)) +
        (if swpc ?st' = FinishGc \<or> swpc ?st' = SweepDone then 0 else unat (freed ?st'))"
      using sum unat_add_usize [OF fit] by simp
  qed
  moreover have "sw_pc_ok dn as ?st'" using l rest ph by (simp add: sw_pc_ok_def sw_link_def)
  moreover have "reach ?m \<subseteq> dom ?m2" using sw_ok_reach [OF H(4)] rest k unfolding dom2 by auto
  ultimately show ?thesis using fr u rest by (intro sw_stepI [OF step _ _ _ sh]) (auto simp: sw_frame_def)
qed

lemma sw_reset:
  assumes fr: "sw_frame (sheap st)" and sh: "sw_heap dn rest st" and pc: "sw_pc_ok dn rest st" and u: "swpc st = Reset a n"
  shows "returns (sweep_step p st) (sw_safe st)"
proof -
  let ?h = "sheap st"
  let ?m = "mem ?h"
  note H = sw_heapD [OF sh]
  obtain ds where dn: "dn = ds @ [a]" using pc u by (cases dn rule: rev_cases) (auto simp: sw_pc_ok_def)
  then obtain b where b: "?m a = Some b" using H(3) by auto
  let ?m2 = "?m(a \<mapsto> set_color 0 b)"
  let ?st' = "st\<lparr>swpc := Examine, prev_next := NextLink a, current := n, sheap := ?h\<lparr>mem := ?m2\<rparr>\<rparr>"
  have a: "a \<notin> set rest" using H(7) dn by auto
  have rc: "recolored ?m ?m2" using recolored_upd b by blast
  have "sw_heap dn rest ?st'" unfolding sw_heap_def
  proof (intro conjI)
    show "chain (mem (sheap ?st')) (head (sheap ?st')) (dn @ rest)" using chain_recolored [OF H(1) rc] by simp
    show "chain (mem (sheap ?st')) (cursor ?st') rest" using chain_recolored [OF H(2) rc] u by (simp add: cursor_def)
    show "set (dn @ rest) = dom (mem (sheap ?st'))" using H(3) dn by auto
    show "sw_ok (mem (sheap ?st')) (set rest)"
      using sw_ok_update [OF H(4) b, of "set_color 0 b"] sw_okD [OF H(4) b] a by (simp add: box_ok_def)
    show "\<forall>c\<in>set dn. white_at (mem (sheap ?st')) c \<or> (\<exists>n. swpc ?st' = Reset c n)"
      using H(5) u by auto
    show "unat (bytes_allocated (sheap ?st')) = (\<Sum>a\<leftarrow>dn @ rest. unat (size_at (mem (sheap ?st')) a)) +
        (if swpc ?st' = FinishGc \<or> swpc ?st' = SweepDone then 0 else unat (freed ?st'))"
      using H(6) u same_objs_views(2) [OF recolored_same_objs [OF rc]] by simp
  qed
  moreover have "sw_pc_ok dn rest ?st'" using pc u dn by (simp add: sw_pc_ok_def sw_link_def link_of_def)
  moreover have "reach ?m \<subseteq> dom ?m2" using sw_ok_reach [OF H(4)] by auto
  moreover have step: "sweep_step p st = ret ?st'" using u b by (simp add: sweep_step_def Let_def)
  ultimately show ?thesis using fr u by (intro sw_stepI [OF step _ _ _ sh]) (auto simp: sw_frame_def)
qed

lemma sw_examine:
  assumes fr: "sw_frame (sheap st)" and sh: "sw_heap dn rest st" and pc: "sw_pc_ok dn rest st" and u: "swpc st = Examine"
  shows "returns (sweep_step p st) (sw_safe st)"
proof (cases rest)
  case Nil
  let ?st' = "st\<lparr>swpc := Subtract\<rparr>"
  have "current st = None" using sw_heapD(2) [OF sh] u Nil by (simp add: cursor_def)
  then have step: "sweep_step p st = ret ?st'" using u by (simp add: sweep_step_def)
  have "sw_heap dn rest ?st'" using sh u Nil by (simp add: sw_heap_def cursor_def)
  moreover have "sw_pc_ok dn rest ?st'" using pc u by (simp add: sw_pc_ok_def)
  ultimately show ?thesis using fr u by (intro sw_stepI [OF step _ _ _ sh]) auto
next
  case (Cons a as)
  let ?m = "mem (sheap st)"
  note H = sw_heapD [OF sh]
  obtain b where b: "current st = Some a" "?m a = Some b" "chain ?m (nxt (header b)) as"
    using H(2) u Cons by (auto simp: cursor_def)
  show ?thesis
  proof (cases "kept ?m a")
    case False
    let ?st' = "st\<lparr>swpc := Unlink a (nxt (header b))\<rparr>"
    have step: "sweep_step p st = ret ?st'"
      using u b False header_is_white_kept [of ?m a b, OF b(2)] by (simp add: sweep_step_def)
    have "sw_heap dn rest ?st'" using sh u b by (simp add: sw_heap_def cursor_def)
    moreover have "sw_pc_ok dn rest ?st'" using pc u b False by (simp add: sw_pc_ok_def sw_link_def)
    ultimately show ?thesis using fr u by (intro sw_stepI [OF step _ _ _ sh]) auto
  next
    case True
    let ?st' = "st\<lparr>swpc := Reset a (nxt (header b))\<rparr>"
    have step: "sweep_step p st = ret ?st'"
      using u b True header_is_white_kept [of ?m a b, OF b(2)] by (simp add: sweep_step_def)
    have "set as = set rest - {a}" using Cons H(7) by auto
    then have "sw_ok ?m (set as)" using sw_ok_pass [OF H(4) True] by simp
    then have "sw_heap (dn @ [a]) as ?st'" using sh u b Cons by (auto simp: sw_heap_def cursor_def)
    moreover have "sw_pc_ok (dn @ [a]) as ?st'" using pc u by (simp add: sw_pc_ok_def)
    ultimately show ?thesis using fr u Cons by (intro sw_stepI [OF step _ _ _ sh]) auto
  qed
qed

lemma sw_subtract:
  assumes fr: "sw_frame (sheap st)" and sh: "sw_heap dn rest st" and pc: "sw_pc_ok dn rest st" and u: "swpc st = Subtract"
  shows "returns (sweep_step p st) (sw_safe st)"
proof -
  let ?h = "sheap st"
  let ?st' = "st\<lparr>swpc := FinishGc, allocated := bytes_allocated ?h - freed st,
      sheap := ?h\<lparr>bytes_allocated := bytes_allocated ?h - freed st\<rparr>\<rparr>"
  note H = sw_heapD [OF sh]
  have le: "unat (freed st) \<le> unat (bytes_allocated ?h)" using H(6) u by simp
  then have step: "sweep_step p st = ret ?st'" using u by (simp add: sweep_step_def Let_def)
  have "rest = []" using H(2) u by (simp add: cursor_def)
  then have "sw_heap dn rest ?st'" using sh u H(6) unat_sub_usize [OF le] by (simp add: sw_heap_def cursor_def)
  moreover have "sw_pc_ok dn rest ?st'" using pc u by (simp add: sw_pc_ok_def)
  ultimately show ?thesis using fr u by (intro sw_stepI [OF step _ _ _ sh]) (auto simp: sw_frame_def)
qed

lemma sweep_step_safe:
  assumes inv: "sw_inv st"
  shows "returns (sweep_step p st) (sw_safe st)"
proof -
  obtain dn rest where fr: "sw_frame (sheap st)" and sh: "sw_heap dn rest st" and pc: "sw_pc_ok dn rest st"
    using inv by (auto simp: sw_inv_def)
  show ?thesis
  proof (cases "swpc st")
    case StartSweep
    let ?st' = "st\<lparr>swpc := LoadHead, freed := 0, sheap := start_sweeping (sheap st)\<rparr>"
    have step: "sweep_step p st = ret ?st'" using StartSweep by (simp add: sweep_step_def)
    have "sw_heap dn rest ?st'" using sh StartSweep pc by (auto simp: sw_heap_def cursor_def start_sweeping_def sw_pc_ok_def)
    moreover have "sw_pc_ok dn rest ?st'" using pc StartSweep by (simp add: sw_pc_ok_def start_sweeping_def)
    ultimately show ?thesis
      using fr StartSweep by (intro sw_stepI [OF step _ _ _ sh]) (auto simp: sw_frame_def start_sweeping_def)
  next
    case LoadHead
    let ?st' = "st\<lparr>swpc := Examine, current := head (sheap st), prev_next := HeadLink\<rparr>"
    have step: "sweep_step p st = ret ?st'" using LoadHead by (simp add: sweep_step_def)
    have "sw_heap dn rest ?st'" using sh LoadHead by (simp add: sw_heap_def cursor_def)
    moreover have "sw_pc_ok dn rest ?st'" using pc LoadHead by (simp add: sw_pc_ok_def sw_link_def link_of_def)
    ultimately show ?thesis using fr LoadHead by (intro sw_stepI [OF step _ _ _ sh]) auto
  next
    case FinishGc
    let ?st' = "st\<lparr>swpc := SweepDone, sheap := finish_gc (sheap st)\<rparr>"
    have step: "sweep_step p st = ret ?st'" using FinishGc by (simp add: sweep_step_def)
    have "sw_heap dn rest ?st'" using sh FinishGc by (auto simp: sw_heap_def cursor_def finish_gc_def)
    moreover have "sw_pc_ok dn rest ?st'" using pc FinishGc by (simp add: sw_pc_ok_def finish_gc_def)
    ultimately show ?thesis
      using fr FinishGc by (intro sw_stepI [OF step _ _ _ sh]) (auto simp: sw_frame_def finish_gc_def)
  next
    case SweepDone
    then show ?thesis using inv sw_inv_reach [OF inv] by (simp add: sweep_step_def sw_safe_def)
  qed (use sw_examine [OF fr sh pc] sw_unlink [OF fr sh pc] sw_reset [OF fr sh pc] sw_subtract [OF fr sh pc] in blast)+
qed

section \<open>Steps of the other threads\<close>

text \<open>A change to one box that keeps its link, colour and size.\<close>

lemma sw_update:
  assumes inv: "sw_inv st" and b: "mem (sheap st) a = Some b"
    and c: "box_ok c" "vtable (header c) = vtable (header b)" "color (header c) = color (header b)" "nxt (header c) = nxt (header b)"
    and r: "a \<in> set (ahead st) \<Longrightarrow> kept ((mem (sheap st))(a \<mapsto> c)) a \<Longrightarrow> kept (mem (sheap st)) a"
    and q: "\<And>q. q \<in> set (gc_ptrs (data c)) \<Longrightarrow>
      q \<in> set (gc_ptrs (data b)) \<or> (ptr_ok (mem (sheap st)) q \<and> snd q \<notin> set (white_ahead st))"
  shows "sw_inv (st\<lparr>sheap := (sheap st)\<lparr>mem := (mem (sheap st))(a \<mapsto> c)\<rparr>\<rparr>)"
proof -
  let ?m = "mem (sheap st)"
  let ?n = "?m(a \<mapsto> c)"
  let ?st' = "st\<lparr>sheap := (sheap st)\<lparr>mem := ?n\<rparr>\<rparr>"
  obtain dn rest where fr: "sw_frame (sheap st)" and sh: "sw_heap dn rest st" and pc: "sw_pc_ok dn rest st"
    using inv by (auto simp: sw_inv_def)
  note H = sw_heapD [OF sh]
  have ch: "chain ?n x xs" if "chain ?m x xs" for x xs by (rule chain_cong [OF that]) (auto simp: b c(4))
  have cur: "cursor ?st' = cursor st" by (simp add: cursor_def split: sweep_pc.split)
  have sz: "size_at ?n = size_at ?m" "white_at ?n = white_at ?m" using b c(2,3) by (auto simp: fun_eq_iff size_at_def white_at_def)
  have "sw_ok ?n (set rest)"
  proof (rule sw_ok_update [OF H(4) b c(1,2)])
    show "kept ?m a" if "a \<in> set rest" "kept ?n a" using r that H(8) by simp
    show "ptr_ok ?m q \<and> \<not> (snd q \<in> set rest \<and> white_at ?m (snd q))"
      if "a \<notin> set rest \<or> kept ?m a" "q \<in> set (gc_ptrs (data c))" for q
      using q [OF that(2)] sw_okD(2) [OF H(4) b that(1), of q] H(8) by (auto simp: white_ahead_def)
  qed (rule c(3))
  then have "sw_heap dn rest ?st'"
    unfolding sw_heap_def cur using H b by (simp add: ch sz insert_absorb domI)
  moreover have "sw_pc_ok dn rest ?st'"
  proof (cases "\<exists>x n. swpc st = Unlink x n")
    case True
    then obtain x n where u: "swpc st = Unlink x n" by blast
    have x: "x \<in> set rest" using H(2) u by (cases rest) (auto simp: cursor_def)
    have "\<not> kept ?n x"
      using r pc u x H(8) unfolding sw_pc_ok_def by (cases "x = a") (auto simp: kept_def)
    moreover have "\<exists>d. ?n x = Some d \<and> nxt (header d) = n" using pc u b c(4) by (auto simp: sw_pc_ok_def)
    ultimately show ?thesis using pc u by (simp add: sw_pc_ok_def sw_link_def del: fun_upd_apply)
  qed (use pc in \<open>auto simp: sw_pc_ok_def sw_link_def split: sweep_pc.splits\<close>)
  ultimately show ?thesis using fr by (intro sw_invI) (simp_all add: sw_frame_def)
qed

lemma sw_set_roots:
  assumes inv: "sw_inv st" and b: "mem (sheap st) a = Some b"
    and r: "a \<in> set (white_ahead st) \<Longrightarrow> k > 0 \<Longrightarrow> root_at (mem (sheap st)) a"
  shows "sw_inv (st\<lparr>sheap := (sheap st)\<lparr>mem := (mem (sheap st))(a \<mapsto> set_roots k b)\<rparr>\<rparr>)"
proof (rule sw_update [OF inv b])
  obtain dn rest where "sw_heap dn rest st" using inv by (auto simp: sw_inv_def)
  then show "box_ok (set_roots k b)" using sw_okD(1) [OF sw_heapD(4) b] by (simp add: box_ok_def)
  show "kept (mem (sheap st)) a" if "a \<in> set (ahead st)" "kept ((mem (sheap st))(a \<mapsto> set_roots k b)) a"
    using that r b by (auto simp: kept_def white_ahead_def white_at_def)
qed simp_all

lemma sw_store:
  assumes inv: "sw_inv st" and s: "storable (mem (sheap st)) a pth t v" "passes st v" and h': "stored (sheap st) a pth v h'"
  shows "sw_inv (st\<lparr>sheap := h'\<rparr>)"
proof -
  let ?m = "mem (sheap st)"
  obtain b where b: "?m a = Some b" "h' = (sheap st)\<lparr>mem := ?m(a \<mapsto> set_data (set_cell pth v (data b)) b)\<rparr>"
    using h' by (auto simp: stored_def)
  obtain dn rest where sh: "sw_heap dn rest st" using inv by (auto simp: sw_inv_def)
  let ?c = "set_data (set_cell pth v (data b)) b"
  show ?thesis unfolding b(2)
  proof (rule sw_update [OF inv b(1)])
    show "box_ok ?c" using sw_okD(1) [OF sw_heapD(4) [OF sh] b(1)] s(1) b(1) by (simp add: box_ok_def storable_def)
    show "kept ?m a" if "kept (?m(a \<mapsto> ?c)) a" using that b(1) by (auto simp: kept_def white_at_def root_at_def)
    show "q \<in> set (gc_ptrs (data b)) \<or> ptr_ok ?m q \<and> snd q \<notin> set (white_ahead st)" if "q \<in> set (gc_ptrs (data ?c))" for q
      using that set_cell_ptrs [of pth v "data b"] s by (auto simp: storable_def passes_def)
  qed simp_all
qed

lemma sw_not_marking:
  assumes "sw_inv st" and "swpc st \<noteq> StartSweep"
  shows "\<not> is_marking (sheap st)" and "swpc st \<noteq> SweepDone \<Longrightarrow> phase (sheap st) = phase_as_u8 Sweeping"
  using assms by (auto simp: sw_inv_def sw_pc_ok_def is_marking_def split: sweep_pc.splits)

lemma sw_fresh:
  assumes inv: "sw_inv st" and al: "allocatable (sheap st) a t sz v" and n: "no_hazard (Allocate a t sz v) st" and pc0: "swpc st \<noteq> StartSweep"
  shows "sw_inv (st\<lparr>sheap := with_fresh (sheap st) a t sz v\<rparr>)"
proof -
  let ?h = "sheap st" and ?c = "fresh_box (head (sheap st)) t sz v"
  let ?m = "mem ?h"
  let ?n = "?m(a \<mapsto> ?c)"
  let ?st' = "st\<lparr>sheap := with_fresh ?h a t sz v\<rparr>"
  obtain dn rest where fr: "sw_frame ?h" and sh: "sw_heap dn rest st" and pc: "sw_pc_ok dn rest st"
    using inv by (auto simp: sw_inv_def)
  note H = sw_heapD [OF sh]
  have a: "?m a = None" "a \<notin> set dn" "a \<notin> set rest" using al H(3) by (auto simp: allocatable_def)
  have ch: "chain ?n x xs" if "chain ?m x xs" "a \<notin> set xs" for x xs using that by (rule chain_other)
  have bytes: "unat (bytes_allocated ?h + sz) = unat (bytes_allocated ?h) + unat sz"
    using al by (intro unat_add_usize) (simp add: allocatable_def)
  have sizes: "(\<Sum>c\<leftarrow>xs. unat (size_at ?n c)) = (\<Sum>c\<leftarrow>xs. unat (size_at ?m c))" if "a \<notin> set xs" for xs
    using that by (intro arg_cong [where f = sum_list] map_cong) auto
  have sza: "size_at ?n a = sz" by simp
  have ok: "sw_ok ?n T'" if "set rest \<subseteq> T'" "T' \<subseteq> insert a (set rest)" for T'
  proof (rule sw_ok_fresh [OF H(4) a(1) _ _ _ _ that])
    show "box_ok ?c" using al by (simp add: box_ok_def allocatable_def)
    show "ptr_ok ?m q \<and> \<not> (snd q \<in> set rest \<and> white_at ?m (snd q))" if "q \<in> set (gc_ptrs (data ?c))" for q
      using that al n H(8) by (auto simp: allocatable_def passes_def white_ahead_def)
  qed (use H(3) in auto)
  show ?thesis
  proof (cases "swpc st = LoadHead")
    case True
    then have "dn = []" using pc by (simp add: sw_pc_ok_def)
    then have "sw_heap [] (a # rest) ?st'"
      using True H a ok [of "insert a (set rest)"] ch [OF H(1)] bytes
      by (auto simp: sw_heap_def cursor_def sizes sza simp del: view_upd(5))
    moreover have "sw_pc_ok [] (a # rest) ?st'" using pc True by (simp add: sw_pc_ok_def)
    ultimately show ?thesis using fr by (intro sw_invI) (simp_all add: sw_frame_def)
  next
    case False
    have cur: "cursor ?st' = cursor st" using False pc0 by (simp add: cursor_def split: sweep_pc.split)
    have "sw_heap (a # dn) rest ?st'"
      unfolding sw_heap_def cur using H a ok [of "set rest"] ch [OF H(1)] ch [OF H(2)] bytes
      by (auto simp: sizes sza simp del: view_upd(5))
    moreover have "sw_pc_ok (a # dn) rest ?st'"
    proof -
      have "rest \<noteq> [] \<longrightarrow> cursor st \<noteq> None" using H(2) by (cases rest) auto
      then have "rest \<noteq> [] \<and> sw_link dn rest st \<longrightarrow> dn \<noteq> []"
        using n False by (auto simp: head_exposed_def sw_link_def link_of_def)
      then have "sw_link dn rest st \<longrightarrow> sw_link (a # dn) rest ?st'" by (auto simp: sw_link_def link_of_def)
      then show ?thesis using pc False pc0 a(1) by (auto simp: sw_pc_ok_def kept_def split: sweep_pc.splits)
    qed
    ultimately show ?thesis using fr by (intro sw_invI) (simp_all add: sw_frame_def)
  qed
qed

text \<open>A collection that is asked for while the heap sweeps does nothing.\<close>

lemma collect_while_sweeping:
  assumes "phase h = phase_as_u8 Sweeping"
  shows "run_op p StartMarking h = ret h" and "run_op p ForceCollect h = ret h" and "run_op p CollectIfNeeded h = ret h"
  using assms by (simp_all add: start_marking_def try_start_marking_def force_collect_def try_mark_full_def collect_def)

lemma thread_step_safe:
  assumes inv: "sw_inv st" and ok: "sw_allowed p (Thread x) st"
  shows "returns (run_op p x (sheap st)) (\<lambda>h. sw_inv (st\<lparr>sheap := h\<rparr>) \<and> dom (mem (sheap st)) \<subseteq> dom (mem h))"
proof -
  have pc0: "swpc st \<noteq> StartSweep" and doc: "documented p x (sheap st)" and n: "no_hazard x st" using ok by simp_all
  have nm: "\<not> is_marking (sheap st)" by (rule sw_not_marking(1) [OF inv pc0])
  have idle: ?thesis if "run_op p x (sheap st) = ret (sheap st)" using that inv by simp
  show ?thesis
  proof (cases x)
    case (Allocate a t sz v)
    then show ?thesis
      using sw_fresh [OF inv, of a t sz v] doc n pc0 allocate_idle [OF nm, of a t sz v] by (auto simp del: no_hazard.simps)
  next
    case (RootPtr a)
    then obtain b where b: "mem (sheap st) a = Some b" using doc by auto
    then show ?thesis using RootPtr sw_set_roots [OF inv b] n by (simp add: handle_ops_eq [of "mem (sheap st)" a b, OF b] domI insert_absorb)
  next
    case (CloneRoot a)
    then have r: "root_at (mem (sheap st)) a" using doc by simp
    then obtain b where b: "mem (sheap st) a = Some b" using view_dom(4) by blast
    then show ?thesis using CloneRoot sw_set_roots [OF inv b] r by (simp add: handle_ops_eq [of "mem (sheap st)" a b, OF b] domI insert_absorb)
  next
    case (DropRoot a)
    then have r: "root_at (mem (sheap st)) a" using doc by simp
    then obtain b where b: "mem (sheap st) a = Some b" using view_dom(4) by blast
    then show ?thesis using DropRoot sw_set_roots [OF inv b] r by (simp add: handle_ops_eq [of "mem (sheap st)" a b, OF b] domI insert_absorb)
  next
    case (SetCell a pth t v)
    have s: "storable (mem (sheap st)) a pth t v" "passes st v" using doc n SetCell by simp_all
    have "returns (cell_set (sheap st) (Some []) a pth v) (\<lambda>r. snd r = Some [] \<and> stored (sheap st) a pth v (fst r))"
      using cell_set_idle_run [OF _ s(1)] nm by simp
    then show ?thesis
      using SetCell sw_store [OF inv s] stored_dom by (auto elim!: returns_bindI)
  qed (use n idle collect_while_sweeping sw_not_marking(2) [OF inv pc0] in \<open>simp_all del: run_op.simps\<close>)
qed

interpretation sw: safe_machine "run_sw p" "sw_allowed p" sw_inv
    "\<lambda>st. reach (mem (sheap st))" "\<lambda>st. dom (mem (sheap st))" for p
proof unfold_locales
  have safe: "returns (run_sw p x st) (\<lambda>st'. sw_inv st' \<and> reach (mem (sheap st)) \<subseteq> dom (mem (sheap st')))"
    if "sw_inv st" "sw_allowed p x st" for x st
  proof (cases x)
    case SweepStep
    then show ?thesis using sweep_step_safe [OF that(1), of p] by (auto simp: returns_iff sw_safe_def)
  next
    case (Thread y)
    then show ?thesis
      using thread_step_safe [OF that(1), of p y] that(2) sw_inv_reach [OF that(1)]
      by (auto simp: returns_iff simp del: run_op.simps sw_allowed.simps)
  qed
  show "returns (run_sw p x st) sw_inv" if "sw_inv st" "sw_allowed p x st" for x st
    using safe [OF that] by (rule returns_mono) simp
  show "reach (mem (sheap st)) \<subseteq> dom (mem (sheap st'))" if "sw_inv st" "sw_allowed p x st" "run_sw p x st = ret st'" for x st st'
    using safe [OF that(1,2)] that(3) by simp
  show "reach (mem (sheap st)) \<subseteq> dom (mem (sheap st))" if "sw_inv st" for st
    by (rule sw_inv_reach [OF that])
qed

text \<open>Whatever the others have done, the sweep can finish when they pause.\<close>

interpretation sw: progressing "run_sw p" "\<lambda>x st. x = SweepStep" sw_inv "\<lambda>st. swpc st = SweepDone" steps_left for p
proof unfold_locales
  show "\<exists>x st'. x = SweepStep \<and> run_sw p x st = ret st' \<and> sw_inv st' \<and> steps_left st' < steps_left st"
    if "sw_inv st" "swpc st \<noteq> SweepDone" for st
    using sweep_step_safe [OF that(1), of p] that(2) by (auto simp: returns_iff sw_safe_def)
qed

lemma sw_start_inv:
  assumes inv: "gc_inv h" and "is_marking h" and q: "gray_queue h = []"
  shows "sw_inv (sw_start h)"
proof -
  obtain xs where xs: "heap_inv xs h" using gc_inv_heap [OF inv] by blast
  note hi = heap_invD [OF xs]
  have ms: "marking_state h" by (rule gc_inv_marking [OF assms(1,2)])
  have "sw_ok (mem h) (set xs)"
    using sw_ok_start [OF hi(3) marking_state_succs [OF ms q] hi(2)] .
  then have "sw_heap [] xs (sw_start h)" using hi by (simp add: sw_heap_def sw_start_def cursor_def)
  moreover have "sw_pc_ok [] xs (sw_start h)" using ms by (simp add: sw_pc_ok_def sw_start_def marking_state_def)
  ultimately show ?thesis using inv q by (intro sw_invI) (auto simp: sw_frame_def sw_start_def gc_inv_def)
qed

text \<open>When the sweep is over, the heap is again one of the coarser machine.\<close>

lemma sw_quiescent:
  assumes "sw_inv st" and "swpc st = SweepDone"
  shows "quiescent (sheap st)" and "gc_inv (sheap st)"
proof -
  obtain dn rest where fr: "sw_frame (sheap st)" and sh: "sw_heap dn rest st" and pc: "sw_pc_ok dn rest st"
    using assms(1) by (auto simp: sw_inv_def)
  note H = sw_heapD [OF sh]
  have rest: "rest = []" using H(2) assms(2) by (simp add: cursor_def)
  have xs: "heap_inv dn (sheap st)" using H rest assms(2) by (simp add: heap_inv_def sw_ok_empty)
  have "nonwhite (mem (sheap st)) = {}" using H(3,5) rest assms(2) by (auto simp: nonwhite_def)
  then show "quiescent (sheap st)" using pc fr assms(2) by (simp add: quiescent_def sw_pc_ok_def sw_frame_def)
  then show "gc_inv (sheap st)" using fr xs by (auto simp: gc_inv_def sw_frame_def)
qed

section \<open>Uninterrupted\<close>

lemma sweep_steps_add: "sweep_steps (i + j) p st = bind_prog (sweep_steps i p st) (sweep_steps j p)"
  by (induction i arbitrary: st) (auto simp: bind_assoc intro: bind_cong)

definition sweeping_at :: "link \<Rightarrow> addr option \<Rightarrow> usize \<Rightarrow> heap \<Rightarrow> sw_state" where
  "sweeping_at l cur f h = \<lparr>swpc = Examine, prev_next = l, current = cur, freed = f, allocated = 0, sheap = h\<rparr>"

definition loop_steps :: "profile \<Rightarrow> link \<Rightarrow> addr option \<Rightarrow> heap \<Rightarrow> usize \<Rightarrow> mem \<times> addr option \<Rightarrow> usize \<Rightarrow> bool" where
  "loop_steps p l cur h f s' f' \<longleftrightarrow>
     (\<exists>n l'. sweep_steps n p (sweeping_at l cur f h) =
        ret ((sweeping_at l' None f' (h\<lparr>mem := fst s', head := snd s'\<rparr>))\<lparr>swpc := Subtract\<rparr>))"

lemma loop_stepsI:
  assumes "sweep_steps k p (sweeping_at l cur f h) = ret (sweeping_at l1 cur1 f1 h1)" and "loop_steps p l1 cur1 h1 f1 s' f'"
    and "h1\<lparr>mem := fst s', head := snd s'\<rparr> = h\<lparr>mem := fst s', head := snd s'\<rparr>"
  shows "loop_steps p l cur h f s' f'"
proof -
  obtain n l' where "sweep_steps n p (sweeping_at l1 cur1 f1 h1) =
      ret ((sweeping_at l' None f' (h1\<lparr>mem := fst s', head := snd s'\<rparr>))\<lparr>swpc := Subtract\<rparr>)"
    using assms(2) by (auto simp: loop_steps_def)
  then have "sweep_steps (k + n) p (sweeping_at l cur f h) =
      ret ((sweeping_at l' None f' (h\<lparr>mem := fst s', head := snd s'\<rparr>))\<lparr>swpc := Subtract\<rparr>)"
    using assms(1,3) by (simp add: sweep_steps_add)
  then show ?thesis unfolding loop_steps_def by blast
qed

lemma sweep_loop_steps:
  "sweep_loop p l cur s f = Some r \<Longrightarrow> \<forall>h s' f'. s = (mem h, head h) \<longrightarrow> r = Inr (s', f') \<longrightarrow> loop_steps p l cur h f s' f'"
proof (induct rule: sweep_loop.raw_induct [rotated 1, consumes 1, case_names step])
  case (step loop p l cur s f r)
  show ?case
  proof (intro allI impI)
    fix h :: heap and s' f' assume s: "s = (mem h, head h)" and r: "r = Inr (s', f')"
    have IH: "loop_steps p l1 cur1 h1 f1 s' f'" if "loop p l1 cur1 (mem h1, head h1) f1 = ret (s', f')" for l1 cur1 h1 f1
      using step(1) [OF that [unfolded ret_def]] by blast
    note body = step(2) [unfolded r, folded ret_def]
    show "loop_steps p l cur h f s' f'"
    proof (cases cur)
      case None
      then have "s' = s" "f' = f" using body by simp_all
      then show ?thesis unfolding loop_steps_def None s
        by (intro exI [of _ "Suc 0"] exI [of _ l]) (simp add: sweep_step_def sweeping_at_def)
    next
      case (Some a)
      obtain b where b: "mem h a = Some b" using body Some s by (cases "mem h a") auto
      show ?thesis
      proof (cases "header_is_white (header b)")
        case True
        obtain s1 m2 f1 where x: "store_link l (nxt (header b)) s = ret s1" "drop_impl (fst s1) a = ret m2"
            "add_usize p f (vt_size (vtable (header b))) = ret f1" "loop p l (nxt (header b)) (m2, snd s1) f1 = ret (s', f')"
          using body Some b s True by (auto simp: bind_eq_ret_iff)
        have "sweep_steps (Suc (Suc 0)) p (sweeping_at l cur f h) =
            ret (sweeping_at l (nxt (header b)) f1 (h\<lparr>mem := m2, head := snd s1\<rparr>))"
          using Some b s x True by (simp add: sweep_step_def sweeping_at_def)
        moreover have "loop_steps p l (nxt (header b)) (h\<lparr>mem := m2, head := snd s1\<rparr>) f1 s' f'" using x(4) by (intro IH) simp
        ultimately show ?thesis by (rule loop_stepsI) simp
      next
        case False
        let ?h1 = "h\<lparr>mem := (mem h)(a \<mapsto> set_color 0 b)\<rparr>"
        have x: "loop p (NextLink a) (nxt (header b)) (mem ?h1, head ?h1) f = ret (s', f')"
          using body Some b s False by simp
        have "sweep_steps (Suc (Suc 0)) p (sweeping_at l cur f h) = ret (sweeping_at (NextLink a) (nxt (header b)) f ?h1)"
          using Some b False by (simp add: sweep_step_def sweeping_at_def Let_def)
        then show ?thesis using IH [OF x] by (rule loop_stepsI) simp
      qed
    qed
  qed
qed

section \<open>Examples\<close>

text \<open>A rooted cell that is marked, and a node that was allocated after it had been marked: rooted, and white.\<close>

definition sw_heap_ops :: "operation list" where
  "sw_heap_ops =
     [Allocate 5 Node 48 (node_val 5 None), DropRoot 5, Allocate 2 CellObj 48 (cell_new VNone), StartMarking, MarkIncrement 100,
      Allocate 3 Node 48 (node_val 3 None)]"

text \<open>
  While the sweep is under way the node is stored in the cell after the sweep has passed the node, its handle is dropped, and
  another object is allocated; a collection that is asked for does nothing.
\<close>

definition sw_run_example :: "sw_event list" where
  "sw_run_example =
     [SweepStep, SweepStep, Thread (CloneRoot 3), SweepStep, SweepStep,
      Thread (SetCell 2 [] (TOption (TGcPtr False)) (VSome (VPtr False 3))), Thread (DropRoot 3), Thread (DropRoot 3), Thread ForceCollect,
      SweepStep, Thread (Allocate 4 Node 48 (node_val 4 (Some 3))), SweepStep, SweepStep, SweepStep, SweepStep, SweepStep, SweepStep]"

text \<open>The store and the drop of the handle come before the sweep reaches the node.\<close>

definition late_link_run :: "sw_event list" where
  "late_link_run =
     [SweepStep, SweepStep, Thread (SetCell 2 [] (TOption (TGcPtr False)) (VSome (VPtr False 3))), Thread (DropRoot 3),
      SweepStep, SweepStep, SweepStep, SweepStep, SweepStep, SweepStep, SweepStep, SweepStep, SweepStep]"

lemma sw_example_heap:
  "\<exists>h. run_ops (run_op Release) sw_heap_ops (heap_init options_DEFAULT) = ret h \<and>
     all_allowed (run_op Release) (allowed Release) sw_heap_ops (heap_init options_DEFAULT) \<and> is_marking h \<and> gray_queue h = [] \<and>
     all_allowed (run_sw Release) (sw_allowed Release) sw_run_example (sw_start h) \<and>
     all_allowed (run_sw Release) (sw_documented Release) late_link_run (sw_start h) \<and>
     (\<exists>st. run_ops (run_sw Release) sw_run_example (sw_start h) = ret st \<and> swpc st = SweepDone \<and>
        dom (mem (sheap st)) = {2, 4, 3} \<and> bytes_allocated (sheap st) = 144) \<and>
     (\<exists>st. run_ops (run_sw Release) late_link_run (sw_start h) = ret st \<and> swpc st = SweepDone \<and>
        root_at (mem (sheap st)) 2 \<and> 3 \<in> succs (mem (sheap st)) 2 \<and>
        gc_ptr_read (mem (sheap st)) 3 = raise (UseAfterFree 3))"
  by (simp add: sw_heap_ops_def sw_run_example_def late_link_run_def sw_checks exec op_checks gc_ptr_read_def)

section \<open>Properties\<close>

text \<open>
  C6: sweeping while other threads work. Take a heap at the end of its mark phase, and let the steps of the sweep interleave in any
  order with calls of other threads: they clone and drop handles, root objects, allocate, set cells and ask for collections, as long as
  they keep white objects ahead of the sweep to themselves and the head of the list is not in use. Every step succeeds; no
  step frees an object that is reachable; the sweep can finish from wherever it stands, within two steps for each object it
  has not examined and at most six more; and when it has finished, the heap is well formed, its byte count is the sum of the sizes of its
  objects, every pointer in it is live, and all objects are white for the next cycle.
\<close>

theorem concurrent_sweep_safe:
  assumes "gc_reachable p o' h" and "incremental_work_budget o' \<noteq> 0" and "is_marking h" and "gray_queue h = []"
    and "all_allowed (run_sw p) (sw_allowed p) es (sw_start h)"
  shows "\<exists>st. run_ops (run_sw p) es (sw_start h) = ret st \<and>
    (\<forall>x. sw_allowed p x st \<longrightarrow> (\<exists>st'. run_sw p x st = ret st' \<and> reach (mem (sheap st)) \<subseteq> dom (mem (sheap st')))) \<and>
    (\<exists>n st'. n \<le> 2 * length (ahead st) + 6 \<and> run_ops (run_sw p) (replicate n SweepStep) st = ret st' \<and> swpc st' = SweepDone) \<and>
    (swpc st = SweepDone \<longrightarrow> (\<exists>xs. heap_inv xs (sheap st)) \<and> nonwhite (mem (sheap st)) = {} \<and> phase (sheap st) = phase_as_u8 Idle)"
proof -
  have "sw_inv (sw_start h)" by (rule sw_start_inv [OF gc_reachable_inv [OF assms(1,2)] assms(3,4)])
  from sw.run_ops_inv [OF this assms(5)] obtain st
    where run: "run_ops (run_sw p) es (sw_start h) = ret st" and inv: "sw_inv st" by (rule returnsE)
  have "\<exists>st'. run_sw p x st = ret st' \<and> reach (mem (sheap st)) \<subseteq> dom (mem (sheap st'))" if "sw_allowed p x st" for x
    using sw.run_inv [OF inv that] sw.keeps_live [OF inv that] by (auto simp: returns_iff)
  moreover have "\<exists>n st'. n \<le> 2 * length (ahead st) + 6 \<and> run_ops (run_sw p) (replicate n SweepStep) st = ret st' \<and> swpc st' = SweepDone"
  proof -
    obtain xs st' where xs: "length xs \<le> steps_left st" "all_allowed (run_sw p) (\<lambda>x st. x = SweepStep) xs st"
        "run_ops (run_sw p) xs st = ret st'" "swpc st' = SweepDone"
      using sw.completes [OF inv, of p] by blast
    have "xs = replicate (length xs) SweepStep" using all_allowed_const [OF xs(2,3)] by (simp add: replicate_length_same)
    moreover have "steps_left st \<le> 2 * length (ahead st) + 6"
      unfolding steps_left_def by (cases "swpc st") simp_all
    ultimately show ?thesis using xs by (metis le_trans)
  qed
  moreover have "swpc st = SweepDone \<longrightarrow> (\<exists>xs. heap_inv xs (sheap st)) \<and> nonwhite (mem (sheap st)) = {} \<and> phase (sheap st) = phase_as_u8 Idle"
    using sw_quiescent [OF inv] by (auto simp: gc_inv_def quiescent_def)
  ultimately show ?thesis using run by (intro exI [of _ st]) blast
qed

theorem concurrent_sweep_safe_witness:
  "\<exists>h st. run_ops (run_op Release) sw_heap_ops (heap_init options_DEFAULT) = ret h \<and>
     run_ops (run_sw Release) sw_run_example (sw_start h) = ret st \<and> swpc st = SweepDone \<and>
     (\<exists>xs. heap_inv xs (sheap st)) \<and> dom (mem (sheap st)) = {2, 4, 3}"
proof -
  obtain h st where h: "run_ops (run_op Release) sw_heap_ops (heap_init options_DEFAULT) = ret h"
      "all_allowed (run_op Release) (allowed Release) sw_heap_ops (heap_init options_DEFAULT)" "is_marking h" "gray_queue h = []"
      "all_allowed (run_sw Release) (sw_allowed Release) sw_run_example (sw_start h)"
      and st: "run_ops (run_sw Release) sw_run_example (sw_start h) = ret st" "swpc st = SweepDone" "dom (mem (sheap st)) = {2, 4, 3}"
    using sw_example_heap by (elim exE conjE)
  have "gc_reachable Release options_DEFAULT h" by (rule gc_reachable_run [OF gc_reachable.init h(2,1)])
  moreover have "incremental_work_budget options_DEFAULT \<noteq> 0" by (simp add: options_DEFAULT_def)
  ultimately have "\<exists>xs. heap_inv xs (sheap st)"
    using concurrent_sweep_safe [of Release options_DEFAULT h sw_run_example] h st by auto
  then show ?thesis using h st by blast
qed

text \<open>
  C22: the steps refine the call. A sweep that no other thread interrupts ends in the heap of \<open>do_sweep\<close> and with the byte
  count that \<open>do_sweep\<close> returns, on any heap.
\<close>

theorem sweep_steps_refine:
  assumes "do_sweep p h = ret (n, h')"
  shows "\<exists>k st. sweep_steps k p (sw_start h) = ret st \<and> swpc st = SweepDone \<and> allocated st = n \<and> sheap st = h'"
proof -
  let ?h1 = "start_sweeping h"
  obtain s f where loop: "sweep_loop p HeadLink (head ?h1) (mem ?h1, head ?h1) 0 = ret (s, f)"
      and sub: "sub_usize p (bytes_allocated ?h1) f = ret n"
      and h': "h' = finish_gc (?h1\<lparr>mem := fst s, head := snd s, bytes_allocated := bytes_allocated ?h1 - f\<rparr>)"
    using assms by (auto simp: do_sweep_def Let_def bind_eq_ret_iff)
  have "loop_steps p HeadLink (head ?h1) ?h1 0 s f" using sweep_loop_steps [OF loop [unfolded ret_def]] by blast
  then obtain k l where k: "sweep_steps k p (sweeping_at HeadLink (head ?h1) 0 ?h1) =
      ret ((sweeping_at l None f (?h1\<lparr>mem := fst s, head := snd s\<rparr>))\<lparr>swpc := Subtract\<rparr>)"
    by (auto simp: loop_steps_def)
  let ?final = "(sweeping_at l None f h')\<lparr>swpc := SweepDone, allocated := n\<rparr>"
  have "sweep_steps (Suc (Suc 0)) p (sw_start h) = ret (sweeping_at HeadLink (head ?h1) 0 ?h1)"
    by (simp add: sweep_step_def sw_start_def sweeping_at_def)
  moreover have "sweep_steps (Suc (Suc 0)) p ((sweeping_at l None f (?h1\<lparr>mem := fst s, head := snd s\<rparr>))\<lparr>swpc := Subtract\<rparr>) = ret ?final"
    using sub h' by (simp add: sweep_step_def sweeping_at_def Let_def)
  ultimately have "sweep_steps (Suc (Suc 0) + (k + Suc (Suc 0))) p (sw_start h) = ret ?final"
    using k unfolding sweep_steps_add by simp
  then show ?thesis by (intro exI conjI) (assumption, simp_all add: sweeping_at_def)
qed

theorem sweep_steps_refine_witness:
  "\<exists>h' k st. do_sweep Debug chain_heap = ret (bytes_allocated h', h') \<and> sweep_steps k Debug (sw_start chain_heap) = ret st \<and>
     swpc st = SweepDone \<and> sheap st = h'"
proof -
  obtain r where r: "do_sweep Debug chain_heap = ret r" "fst r = bytes_allocated (snd r)"
    using do_sweep_run [OF heap_inv_chain_heap, of Debug] by (auto simp: returns_iff)
  then have "do_sweep Debug chain_heap = ret (bytes_allocated (snd r), snd r)" by (cases r) simp
  from this sweep_steps_refine [OF this] show ?thesis by blast
qed

text \<open>
  C18: a store during the sweep can be lost. An object that is allocated while the heap is marking is white and survives the
  coming sweep only by its handle. In this run a thread stores it in a marked, rooted cell after the sweep has begun, when the
  write barrier is off, and drops the handle before the sweep reaches the object. Every operation is within the documented
  contracts; the sweep frees the object, and the cell points to freed memory.
\<close>

theorem store_during_sweep_unsafe:
  "\<exists>h. run_ops (run_op Release) sw_heap_ops (heap_init options_DEFAULT) = ret h \<and>
     all_allowed (run_op Release) (allowed Release) sw_heap_ops (heap_init options_DEFAULT) \<and>
     all_allowed (run_sw Release) (sw_documented Release) late_link_run (sw_start h) \<and>
     (\<exists>st. run_ops (run_sw Release) late_link_run (sw_start h) = ret st \<and> swpc st = SweepDone \<and>
        root_at (mem (sheap st)) 2 \<and> 3 \<in> succs (mem (sheap st)) 2 \<and>
        gc_ptr_read (mem (sheap st)) 3 = raise (UseAfterFree 3))"
  using sw_example_heap by (elim exE conjE, intro exI conjI)

end
