(* ===== verification/Concurrent_Cycle.thy ===== *)
theory Concurrent_Cycle
  imports Concurrent_Marking Concurrent_Sweep
begin

text \<open>
  A whole collection beside other threads, put together from \<open>Concurrent_Marking\<close> and \<open>Concurrent_Sweep\<close>: a thread starts the
  mark phase and scans the roots, the atomic steps of markers and of calls of \<open>set\<close> interleave until the marking is over, and
  then the steps of the sweep interleave with calls of other threads. Between such cycles the threads use the heap as in
  \<open>Mutator\<close>. The theorem is the safety of every program of this kind.
\<close>

section \<open>A cycle\<close>

text \<open>The end of \<open>do_mark_work_full\<close>: nothing left to steal, the markers have nothing in hand, and nobody is registered.\<close>

definition marking_over :: "nat \<Rightarrow> cm_state \<Rightarrow> bool" where
  "marking_over nm st \<longleftrightarrow>
     n_busy_marking (cheap st) = 0 \<and> gray_queue (cheap st) = [] \<and>
     (\<forall>i<nm. work (markers st i) = [] \<and> in_hand (markers st i) = None)"

record cycle =
  setters :: "nat \<Rightarrow> set_call"
  n_setters :: nat
  n_markers :: nat
  marking_events :: "cm_event list"
  sweep_events :: "sw_event list"

definition run_cycle :: "profile \<Rightarrow> cycle \<Rightarrow> heap \<Rightarrow> sw_state prog" where
  "run_cycle p c h =
     bind_prog (run_op p StartMarking h) (\<lambda>h1.
     bind_prog (run_ops (run_cm p) (marking_events c) (cm_start (setters c) h1)) (\<lambda>st.
     run_ops (run_sw p) (sweep_events c) (sw_start (cheap st))))"

definition cycle_allowed :: "profile \<Rightarrow> cycle \<Rightarrow> heap \<Rightarrow> bool" where
  "cycle_allowed p c h \<longleftrightarrow>
     phase h = phase_as_u8 Idle \<and> n_setters c < 2 ^ 64 \<and>
     (\<forall>t<n_setters c. spc (setters c t) = Enter \<and> local_gray (setters c t) = []) \<and>
     (\<forall>h1. run_op p StartMarking h = ret h1 \<longrightarrow>
        all_allowed (run_cm p) (cm_allowed (n_setters c) (n_markers c) p) (marking_events c) (cm_start (setters c) h1) \<and>
        (\<forall>st. run_ops (run_cm p) (marking_events c) (cm_start (setters c) h1) = ret st \<longrightarrow>
           marking_over (n_markers c) st \<and>
           all_allowed (run_sw p) (sw_allowed p) (sweep_events c) (sw_start (cheap st))))"

lemma start_marking_marks:
  assumes inv: "gc_inv h" and idle: "phase h = phase_as_u8 Idle" and run: "run_op p StartMarking h = ret h1"
  shows "gc_inv h1" and "is_marking h1"
proof -
  show "gc_inv h1" using start_marking_safe [OF inv, of p] run by (simp add: safe_from_def)
  obtain h2 tr where r: "do_mark_roots (h\<lparr>phase := phase_as_u8 Marking\<rparr>) tracer_new = ret (h2, tr)" "h1 = h2"
    using run idle by (auto simp: start_marking_def try_start_marking_def bind_eq_ret_iff)
  obtain xs where xs: "heap_inv xs h" using gc_inv_heap [OF inv] by blast
  have "returns (do_mark_roots (h\<lparr>phase := phase_as_u8 Marking\<rparr>) []) (\<lambda>r. phase (fst r) = phase_as_u8 Marking)"
  proof (rule returns_mono [OF do_mark_roots_run [of xs "h\<lparr>phase := phase_as_u8 Marking\<rparr>"]])
    show "heap_inv xs (h\<lparr>phase := phase_as_u8 Marking\<rparr>)" using xs by simp
    show "tricolor (mem (h\<lparr>phase := phase_as_u8 Marking\<rparr>)) (set (gray_queue (h\<lparr>phase := phase_as_u8 Marking\<rparr>)))"
      using gc_inv_tricolor [OF inv] by simp
    fix r :: "heap \<times> tracer"
    assume "snd r = [] \<and> marking_inv (fst r) [] \<and> recolored (mem (h\<lparr>phase := phase_as_u8 Marking\<rparr>)) (mem (fst r)) \<and>
      fst r = h\<lparr>phase := phase_as_u8 Marking, mem := mem (fst r), gray_queue := gray_queue (fst r)\<rparr> \<and>
      nonwhite (mem (fst r)) = nonwhite (mem (h\<lparr>phase := phase_as_u8 Marking\<rparr>)) \<union> Collect (root_at (mem (h\<lparr>phase := phase_as_u8 Marking\<rparr>)))"
    then obtain m q where "fst r = h\<lparr>phase := phase_as_u8 Marking, mem := m, gray_queue := q\<rparr>" by blast
    then show "phase (fst r) = phase_as_u8 Marking" by simp
  qed
  then show "is_marking h1" using r by (intro is_marking_phase) (simp add: tracer_new_def)
qed

lemma cycle_safe:
  assumes inv: "gc_inv h" and ok: "cycle_allowed p c h"
  shows "returns (run_cycle p c h) sw_inv"
proof -
  have idle: "phase h = phase_as_u8 Idle" and nc: "n_setters c < 2 ^ 64"
      and enter: "\<And>t. t < n_setters c \<Longrightarrow> spc (setters c t) = Enter \<and> local_gray (setters c t) = []"
    using ok by (simp_all add: cycle_allowed_def)
  obtain h1 where h1: "run_op p StartMarking h = ret h1" using start_marking_safe [OF inv, of p] by (rule returnsE)
  note m1 = start_marking_marks [OF inv idle h1]
  have a1: "all_allowed (run_cm p) (cm_allowed (n_setters c) (n_markers c) p) (marking_events c) (cm_start (setters c) h1)"
    using ok h1 unfolding cycle_allowed_def by blast
  have "cm_inv (n_setters c) (n_markers c) (cm_start (setters c) h1)" using cm_start_inv [OF m1] enter by blast
  from cm.run_ops_inv [OF this a1] obtain st
    where st: "run_ops (run_cm p) (marking_events c) (cm_start (setters c) h1) = ret st" "cm_inv (n_setters c) (n_markers c) st"
    by (rule returnsE)
  have over: "marking_over (n_markers c) st"
      and a2: "all_allowed (run_sw p) (sw_allowed p) (sweep_events c) (sw_start (cheap st))"
    using ok h1 st(1) unfolding cycle_allowed_def by blast+
  have "gc_inv (cheap st)" using cm_end [OF st(2) nc] over by (simp add: marking_over_def)
  moreover have "is_marking (cheap st)" by (rule cm_heapD(2) [OF cm_invD(1) [OF st(2)]])
  moreover have "gray_queue (cheap st) = []" using over by (simp add: marking_over_def)
  ultimately have "sw_inv (sw_start (cheap st))" by (rule sw_start_inv)
  from sw.run_ops_inv [OF this a2] show ?thesis using h1 st(1) by (simp add: run_cycle_def del: run_op.simps)
qed

section \<open>Programs with any number of cycles\<close>

inductive cc_reachable :: "profile \<Rightarrow> gc_options \<Rightarrow> heap \<Rightarrow> bool" for p o' where
  created: "cc_reachable p o' (heap_init o')"
| called: "cc_reachable p o' h \<Longrightarrow> allowed p x h \<Longrightarrow> run_op p x h = ret h' \<Longrightarrow> cc_reachable p o' h'"
| collected: "cc_reachable p o' h \<Longrightarrow> cycle_allowed p c h \<Longrightarrow> run_cycle p c h = ret st \<Longrightarrow> swpc st = SweepDone \<Longrightarrow>
    cc_reachable p o' (sheap st)"

lemma cc_reachable_inv:
  "cc_reachable p o' h \<Longrightarrow> incremental_work_budget o' \<noteq> 0 \<Longrightarrow> gc_inv h"
proof (induction rule: cc_reachable.induct)
  case created
  then show ?case by (rule gc_inv_init)
next
  case (called h x h')
  then show ?case using run_op_safe [of h p x] by (simp add: safe_from_def returns_iff del: run_op.simps allowed_def)
next
  case (collected h c st)
  then show ?case using cycle_safe [of h p c] sw_quiescent(2) [of st] by (simp add: returns_iff)
qed

section \<open>An example\<close>

text \<open>The threads of the example of \<open>Concurrent_Marking\<close>, the end of their mark phase, and a sweep with calls in between.\<close>

definition cc_ops :: "operation list" where
  "cc_ops = [Allocate 7 Node 48 (node_val 7 None), DropRoot 7] @ butlast cm_heap_ops"

definition cc_cycle :: cycle where
  "cc_cycle =
     \<lparr>setters = cm_calls, n_setters = 2, n_markers = 1,
      marking_events = cm_run_example @ [MarkStep 0, MarkStep 0, MarkStep 0, MarkStep 0, MarkStep 0, MarkStep 0, MarkStep 0, MarkStep 0],
      sweep_events =
        [SweepStep, SweepStep, SweepStep, SweepStep, Thread (SetCell 2 [] (TOption (TGcPtr False)) (VSome (VPtr False 5))),
         Thread (Allocate 6 Node 48 (node_val 6 (Some 5))), Thread (DropRoot 5), SweepStep, SweepStep, SweepStep, SweepStep,
         Thread ForceCollect, SweepStep, SweepStep, SweepStep, SweepStep, SweepStep, SweepStep, SweepStep]\<rparr>"

lemma cc_example:
  "\<exists>h st. run_ops (run_op Release) cc_ops (heap_init options_DEFAULT) = ret h \<and>
     all_allowed (run_op Release) (allowed Release) cc_ops (heap_init options_DEFAULT) \<and>
     cycle_allowed Release cc_cycle h \<and> run_cycle Release cc_cycle h = ret st \<and> swpc st = SweepDone \<and>
     dom (mem (sheap st)) = {5, 3, 4, 6, 2}"
  by (simp add: cc_ops_def cc_cycle_def cm_heap_ops_def cm_run_example_def cycle_allowed_def run_cycle_def marking_over_def
      cm_checks sw_checks exec op_checks)

lemma cc_reachable_run:
  assumes "cc_reachable p o' s" and "all_allowed (run_op p) (allowed p) xs s" and "run_ops (run_op p) xs s = ret h"
  shows "cc_reachable p o' h"
  using assms
proof (induction xs arbitrary: s)
  case (Cons x xs)
  obtain t where t: "run_op p x s = ret t" "run_ops (run_op p) xs t = ret h"
    using Cons.prems(3) by (auto simp: bind_eq_ret_iff simp del: run_op.simps)
  moreover have "allowed p x s" "all_allowed (run_op p) (allowed p) xs t"
    using Cons.prems(2) t(1) by (simp_all del: run_op.simps allowed_def)
  ultimately show ?case using Cons.IH cc_reachable.called [OF Cons.prems(1)] by blast
qed simp

section \<open>Properties\<close>



end
