(* ===== verification/Object_Store.thy ===== *)
theory Object_Store
  imports Mutator
begin

text \<open>
  The specification of the collector, and that the collector implements it. A \<open>store\<close> has objects with a
  type, data and a root count. Mutators allocate, count handles and set cells; a collection takes objects
  away. Colours, the intrusive list, phases, the gray queue, budgets and byte counts do not exist at
  this level.

  \<open>store_of\<close> is the abstraction function; the interpretation \<open>gs\<close> of the locale \<open>simulation\<close> shows that each
  operation of \<open>Mutator\<close> is a step of the specification. The section on transparency compares the
  specification with a machine that never frees anything.
\<close>

section \<open>Objects\<close>

record object =
  obj_vtable :: gc_vtable
  obj_data :: val
  obj_roots :: usize

type_synonym store = "addr \<rightharpoonup> object"

definition object_of :: "gc_box \<Rightarrow> object" where
  "object_of b = \<lparr> obj_vtable = vtable (header b), obj_data = data b, obj_roots = root_count (header b) \<rparr>"

definition store_of :: "mem \<Rightarrow> store" where
  "store_of m = (\<lambda>a. map_option object_of (m a))"

definition store_roots :: "store \<Rightarrow> addr set" where
  "store_roots s = {a. \<exists>ob. s a = Some ob \<and> obj_roots ob > 0}"

definition store_succs :: "store \<Rightarrow> addr \<Rightarrow> addr set" where
  "store_succs s a = (case s a of None \<Rightarrow> {} | Some ob \<Rightarrow> snd ` set (gc_ptrs (obj_data ob)))"

inductive_set store_reach :: "store \<Rightarrow> addr set" for s :: store where
  root: "a \<in> store_roots s \<Longrightarrow> a \<in> store_reach s"
| step: "a \<in> store_reach s \<Longrightarrow> b \<in> store_succs s a \<Longrightarrow> b \<in> store_reach s"

section \<open>Abstract operations\<close>

definition new_object :: "ty \<Rightarrow> usize \<Rightarrow> val \<Rightarrow> object" where
  "new_object t sz v = \<lparr> obj_vtable = vtable_new t sz, obj_data = v, obj_roots = 1 \<rparr>"

fun mutate :: "operation \<Rightarrow> store \<Rightarrow> store" where
  "mutate (Allocate a t sz v) s = s(a \<mapsto> new_object t sz v)"
| "mutate (RootPtr a) s = s(a := map_option (obj_roots_update (\<lambda>n. n + 1)) (s a))"
| "mutate (CloneRoot a) s = s(a := map_option (obj_roots_update (\<lambda>n. n + 1)) (s a))"
| "mutate (DropRoot a) s = s(a := map_option (obj_roots_update (\<lambda>n. n - 1)) (s a))"
| "mutate (SetCell a p t v) s = s(a := map_option (obj_data_update (set_cell p v)) (s a))"
| "mutate x s = s"

fun collector_op :: "operation \<Rightarrow> bool" where
  "collector_op StartMarking = True"
| "collector_op (MarkIncrement budget) = True"
| "collector_op SweepAndFinish = True"
| "collector_op ForceCollect = True"
| "collector_op CollectIfNeeded = True"
| "collector_op x = False"

text \<open>What a mutator needs of the store: the object it works on is there, and so are those it points to.\<close>

fun legal :: "operation \<Rightarrow> store \<Rightarrow> bool" where
  "legal (Allocate a t sz v) s = (a \<notin> dom s \<and> snd ` set (gc_ptrs v) \<subseteq> dom s)"
| "legal (RootPtr a) s = (a \<in> dom s)"
| "legal (CloneRoot a) s = (a \<in> dom s)"
| "legal (DropRoot a) s = (a \<in> dom s)"
| "legal (SetCell a p t v) s = (a \<in> dom s \<and> snd ` set (gc_ptrs v) \<subseteq> dom s)"
| "legal x s = False"

definition closed :: "store \<Rightarrow> addr set \<Rightarrow> bool" where
  "closed s K \<longleftrightarrow> (\<forall>a\<in>K. store_succs s a \<subseteq> K)"

text \<open>
  A collection keeps the reachable objects and what its survivors point to; how much garbage it takes
  away is left open, and the steps of a collection in progress may take none.
\<close>

inductive store_step :: "operation \<Rightarrow> store \<Rightarrow> store \<Rightarrow> bool" where
  mutator: "legal x s \<Longrightarrow> store_step x s (mutate x s)"
| reclaim: "collector_op x \<Longrightarrow> store_reach s \<subseteq> K \<Longrightarrow> K \<subseteq> dom s \<Longrightarrow> closed s K \<Longrightarrow> store_step x s (s |` K)"

inductive_cases store_stepE: "store_step x s s'"

section \<open>The view\<close>

lemma store_of_upd [simp]: "store_of (m(a \<mapsto> b)) = (store_of m)(a \<mapsto> object_of b)"
  by (auto simp: store_of_def)

lemma dom_store_of [simp]: "dom (store_of m) = dom m"
  by (auto simp: store_of_def)

lemma same_objs_store: "same_objs m n \<Longrightarrow> store_of m = store_of n"
proof
  fix a assume "same_objs m n"
  then have "rel_option same_obj (m a) (n a)" by (simp add: same_objs_def)
  then show "store_of m a = store_of n a"
    by (cases rule: option.rel_cases) (auto simp: store_of_def object_of_def same_obj_def)
qed

lemma store_succs_of: "store_succs (store_of m) = succs m"
  by (rule ext) (auto simp: store_succs_def succs_def store_of_def object_of_def split: option.splits)

lemma store_roots_of: "store_roots (store_of m) = Collect (root_at m)"
  by (auto simp: store_roots_def root_at_def store_of_def object_of_def is_root_def split: option.splits)

lemma store_reach_of: "store_reach (store_of m) = reach m"
proof (intro equalityI subsetI)
  show "a \<in> reach m" if "a \<in> store_reach (store_of m)" for a
    using that by (induction rule: store_reach.induct) (auto simp: store_succs_of store_roots_of intro: reach.intros)
  show "a \<in> store_reach (store_of m)" if "a \<in> reach m" for a
    using that by (induction rule: reach.induct) (auto simp: store_succs_of store_roots_of intro: store_reach.intros)
qed

section \<open>Refinement\<close>

lemma mark_run_store: "mark_run h tr h' tr' n \<Longrightarrow> store_of (mem h') = store_of (mem h)"
  using same_objs_store [OF recolored_same_objs] mark_run_mem(1) by metis

lemma closed_of: "mem_ok m \<Longrightarrow> closed (store_of m) (dom m)"
  using succs_dom by (auto simp: closed_def store_succs_of)

lemma store_step_refl:
  assumes "collector_op x" and "mem_ok m"
  shows "store_step x (store_of m) (store_of m)"
proof -
  have "store_of m |` dom m = store_of m" by (rule ext) (auto simp: restrict_map_def store_of_def)
  then show ?thesis
    using store_step.reclaim [OF assms(1), of "store_of m" "dom m"] closed_of [OF assms(2)] reach_dom [OF _ assms(2)]
    by (auto simp: store_reach_of)
qed

lemma collected_store:
  assumes "collected xs K h h'" 
  shows "store_of (mem h') = store_of (mem h) |` K"
proof
  fix a
  show "store_of (mem h') a = (store_of (mem h) |` K) a"
  proof (cases "a \<in> K")
    case True
    then show ?thesis using collectedD [OF assms True] by (auto simp: store_of_def object_of_def same_obj_def)
  next
    case False
    then have "mem h' a = None" using assms by (auto simp: collected_def)
    then show ?thesis using False by (simp add: store_of_def)
  qed
qed

lemma collected_step:
  assumes "collected xs K h h'" and "reach (mem h) \<subseteq> K" and "collector_op x"
  shows "store_step x (store_of (mem h)) (store_of (mem h'))"
proof -
  have "store_succs (store_of (mem h)) a \<subseteq> K" if "a \<in> K" for a
  proof -
    have "mem_ok (mem h')" and K: "dom (mem h') = K" using assms(1) heap_invD(3) by (auto simp: collected_def)
    then have "succs (mem h') a \<subseteq> K" using succs_dom by blast
    moreover have "succs (mem h) a = succs (mem h') a"
      using collectedD [OF assms(1) that] by (auto simp: succs_def same_obj_def)
    ultimately show ?thesis by (simp add: store_succs_of)
  qed
  moreover have "K \<subseteq> dom (mem h)" using collectedD [OF assms(1)] by blast
  ultimately show ?thesis
    unfolding collected_store [OF assms(1)] using assms(2,3)
    by (intro store_step.reclaim) (simp_all add: store_reach_of closed_def)
qed

lemma mutate_handles:
  assumes "m a = Some b"
  shows "store_of (m(a \<mapsto> set_roots (root_count (header b) + 1) b)) = mutate (RootPtr a) (store_of m)"
    and "store_of (m(a \<mapsto> set_roots (root_count (header b) + 1) b)) = mutate (CloneRoot a) (store_of m)"
    and "store_of (m(a \<mapsto> set_roots (root_count (header b) - 1) b)) = mutate (DropRoot a) (store_of m)"
  using assms by (simp_all add: store_of_def object_of_def set_roots_def fun_eq_iff)

lemma mutate_stored:
  assumes "stored h a p v h'"
  shows "store_of (mem h') = mutate (SetCell a p t v) (store_of (mem h))"
  using assms by (auto simp: stored_def store_of_def object_of_def fun_eq_iff)

lemma mutate_fresh: "store_of (mem (with_fresh h a t sz v)) = mutate (Allocate a t sz v) (store_of (mem h))"
  by (simp add: object_of_def new_object_def)

lemma gc_inv_mem_ok: "gc_inv h \<Longrightarrow> mem_ok (mem h)"
  using gc_inv_heap heap_invD(3) by blast

lemma documented_legal: "documented p x h \<Longrightarrow> collector_op x \<or> legal x (store_of (mem h))"
  by (cases x) (auto simp: allocatable_def storable_def ptr_ok_def root_at_def split: option.splits)

lemma mutator_step:
  assumes "allowed p x h" and "\<not> collector_op x"
  shows "store_step x (store_of (mem h)) (mutate x (store_of (mem h)))"
  using assms documented_legal [of p x h] by (intro store_step.mutator) auto

lemma allocate_store:
  assumes inv: "gc_inv h" and ok: "allowed p (Allocate a t sz v) h"
  shows "returns (run_op p (Allocate a t sz v) h)
    (\<lambda>h'. store_step (Allocate a t sz v) (store_of (mem h)) (store_of (mem h')))"
proof -
  obtain xs where xs: "heap_inv xs h" using gc_inv_heap [OF inv] by blast
  have "allocatable h a t sz v" using ok by simp
  from allocate_run [OF xs gc_inv_tricolor [OF inv] this]
  obtain r h1 n where r: "allocate h a t sz v = ret r" "mark_run h [] h1 [] n" "snd r = with_fresh h1 a t sz v"
    by (auto simp: returns_iff)
  have "store_of (mem (snd r)) = mutate (Allocate a t sz v) (store_of (mem h))"
    unfolding r(3) mutate_fresh mark_run_store [OF r(2)] ..
  then show ?thesis using r(1) mutator_step [OF ok] by (cases r) simp
qed

lemma set_cell_store:
  assumes inv: "gc_inv h" and ok: "allowed p (SetCell a pth t v) h"
  shows "returns (run_op p (SetCell a pth t v) h)
    (\<lambda>h'. store_step (SetCell a pth t v) (store_of (mem h)) (store_of (mem h')))"
proof -
  let ?P = "\<lambda>r :: heap \<times> tracer option. store_of (mem (fst r)) = mutate (SetCell a pth t v) (store_of (mem h))"
  have st: "storable (mem h) a pth t v" using ok by simp
  have "returns (cell_set h (Some []) a pth v) ?P"
  proof (cases "is_marking h")
    case False
    then have "returns (cell_set h (Some []) a pth v) (\<lambda>r. snd r = Some [] \<and> stored h a pth v (fst r))"
      using cell_set_idle_run [OF _ st] by simp
    then show ?thesis by (rule returns_mono) (blast intro: mutate_stored)
  next
    case True
    from cell_set_marking_run [OF gc_inv_tricolor [OF inv] True st] show ?thesis
      by (rule returns_mono)
        (metis mutate_stored same_objs_store recolored_same_objs shaded_mem(1))
  qed
  then show ?thesis using mutator_step [OF ok] by (auto simp: returns_iff)
qed

lemma handle_store:
  assumes "x \<in> {RootPtr a, CloneRoot a, DropRoot a}" and ok: "allowed p x h"
  shows "returns (run_op p x h) (\<lambda>h'. store_step x (store_of (mem h)) (store_of (mem h')))"
proof -
  obtain b where b: "mem h a = Some b" using assms view_dom(4) [of "mem h" a] by fastforce
  have "store_step x (store_of (mem h)) (mutate x (store_of (mem h)))"
    using assms(1) by (intro mutator_step [OF ok]) auto
  then show ?thesis using assms(1) b mutate_handles [of "mem h" a b, OF b] by (auto simp: handle_ops_eq)
qed

lemma marking_store:
  assumes inv: "gc_inv h"
  shows "returns (run_op p StartMarking h) (\<lambda>h'. store_of (mem h') = store_of (mem h))"
    and "returns (run_op p (MarkIncrement budget) h) (\<lambda>h'. store_of (mem h') = store_of (mem h))"
proof -
  obtain xs where xs: "heap_inv xs h" using gc_inv_heap [OF inv] by blast
  let ?h1 = "h\<lparr>phase := phase_as_u8 Marking\<rparr>"
  have "returns (do_mark_roots ?h1 []) (\<lambda>r. store_of (mem (fst r)) = store_of (mem h))"
    by (rule returns_mono [OF do_mark_roots_run [of xs ?h1]])
      (use xs gc_inv_tricolor [OF inv] same_objs_store recolored_same_objs in \<open>force+\<close>)
  then show "returns (run_op p StartMarking h) (\<lambda>h'. store_of (mem h') = store_of (mem h))"
    by (auto elim!: returns_bindI simp: start_marking_def try_start_marking_def tracer_new_def)
  have "marking_inv h []" using marking_inv_start [OF xs] gc_inv_tricolor [OF inv] by blast
  from do_mark_incremental_run [OF this, of budget]
  show "returns (run_op p (MarkIncrement budget) h) (\<lambda>h'. store_of (mem h') = store_of (mem h))"
    using mark_run_store by (fastforce simp: returns_iff)
qed

lemma sweep_store:
  assumes inv: "gc_inv h" and ok: "allowed p SweepAndFinish h"
  shows "returns (run_op p SweepAndFinish h) (\<lambda>h'. store_step SweepAndFinish (store_of (mem h)) (store_of (mem h')))"
proof -
  obtain xs where xs: "heap_inv xs h" using gc_inv_heap [OF inv] by blast
  have ms: "marking_state h" and q: "gray_queue h = []" and pc: "pacing_safe p h"
    using ok gc_inv_marking [OF inv] by simp_all
  note kept = marking_state_kept [OF heap_invD(3) [OF xs] ms q]
  from sweep_and_finish_kept [OF xs q pc kept(1)] obtain r
    where r: "sweep_and_finish p h = ret r" "collected xs {a \<in> dom (mem h). kept (mem h) a} h (snd r)"
    by (auto simp: returns_iff)
  show ?thesis using r(1) collected_step [OF r(2) kept(2)] by (cases r) simp
qed

lemma force_collect_store:
  assumes inv: "gc_inv h" and pc: "pacing_safe p h" and x: "collector_op x"
  shows "returns (force_collect p h) (\<lambda>r. store_step x (store_of (mem h)) (store_of (mem (snd r))))"
proof (cases "quiescent h")
  case True
  obtain xs where xs: "heap_inv xs h" using gc_inv_heap [OF inv] by blast
  have "ready h" using inv True by (simp add: gc_inv_def ready_def)
  from force_collect_run [OF xs this pc] show ?thesis
    by (rule returns_mono) (use collected_step [OF _ order_refl x] in blast)
next
  case False
  then have "phase h \<noteq> phase_as_u8 Idle" using inv by (simp add: gc_inv_def marking_state_def)
  then show ?thesis
    using store_step_refl [OF x gc_inv_mem_ok [OF inv]] by (simp add: force_collect_def try_mark_full_def try_start_marking_def)
qed

lemma run_op_store:
  assumes inv: "gc_inv h" and ok: "allowed p x h"
  shows "returns (run_op p x h) (\<lambda>h'. store_step x (store_of (mem h)) (store_of (mem h')))"
proof (cases x)
  case (Allocate a t sz v)
  then show ?thesis using allocate_store [OF inv] ok by blast
next
  case (SetCell a pth t v)
  then show ?thesis using set_cell_store [OF inv] ok by blast
next
  case ForceCollect
  then show ?thesis using force_collect_store [OF inv] ok by (auto intro: returns_bind_snd)
next
  case CollectIfNeeded
  then show ?thesis
    using force_collect_store [OF inv] ok store_step_refl gc_inv_mem_ok [OF inv] by (auto intro: returns_bind_snd simp: collect_def)
next
  case StartMarking
  show ?thesis unfolding StartMarking
    by (rule returns_mono [OF marking_store(1) [OF inv]]) (simp add: store_step_refl gc_inv_mem_ok [OF inv])
next
  case (MarkIncrement budget)
  show ?thesis unfolding MarkIncrement
    by (rule returns_mono [OF marking_store(2) [OF inv]]) (simp add: store_step_refl gc_inv_mem_ok [OF inv])
next
  case SweepAndFinish
  then show ?thesis using sweep_store [OF inv] ok by blast
qed (use handle_store ok in blast)+

interpretation gs: simulation "run_op p" "allowed p" gc_inv "\<lambda>h. store_of (mem h)" store_step for p
  by unfold_locales (use run_op_store in \<open>fastforce simp: returns_iff\<close>)

section \<open>Runs on the store\<close>

lemma mutator_run:
  assumes "gc_inv h" and "allowed p x h" and "\<not> collector_op x"
  shows "returns (run_op p x h) (\<lambda>h'. gc_inv h' \<and> store_of (mem h') = mutate x (store_of (mem h)))"
proof (rule returns_mono [OF returns_conj [OF run_op_safe run_op_store]])
  show "gc_inv h' \<and> store_of (mem h') = mutate x (store_of (mem h))"
    if "safe_from h h' \<and> store_step x (store_of (mem h)) (store_of (mem h'))" for h'
    using that assms(3) by (auto simp: safe_from_def elim: store_stepE)
qed (use assms in auto)

text \<open>A collection has kept everything that is reachable, and changed nothing else.\<close>

definition reclaimed :: "store \<Rightarrow> store \<Rightarrow> bool" where
  "reclaimed s s' \<longleftrightarrow> (\<exists>K. store_reach s \<subseteq> K \<and> s' = s |` K)"

lemma reclaimed_refl: "mem_ok m \<Longrightarrow> reclaimed (store_of m) (store_of m)"
  unfolding reclaimed_def store_reach_of
  by (rule exI [of _ "dom m"]) (use reach_dom in \<open>auto simp: restrict_map_def store_of_def fun_eq_iff\<close>)

lemma collector_run:
  assumes "gc_inv h" and "allowed p x h" and "collector_op x"
  shows "returns (run_op p x h)
    (\<lambda>h'. gc_inv h' \<and> reclaimed (store_of (mem h)) (store_of (mem h')))"
proof (rule returns_mono [OF returns_conj [OF run_op_safe run_op_store]])
  show "gc_inv h' \<and> reclaimed (store_of (mem h)) (store_of (mem h'))"
    if "safe_from h h' \<and> store_step x (store_of (mem h)) (store_of (mem h'))" for h'
    using that assms(3) by (auto simp: safe_from_def reclaimed_def elim!: store_stepE) (cases x; simp)
qed (use assms in auto)

section \<open>Bytes in the store\<close>

definition store_bytes :: "store \<Rightarrow> nat" where
  "store_bytes s = (\<Sum>a\<in>dom s. unat (vt_size (obj_vtable (the (s a)))))"

lemma gc_inv_bytes:
  assumes "gc_inv h"
  shows "unat (bytes_allocated h) = store_bytes (store_of (mem h))" and "finite (dom (mem h))"
proof -
  obtain xs where xs: "heap_inv xs h" using gc_inv_heap [OF assms] by blast
  have d: "distinct xs" "set xs = dom (mem h)" using chain_distinct [OF heap_invD(1) [OF xs]] xs by (auto simp: heap_inv_def)
  have "unat (bytes_allocated h) = (\<Sum>a\<in>dom (mem h). unat (size_at (mem h) a))"
    using xs d sum_list_distinct_conv_sum_set [OF d(1)] by (simp add: heap_inv_def)
  also have "\<dots> = store_bytes (store_of (mem h))"
    unfolding store_bytes_def dom_store_of by (rule sum.cong) (auto simp: size_at_def store_of_def object_of_def)
  finally show "unat (bytes_allocated h) = store_bytes (store_of (mem h))" .
  show "finite (dom (mem h))" using d(2) by (metis List.finite_set)
qed

fun op_size :: "operation \<Rightarrow> nat" where
  "op_size (Allocate a t sz v) = unat sz"
| "op_size x = 0"

lemma store_bytes_upd:
  assumes "finite (dom s)" and "\<And>ob. obj_vtable (f ob) = obj_vtable ob"
  shows "store_bytes (s(a := map_option f (s a))) = store_bytes s"
proof -
  have "dom (s(a := map_option f (s a))) = dom s" by auto
  then show ?thesis unfolding store_bytes_def using assms(2) by (auto intro!: sum.cong)
qed

lemma store_bytes_mutate:
  assumes fin: "finite (dom s)" and leg: "legal x s"
  shows "store_bytes (mutate x s) \<le> store_bytes s + op_size x"
proof (cases x)
  case (Allocate a t sz v)
  then have "a \<notin> dom s" using leg by simp
  then have "store_bytes (s(a \<mapsto> new_object t sz v)) = unat sz + (\<Sum>b\<in>dom s. unat (vt_size (obj_vtable (the ((s(a \<mapsto> new_object t sz v)) b)))))"
    using fin by (simp add: store_bytes_def new_object_def)
  also have "(\<Sum>b\<in>dom s. unat (vt_size (obj_vtable (the ((s(a \<mapsto> new_object t sz v)) b))))) = store_bytes s"
    unfolding store_bytes_def using \<open>a \<notin> dom s\<close> by (auto intro!: sum.cong)
  finally show ?thesis unfolding Allocate mutate.simps op_size.simps by linarith
qed (use leg store_bytes_upd [OF fin] in simp_all)

lemma mutator_run_bytes:
  assumes gi: "gc_inv h" and ok: "allowed p x h" and m: "\<not> collector_op x"
  shows "returns (run_op p x h) (\<lambda>h'. gc_inv h' \<and> store_of (mem h') = mutate x (store_of (mem h)) \<and>
    unat (bytes_allocated h') \<le> unat (bytes_allocated h) + op_size x)"
proof (rule returns_mono [OF mutator_run [OF gi ok m]])
  fix h' assume h': "gc_inv h' \<and> store_of (mem h') = mutate x (store_of (mem h))"
  have "legal x (store_of (mem h))" using documented_legal [of p x h] ok m by simp
  then show "gc_inv h' \<and> store_of (mem h') = mutate x (store_of (mem h)) \<and>
      unat (bytes_allocated h') \<le> unat (bytes_allocated h) + op_size x"
    using store_bytes_mutate [of "store_of (mem h)" x] gc_inv_bytes [OF gi] gc_inv_bytes(1) [of h'] h' by simp
qed

lemma heap_count: "heap_inv xs h \<Longrightarrow> allocation_count h = ret (length xs)"
  using count_loop_chain [of "mem h" "head h" xs] heap_invD(1) by (simp add: allocation_count_def)

lemma gc_inv_count: "gc_inv h \<Longrightarrow> \<exists>n. allocation_count h = ret n"
  using gc_inv_heap heap_count by blast

section \<open>Transparency\<close>

text \<open>The store \<open>s\<close> of the heap and the store \<open>t\<close> of a machine that never frees anything.\<close>

definition agrees :: "store \<Rightarrow> store \<Rightarrow> bool" where
  "agrees s t \<longleftrightarrow> s \<subseteq>\<^sub>m t \<and> store_roots t \<subseteq> dom s \<and> closed s (dom s)"

lemma agreesD:
  assumes "agrees s t"
  shows "a \<in> dom s \<Longrightarrow> t a = s a" and "a \<in> store_roots t \<Longrightarrow> a \<in> dom s"
    and "b \<in> store_succs s a \<Longrightarrow> b \<in> dom s"
proof -
  show "t a = s a" if "a \<in> dom s" using assms that by (simp add: agrees_def map_le_def)
  show "a \<in> dom s" if "a \<in> store_roots t" using assms that by (auto simp: agrees_def)
  show "b \<in> dom s" if "b \<in> store_succs s a"
    using assms that by (cases "a \<in> dom s") (auto simp: agrees_def closed_def store_succs_def)
qed

lemma store_succs_upd: "store_succs (s(a \<mapsto> ob)) c = (if c = a then snd ` set (gc_ptrs (obj_data ob)) else store_succs s c)"
  by (simp add: store_succs_def)

lemma agrees_upd:
  assumes ag: "agrees s t" and ob: "snd ` set (gc_ptrs (obj_data ob)) \<subseteq> insert a (dom s)"
  shows "agrees (s(a \<mapsto> ob)) (t(a \<mapsto> ob))"
proof -
  have "store_succs (s(a \<mapsto> ob)) c \<subseteq> insert a (dom s)" for c
    using ob agreesD(3) [OF ag] unfolding store_succs_upd by (cases "c = a") (simp, force)
  moreover have "store_roots (t(a \<mapsto> ob)) \<subseteq> insert a (store_roots t)" by (auto simp: store_roots_def split: if_splits)
  moreover have "s(a \<mapsto> ob) \<subseteq>\<^sub>m t(a \<mapsto> ob)" using ag by (simp add: agrees_def map_le_def)
  ultimately show ?thesis using ag by (auto simp: agrees_def closed_def)
qed

lemma agrees_reach:
  assumes ag: "agrees s t"
  shows "store_reach t = store_reach s" and "store_reach s \<subseteq> dom s"
proof -
  note D = agreesD [OF ag]
  show sub: "store_reach s \<subseteq> dom s"
  proof
    show "a \<in> dom s" if "a \<in> store_reach s" for a
      using that by (induction rule: store_reach.induct) (auto simp: store_roots_def dest: D(3))
  qed
  have succs: "store_succs t a = store_succs s a" if "a \<in> dom s" for a
    using D(1) [OF that] by (simp add: store_succs_def)
  have roots: "store_roots t = store_roots s"
    using D(1,2) by (auto simp: store_roots_def) (metis domI domIff mem_Collect_eq store_roots_def)+
  show "store_reach t = store_reach s"
  proof (intro equalityI subsetI)
    show "a \<in> store_reach s" if "a \<in> store_reach t" for a
      using that
      by (induction rule: store_reach.induct) (use roots succs sub in \<open>blast intro: store_reach.intros\<close>)+
    show "a \<in> store_reach t" if "a \<in> store_reach s" for a
      using that
      by (induction rule: store_reach.induct) (use roots succs sub in \<open>blast intro: store_reach.intros\<close>)+
  qed
qed

lemma agrees_mutate:
  assumes ag: "agrees s t" and x: "legal x s"
  shows "agrees (mutate x s) (mutate x t)"
proof -
  note D = agreesD [OF ag]
  have upd: "agrees (s(a := map_option f (s a))) (t(a := map_option f (t a)))"
    if a: "a \<in> dom s" and f: "\<And>ob. snd ` set (gc_ptrs (obj_data (f ob))) \<subseteq> snd ` set (gc_ptrs (obj_data ob)) \<union> dom s" for a f
  proof -
    obtain ob where ob: "s a = Some ob" "t a = Some ob" using a D(1) [OF a] by auto
    have "snd ` set (gc_ptrs (obj_data ob)) \<subseteq> dom s" using D(3) [of _ a] ob(1) by (auto simp: store_succs_def)
    then have "agrees (s(a \<mapsto> f ob)) (t(a \<mapsto> f ob))" using f [of ob] by (intro agrees_upd [OF ag]) blast
    then show ?thesis using ob by simp
  qed
  show ?thesis
  proof (cases x)
    case (Allocate a t' sz v)
    then show ?thesis using x agrees_upd [OF ag, of "new_object t' sz v" a] by (auto simp: new_object_def)
  next
    case (SetCell a p t' v)
    have "snd ` set (gc_ptrs (set_cell p v d)) \<subseteq> snd ` set (gc_ptrs d) \<union> dom s" for d
    proof -
      have "snd ` set (gc_ptrs v) \<subseteq> dom s" using x SetCell by simp
      then show ?thesis using image_mono [OF set_cell_ptrs [of p v d], of snd] unfolding image_Un by blast
    qed
    then show ?thesis using x SetCell upd [of a "obj_data_update (set_cell p v)"] by simp
  qed (use x upd in simp_all)
qed

lemma agrees_step:
  assumes ag: "agrees s t" and "store_step x s s'"
  shows "agrees s' (mutate x t)"
  using assms(2)
proof cases
  case mutator
  then show ?thesis using agrees_mutate [OF ag] by simp
next
  case (reclaim K)
  have "mutate x t = t" using reclaim(2) by (cases x) auto
  moreover have "store_roots t \<subseteq> K"
    using agrees_reach(1) [OF ag] reclaim(3) store_reach.root by blast
  moreover have "dom (s |` K) = K" using reclaim(4) by (auto simp: restrict_map_def split: if_splits)
  moreover have "closed (s |` K) K" using reclaim(5) by (auto simp: closed_def store_succs_def restrict_map_def)
  moreover have "s |` K \<subseteq>\<^sub>m t" using ag by (auto simp: agrees_def map_le_def restrict_map_def split: if_splits)
  ultimately show ?thesis using reclaim(1) by (simp add: agrees_def)
qed

lemma agrees_trace: "trace_of store_step xs s s' \<Longrightarrow> agrees s t \<Longrightarrow> agrees s' (fold mutate xs t)"
  by (induction xs arbitrary: s t) (auto dest: agrees_step)

section \<open>Properties\<close>

text \<open>
  C7: the collector refines an object store. The specification knows objects with a type, data and
  a root count, the five operations of mutators, and a collection that may take away any objects as
  long as it keeps what is reachable and its survivors point to survivors; it has no colours, links,
  phases, queues or budgets. Every disciplined sequence of operations on a new heap runs to its end,
  and step by step its objects are those of a run of the specification.
\<close>

theorem collector_refines_store:
  assumes "incremental_work_budget o' \<noteq> 0"
    and "all_allowed (run_op p) (allowed p) ops (heap_init o')"
  shows "\<exists>h'. run_ops (run_op p) ops (heap_init o') = ret h' \<and>
    trace_of store_step ops Map.empty (store_of (mem h'))"
proof -
  obtain h' where h': "run_ops (run_op p) ops (heap_init o') = ret h'"
    using gc.run_ops_inv [OF gc_inv_init [OF assms(1)] assms(2)] by (rule returnsE)
  have "store_of (mem (heap_init o')) = Map.empty" by (simp add: store_of_def heap_init_def fun_eq_iff)
  then show ?thesis using h' gs.run_ops_simulates [OF gc_inv_init [OF assms(1)] assms(2) h'] by simp
qed

theorem collector_refines_store_witness:
  "\<exists>h'. run_ops (run_op Release) demo_run (heap_init options_DEFAULT) = ret h' \<and>
    trace_of store_step demo_run Map.empty (store_of (mem h'))"
proof -
  have "incremental_work_budget options_DEFAULT \<noteq> 0" by (simp add: options_DEFAULT_def)
  from collector_refines_store [OF this demo_run_allowed] show ?thesis .
qed

text \<open>
  C3: garbage collection is unobservable. Compare a disciplined run on a new heap with the run of the
  same mutator operations on a machine that has no collector and never frees anything: the same
  objects are reachable at the end, and every reachable object is on the heap with the type, the data and
  the root count it has there.
\<close>

theorem gc_transparent:
  assumes "incremental_work_budget o' \<noteq> 0"
    and "all_allowed (run_op p) (allowed p) ops (heap_init o')"
  shows "\<exists>h'. run_ops (run_op p) ops (heap_init o') = ret h' \<and>
    reach (mem h') = store_reach (fold mutate ops Map.empty) \<and>
    (\<forall>a\<in>reach (mem h'). \<exists>ob. store_of (mem h') a = Some ob \<and> fold mutate ops Map.empty a = Some ob)"
proof -
  obtain h' where h': "run_ops (run_op p) ops (heap_init o') = ret h'"
    using gc.run_ops_inv [OF gc_inv_init [OF assms(1)] assms(2)] by (rule returnsE)
  have "store_of (mem (heap_init o')) = Map.empty" by (simp add: store_of_def heap_init_def fun_eq_iff)
  then have "trace_of store_step ops Map.empty (store_of (mem h'))"
    using gs.run_ops_simulates [OF gc_inv_init [OF assms(1)] assms(2) h'] by simp
  moreover have "agrees Map.empty Map.empty" by (simp add: agrees_def store_roots_def closed_def)
  ultimately have ag: "agrees (store_of (mem h')) (fold mutate ops Map.empty)" by (rule agrees_trace)
  have "\<exists>ob. store_of (mem h') a = Some ob \<and> fold mutate ops Map.empty a = Some ob" if "a \<in> reach (mem h')" for a
    using agrees_reach(2) [OF ag] agreesD(1) [OF ag, of a] that unfolding store_reach_of by fastforce
  then show ?thesis using h' agrees_reach(1) [OF ag] by (simp add: store_reach_of)
qed

theorem gc_transparent_witness:
  "\<exists>h' ob. run_ops (run_op Release) demo_run (heap_init options_DEFAULT) = ret h' \<and>
     store_of (mem h') 3 = Some ob \<and> obj_data ob = node_val 3 None \<and> obj_roots ob = 0"
proof -
  let ?t = "fold mutate demo_run Map.empty"
  have t: "?t = [3 \<mapsto> \<lparr>obj_vtable = vtable_new Node 48, obj_data = node_val 3 None, obj_roots = 0\<rparr>,
      2 \<mapsto> \<lparr>obj_vtable = vtable_new Node 48, obj_data = node_val 2 (Some 3), obj_roots = 1\<rparr>]"
    by (simp add: demo_run_def new_object_def fun_eq_iff)
  have "2 \<in> store_reach ?t" unfolding t by (rule store_reach.root) (simp add: store_roots_def)
  then have "3 \<in> store_reach ?t"
    by (rule store_reach.step) (simp add: t store_succs_def node_val_def exec)
  moreover have "incremental_work_budget options_DEFAULT \<noteq> 0" by (simp add: options_DEFAULT_def)
  ultimately show ?thesis using gc_transparent [OF _ demo_run_allowed] by (fastforce simp: t)
qed

end
