(* ===== verification/Cycle.thy ===== *)
theory Cycle
  imports Object_Store
begin

text \<open>
  What a collection cycle achieves while mutators run: the objects that are unreachable when the cycle
  starts are gone when it has been swept, and a cycle that has started can always be brought to its end.

  \<open>sealed G m\<close> says that \<open>G\<close> is a set of white, unrooted objects that no object outside points to. The
  interpretation \<open>cyc\<close> shows that every operation of a running mark phase keeps \<open>G\<close> sealed unless a
  mutator uses a pointer into \<open>G\<close>.
\<close>

section \<open>Garbage during a cycle\<close>

definition sealed :: "addr set \<Rightarrow> mem \<Rightarrow> bool" where
  "sealed G m \<longleftrightarrow>
     G \<subseteq> dom m \<and> (\<forall>a\<in>G. \<not> root_at m a) \<and> nonwhite m \<inter> G = {} \<and> (\<forall>a. a \<notin> G \<longrightarrow> succs m a \<inter> G = {})"

fun leaves_alone :: "addr set \<Rightarrow> operation \<Rightarrow> bool" where
  "leaves_alone G (Allocate a t sz v) = (snd ` set (gc_ptrs v) \<inter> G = {})"
| "leaves_alone G (RootPtr a) = (a \<notin> G)"
| "leaves_alone G (SetCell a p t v) = (snd ` set (gc_ptrs v) \<inter> G = {})"
| "leaves_alone G SweepAndFinish = False"
| "leaves_alone G x = True"

definition cycle_ok :: "profile \<Rightarrow> addr set \<Rightarrow> operation \<Rightarrow> heap \<Rightarrow> bool" where
  "cycle_ok p G x h \<longleftrightarrow> allowed p x h \<and> leaves_alone G x"

definition cycle_inv :: "addr set \<Rightarrow> heap \<Rightarrow> bool" where
  "cycle_inv G h \<longleftrightarrow> gc_inv h \<and> is_marking h \<and> sealed G (mem h)"

lemma sealed_unreachable: "sealed G m \<Longrightarrow> reach m \<inter> G = {}"
proof -
  assume s: "sealed G m"
  have "reach m \<subseteq> - G" by (rule reach_least) (use s in \<open>auto simp: sealed_def\<close>)
  then show ?thesis by blast
qed

lemma sealed_recolored:
  assumes s: "sealed G m" and rc: "recolored m n" and nw: "nonwhite n \<inter> G = {}"
  shows "sealed G n"
  using s nw same_objs_views(1,3) [OF recolored_same_objs [OF rc]] recolored_dom [OF rc] by (simp add: sealed_def)

lemma sealed_mark_run:
  assumes s: "sealed G (mem h)" and run: "mark_run h tr h' tr' n"
  shows "sealed G (mem h')"
proof (rule sealed_recolored [OF s mark_run_mem(1) [OF run]])
  have "nonwhite (mem h) \<subseteq> - G" "\<forall>a\<in>- G. succs (mem h) a \<subseteq> - G" using s by (auto simp: sealed_def)
  then have "nonwhite (mem h') \<subseteq> - G" using run unfolding mark_run_def by blast
  then show "nonwhite (mem h') \<inter> G = {}" by blast
qed

lemma mark_run_is_marking: "mark_run h tr h' tr' n \<Longrightarrow> is_marking h' = is_marking h"
  using mark_run_frame(7) by (simp add: is_marking_def)

lemma sealed_fresh:
  assumes s: "sealed G m" and a: "a \<notin> dom m" and v: "snd ` set (gc_ptrs v) \<inter> G = {}"
  shows "sealed G (m(a \<mapsto> fresh_box hp t sz v))"
proof -
  have "a \<notin> G" using s a by (auto simp: sealed_def)
  then show ?thesis
    using s v nonwhite_fresh [OF a, of hp t sz v] by (auto simp: sealed_def succs_def root_at_def)
qed

lemma sealed_set_roots:
  assumes s: "sealed G m" and b: "m a = Some b" and k: "a \<in> G \<Longrightarrow> k = 0"
  shows "sealed G (m(a \<mapsto> set_roots k b))"
  using s k set_roots_views [of m a b k, OF b] by (auto simp: sealed_def)

lemma sealed_stored:
  assumes s: "sealed G (mem h)" and ok: "mem_ok (mem h)" and st: "storable (mem h) a p t v"
    and h': "stored h a p v h'" and v: "snd ` set (gc_ptrs v) \<inter> G = {}"
  shows "sealed G (mem h')"
proof -
  obtain b where b: "mem h a = Some b" "mem h' = (mem h)(a \<mapsto> set_data (set_cell p v (data b)) b)"
    using h' by (auto simp: stored_def)
  have sub: "succs (mem h') c \<subseteq> succs (mem h) c \<union> snd ` set (gc_ptrs v)" for c
    unfolding b(2) by (rule order_trans [OF storable_ptrs(2) [OF ok st b(1)]]) (simp split: if_split)
  have "succs (mem h') c \<inter> G = {}" if "c \<notin> G" for c
  proof -
    have "succs (mem h) c \<inter> G = {}" using s that by (simp add: sealed_def)
    then show ?thesis using sub [of c] v by blast
  qed
  then show ?thesis using s stored_frame(5,6) [OF h'] stored_dom [OF h'] by (simp add: sealed_def)
qed

section \<open>Preservation\<close>

lemma returns_gc_inv:
  assumes "gc_inv h" and "allowed p x h" and "returns (run_op p x h) (\<lambda>h'. is_marking h' \<and> sealed G (mem h'))"
  shows "returns (run_op p x h) (cycle_inv G)"
  by (rule returns_mono [OF returns_conj [OF gc.run_inv [OF assms(1,2)] assms(3)]]) (simp add: cycle_inv_def)

lemma cycle_allocate:
  assumes inv: "cycle_inv G h" and ok: "cycle_ok p G (Allocate a t sz v) h"
  shows "returns (run_op p (Allocate a t sz v) h) (\<lambda>h'. is_marking h' \<and> sealed G (mem h'))"
proof -
  have gi: "gc_inv h" and m: "is_marking h" and s: "sealed G (mem h)" using inv by (simp_all add: cycle_inv_def)
  obtain xs where xs: "heap_inv xs h" using gc_inv_heap [OF gi] by blast
  have al: "allocatable h a t sz v" using ok by (simp add: cycle_ok_def)
  obtain r h1 n where r: "allocate h a t sz v = ret r" "mark_run h [] h1 [] n" "snd r = with_fresh h1 a t sz v"
    using allocate_run [OF xs gc_inv_tricolor [OF gi] al] by (auto simp: returns_iff)
  have "a \<notin> dom (mem h1)" using allocatable_mark_run [OF al r(2)] by (simp add: allocatable_def)
  then have "sealed G (mem (snd r))"
    unfolding r(3) using sealed_fresh [OF sealed_mark_run [OF s r(2)]] ok by (simp add: cycle_ok_def)
  moreover have "is_marking (snd r)" unfolding r(3) using m mark_run_is_marking [OF r(2)] by (simp add: is_marking_def)
  ultimately show ?thesis using r(1) by (cases r) simp
qed

lemma cycle_handles:
  assumes inv: "cycle_inv G h" and ok: "cycle_ok p G x h" and x: "x \<in> {RootPtr a, CloneRoot a, DropRoot a}"
  shows "returns (run_op p x h) (\<lambda>h'. is_marking h' \<and> sealed G (mem h'))"
proof -
  have m: "is_marking h" and s: "sealed G (mem h)" using inv by (simp_all add: cycle_inv_def)
  obtain b where b: "mem h a = Some b" using x ok view_dom(4) [of "mem h" a] by (fastforce simp: cycle_ok_def)
  have "a \<notin> G" using x ok s by (auto simp: cycle_ok_def sealed_def)
  then have "sealed G ((mem h)(a \<mapsto> set_roots k b))" for k using sealed_set_roots [of G "mem h" a b k, OF s b] by blast
  then show ?thesis using x b m by (auto simp: handle_ops_eq is_marking_def)
qed

lemma cycle_set_cell:
  assumes inv: "cycle_inv G h" and ok: "cycle_ok p G (SetCell a pth t v) h"
  shows "returns (run_op p (SetCell a pth t v) h) (\<lambda>h'. is_marking h' \<and> sealed G (mem h'))"
proof -
  have gi: "gc_inv h" and m: "is_marking h" and s: "sealed G (mem h)" using inv by (simp_all add: cycle_inv_def)
  have st: "storable (mem h) a pth t v" and v: "snd ` set (gc_ptrs v) \<inter> G = {}"
    using ok by (simp_all add: cycle_ok_def)
  obtain r h1 where r: "cell_set h (Some []) a pth v = ret r" "shaded h (snd ` set (gc_ptrs v)) h1" "stored h1 a pth v (fst r)"
    using cell_set_marking_run [OF gc_inv_tricolor [OF gi] m st] by (auto simp: returns_iff)
  have "nonwhite (mem h1) \<inter> G = {}" using s v shaded_mem(3) [OF r(2)] by (auto simp: sealed_def)
  then have "sealed G (mem h1)" by (rule sealed_recolored [OF s shaded_mem(1) [OF r(2)]])
  then have "sealed G (mem (fst r))"
    using sealed_stored [OF _ tricolorD(1) [OF shaded_mem(2) [OF r(2)]]
        storable_recolored [OF st shaded_mem(1) [OF r(2)]] r(3) v] by blast
  moreover have "is_marking (fst r)"
    using m stored_frame(1) [OF r(3)] shaded_frame(5) [OF r(2)] by (simp add: is_marking_def)
  ultimately show ?thesis using r(1) by (cases r) simp
qed

lemma cycle_mark_increment:
  assumes inv: "cycle_inv G h"
  shows "returns (run_op p (MarkIncrement budget) h) (\<lambda>h'. is_marking h' \<and> sealed G (mem h'))"
proof -
  have gi: "gc_inv h" and m: "is_marking h" and s: "sealed G (mem h)" using inv by (simp_all add: cycle_inv_def)
  obtain xs where xs: "heap_inv xs h" using gc_inv_heap [OF gi] by blast
  have "marking_inv h []" using marking_inv_start [OF xs] gc_inv_tricolor [OF gi] by blast
  then obtain r n where r: "do_mark_incremental h budget = ret r" "mark_run h [] (snd r) [] n"
    using do_mark_incremental_run [of h budget] by (auto simp: returns_iff)
  then show ?thesis using sealed_mark_run [OF s r(2)] m mark_run_is_marking [OF r(2)] by (cases r) simp
qed

lemma cycle_noop:
  assumes inv: "cycle_inv G h" and x: "x \<in> {StartMarking, ForceCollect, CollectIfNeeded}"
  shows "run_op p x h = ret h"
proof -
  have "phase h \<noteq> phase_as_u8 Idle" using inv by (auto simp: cycle_inv_def is_marking_def phase_from_def)
  then show ?thesis
    using x by (auto simp: start_marking_def collect_def force_collect_def try_mark_full_def try_start_marking_def)
qed

lemma cycle_step:
  assumes inv: "cycle_inv G h" and ok: "cycle_ok p G x h"
  shows "returns (run_op p x h) (cycle_inv G)"
proof -
  have "gc_inv h" "allowed p x h" using inv ok by (simp_all add: cycle_inv_def cycle_ok_def)
  moreover have "returns (run_op p x h) (\<lambda>h'. is_marking h' \<and> sealed G (mem h'))"
    using inv ok cycle_allocate cycle_set_cell cycle_mark_increment cycle_handles [OF inv ok] cycle_noop [OF inv, of x p]
    by (cases x) (simp_all add: cycle_inv_def cycle_ok_def)
  ultimately show ?thesis by (rule returns_gc_inv)
qed

interpretation cyc: machine "run_op p" "cycle_ok p G" "cycle_inv G" for p G
  by unfold_locales (rule cycle_step)

section \<open>Start and end of a cycle\<close>

lemma cycle_start:
  assumes inv: "gc_inv h" and idle: "\<not> is_marking h"
  shows "returns (run_op p StartMarking h) (cycle_inv (dom (mem h) - reach (mem h)))"
proof (rule returns_gc_inv [OF inv])
  let ?G = "dom (mem h) - reach (mem h)" and ?h1 = "h\<lparr>phase := phase_as_u8 Marking\<rparr>"
  show "allowed p StartMarking h" by simp
  obtain xs where xs: "heap_inv xs h" using gc_inv_heap [OF inv] by blast
  have q: "quiescent h" using inv idle is_marking_phase by (auto simp: gc_inv_def marking_state_def)
  have "heap_inv xs ?h1" "tricolor (mem ?h1) (set (gray_queue ?h1))" using xs gc_inv_tricolor [OF inv] by simp_all
  from do_mark_roots_run [OF this] obtain r where r: "do_mark_roots ?h1 [] = ret r"
      "fst r = ?h1\<lparr>mem := mem (fst r), gray_queue := gray_queue (fst r)\<rparr>"
      "recolored (mem ?h1) (mem (fst r))" "nonwhite (mem (fst r)) = nonwhite (mem ?h1) \<union> Collect (root_at (mem ?h1))"
    by (rule returnsE) blast
  have phase: "phase (fst r) = phase_as_u8 Marking" by (subst r(2)) simp
  have "succs (mem h) a \<inter> ?G = {}" if "a \<notin> ?G" for a
    using that reach.reach_step [of a "mem h"] by (cases "a \<in> dom (mem h)") (auto simp: succs_def)
  then have "sealed ?G (mem h)"
    using q reach.reach_root by (simp add: sealed_def quiescent_def) blast
  then have "sealed ?G (mem ?h1)" by simp
  then have "sealed ?G (mem (fst r))"
    by (rule sealed_recolored [OF _ r(3)]) (unfold r(4), use q reach.reach_root in \<open>auto simp: quiescent_def\<close>)
  then show "returns (run_op p StartMarking h) (\<lambda>h'. is_marking h' \<and> sealed ?G (mem h'))"
    using r(1) q is_marking_phase [OF phase]
    by (cases r) (simp add: start_marking_def try_start_marking_def tracer_new_def quiescent_def)
qed

lemma cycle_end:
  assumes inv: "cycle_inv G h" and ok: "allowed p SweepAndFinish h"
  shows "returns (run_op p SweepAndFinish h)
    (\<lambda>h'. dom (mem h') \<inter> G = {} \<and> reach (mem h) \<subseteq> dom (mem h') \<and> quiescent h')"
proof -
  have gi: "gc_inv h" and s: "sealed G (mem h)" using inv by (simp_all add: cycle_inv_def)
  obtain xs where xs: "heap_inv xs h" using gc_inv_heap [OF gi] by blast
  have ms: "marking_state h" and q: "gray_queue h = []" and pc: "pacing_safe p h"
    using ok gc_inv_marking [OF gi] by simp_all
  note kept = marking_state_kept [OF heap_invD(3) [OF xs] ms q]
  obtain r where r: "sweep_and_finish p h = ret r" "collected xs {a \<in> dom (mem h). kept (mem h) a} h (snd r)"
    using sweep_and_finish_kept [OF xs q pc kept(1)] by (auto simp: returns_iff)
  have "\<not> kept (mem h) a" if "a \<in> G" for a
    using s that by (auto simp: sealed_def kept_def nonwhite_def)
  then show ?thesis using r kept(2) by (cases r) (auto simp: collected_def)
qed

text \<open>With a positive budget, repeated increments empty the queue.\<close>

lemma marking_finishes:
  assumes "gc_inv h" and "is_marking h" and B: "B \<noteq> 0"
  shows "\<exists>n h' k. n \<le> Suc (work_left h []) \<and> run_ops (run_op p) (replicate n (MarkIncrement B)) h = ret h' \<and>
    all_allowed (run_op p) (allowed p) (replicate n (MarkIncrement B)) h \<and> mark_run h [] h' [] k \<and> gray_queue h' = []"
  using assms(1,2)
proof (induction "work_left h []" arbitrary: h rule: less_induct)
  case less
  obtain xs where "heap_inv xs h" using gc_inv_heap [OF less.prems(1)] by blast
  then have "marking_inv h []" using marking_inv_start gc_inv_tricolor [OF less.prems(1)] by blast
  then obtain r k where r: "do_mark_incremental h B = ret r" "mark_run h [] (snd r) [] k"
      "k < unat B \<longrightarrow> gray_queue (snd r) = []"
    using do_mark_incremental_run [of h B] by (auto simp: returns_iff)
  have step: "run_op p (MarkIncrement B) h = ret (snd r)" using r(1) by (cases r) simp
  show ?case
  proof (cases "k = 0")
    case True
    then have "gray_queue (snd r) = []" using r(3) B by (simp add: unat_gt_0)
    then show ?thesis using step r(2) less.prems(2) by (intro exI [of _ "Suc 0"]) auto
  next
    case False
    have w: "work_left (snd r) [] < work_left h []" using r(2) False unfolding mark_run_def by linarith
    have "gc_inv (snd r)" using mark_run_gc_inv [OF less.prems(1) r(2)] .
    moreover have "is_marking (snd r)" using mark_run_is_marking [OF r(2)] less.prems(2) by simp
    ultimately obtain n h' j where ih: "n \<le> Suc (work_left (snd r) [])"
        "run_ops (run_op p) (replicate n (MarkIncrement B)) (snd r) = ret h'"
        "all_allowed (run_op p) (allowed p) (replicate n (MarkIncrement B)) (snd r)"
        "mark_run (snd r) [] h' [] j" "gray_queue h' = []"
      using less.hyps [OF w] by blast
    then show ?thesis
      using step less.prems(2) w mark_run_trans [OF r(2) ih(4)] by (intro exI [of _ "Suc n"]) auto
  qed
qed

lemma gc_inv_after:
  assumes "incremental_work_budget o' \<noteq> 0" and "all_allowed (run_op p) (allowed p) ops (heap_init o')"
    and "run_ops (run_op p) ops (heap_init o') = ret h"
  shows "gc_inv h"
  using gc.run_ops_inv [OF gc_inv_init [OF assms(1)] assms(2)] assms(3) by simp

section \<open>Properties\<close>

text \<open>The node at 3 is garbage when the cycle starts; during the cycle a node is allocated and another one dies.\<close>

definition before_cycle :: "operation list" where
  "before_cycle = [Allocate 3 Node 48 (node_val 3 None), Allocate 2 Node 48 (node_val 2 None), DropRoot 3]"

definition during_cycle :: "operation list" where
  "during_cycle = [Allocate 4 Node 48 (node_val 4 None), DropRoot 2, MarkIncrement 100]"


lemma reach_before_cycle:
  assumes "run_ops (run_op Release) before_cycle (heap_init options_DEFAULT) = ret h"
  shows "dom (mem h) - reach (mem h) = {3}"
proof -
  have m: "dom (mem h) = {2, 3}" "Collect (root_at (mem h)) = {2}" "succs (mem h) 2 = {}"
    using assms by (auto simp: before_cycle_def exec op_checks split: if_splits)
  have "reach (mem h) \<subseteq> {2}" by (rule reach_least) (use m in auto)
  moreover have "2 \<in> reach (mem h)" using m(2) by (intro reach.reach_root) blast
  ultimately show ?thesis using m(1) by auto
qed


text \<open>
  C12: a cycle can always be finished. In every state of a disciplined use in which the heap is marking, at most
  one increment per remaining piece of work and one more empty the queue, whatever their positive
  budget; the sweep is then allowed, ends, and leaves the heap idle.
\<close>

theorem cycle_can_finish:
  assumes "incremental_work_budget o' \<noteq> 0"
    and "all_allowed (run_op p) (allowed p) pre (heap_init o')" and "run_ops (run_op p) pre (heap_init o') = ret h"
    and "is_marking h" and "pacing_safe p h" and "B \<noteq> 0"
  shows "\<exists>n h'. n \<le> Suc (work_left h []) \<and>
    all_allowed (run_op p) (allowed p) (replicate n (MarkIncrement B) @ [SweepAndFinish]) h \<and>
    run_ops (run_op p) (replicate n (MarkIncrement B) @ [SweepAndFinish]) h = ret h' \<and>
    quiescent h' \<and> reach (mem h) \<subseteq> dom (mem h')"
proof -
  have inv: "gc_inv h" by (rule gc_inv_after [OF assms(1-3)])
  obtain n h1 k where n: "n \<le> Suc (work_left h [])" "run_ops (run_op p) (replicate n (MarkIncrement B)) h = ret h1"
      "all_allowed (run_op p) (allowed p) (replicate n (MarkIncrement B)) h" "mark_run h [] h1 [] k" "gray_queue h1 = []"
    using marking_finishes [OF inv assms(4,6)] by blast
  have views: "reach (mem h1) = reach (mem h)"
    using mark_run_store [OF n(4)] store_reach_of by metis
  have "cycle_inv {} h1"
    using mark_run_gc_inv [OF inv n(4)] mark_run_is_marking [OF n(4)] assms(4) by (simp add: cycle_inv_def sealed_def)
  moreover have ok: "allowed p SweepAndFinish h1"
    using mark_run_is_marking [OF n(4)] mark_run_frame [OF n(4)] assms(4,5) n(5) by (simp add: pacing_safe_def)
  ultimately obtain h' where h': "run_op p SweepAndFinish h1 = ret h'" "reach (mem h1) \<subseteq> dom (mem h')" "quiescent h'"
    using cycle_end [OF _ ok] unfolding returns_iff by blast
  then show ?thesis
    using n views ok by (intro exI [of _ n] exI [of _ h']) (simp add: run_ops_append all_allowed_append [OF n(2)])
qed

theorem cycle_can_finish_witness:
  "\<exists>h n h'. run_ops (run_op Release) (before_cycle @ [StartMarking]) (heap_init options_DEFAULT) = ret h \<and> is_marking h \<and>
     run_ops (run_op Release) (replicate n (MarkIncrement 1) @ [SweepAndFinish]) h = ret h' \<and> quiescent h'"
proof -
  have 1: "all_allowed (run_op Release) (allowed Release) (before_cycle @ [StartMarking]) (heap_init options_DEFAULT)"
    by (simp add: before_cycle_def exec op_checks)
  have "returns (run_ops (run_op Release) (before_cycle @ [StartMarking]) (heap_init options_DEFAULT)) is_marking"
    by (simp add: before_cycle_def exec op_checks)
  then obtain h where h: "run_ops (run_op Release) (before_cycle @ [StartMarking]) (heap_init options_DEFAULT) = ret h"
      "is_marking h"
    unfolding returns_iff by blast
  have "incremental_work_budget options_DEFAULT \<noteq> 0" by (simp add: options_DEFAULT_def)
  moreover have "pacing_safe Release h" by (simp add: pacing_safe_def)
  ultimately show ?thesis using cycle_can_finish [OF _ 1 h, of 1] h by auto
qed

end
