(* ===== verification/Coexistence.thy ===== *)
theory Coexistence
  imports Background Cycle
begin

text \<open>
  The background thread together with mutators: the events of \<open>Background\<close> under a discipline, with an
  invariant that ties the program point of the thread to the phase of the heap. The interpretation
  \<open>bgm\<close> of \<open>safe_machine\<close> gives safety of all runs; the last theorem shows that the condition on stores
  between the last increment and the sweep is needed.
\<close>

section \<open>Discipline\<close>

fun mutator_op :: "operation \<Rightarrow> bool" where
  "mutator_op StartMarking = False"
| "mutator_op (MarkIncrement budget) = False"
| "mutator_op SweepAndFinish = False"
| "mutator_op x = True"

fun is_set :: "operation \<Rightarrow> bool" where
  "is_set (SetCell a p t v) = True"
| "is_set x = False"

text \<open>The points at which the thread has seen that no work is left and has not swept yet.\<close>

definition between_mark_and_sweep :: "bg_pc \<Rightarrow> bool" where
  "between_mark_and_sweep pc \<longleftrightarrow> pc = MarkingComplete \<or> pc = ReadyToSweep"

fun bg_allowed :: "profile \<Rightarrow> event \<Rightarrow> bg_state \<Rightarrow> bool" where
  "bg_allowed p (Op x) (pc, tr, h) =
     (allowed p x h \<and> mutator_op x \<and> \<not> (between_mark_and_sweep pc \<and> is_set x))"
| "bg_allowed p (Bg timed_out) s = True"
| "bg_allowed p StopBg (pc, tr, h) = (pc = Waiting \<or> pc = Exited)"

definition bg_inv :: "stop_condition \<Rightarrow> bg_state \<Rightarrow> bool" where
  "bg_inv c s \<longleftrightarrow>
     (case s of (pc, tr, h) \<Rightarrow>
        tr = [] \<and> gc_inv h \<and> (is_marking h \<longleftrightarrow> pc \<noteq> Waiting \<and> pc \<noteq> Exited) \<and>
        (is_marking h \<longrightarrow> \<not> is_stopped (bg_thread h) c) \<and>
        (between_mark_and_sweep pc \<longrightarrow> gray_queue h = []))"

lemma bg_invI:
  assumes "gc_inv h" and "is_marking h \<longleftrightarrow> pc \<noteq> Waiting \<and> pc \<noteq> Exited"
    and "is_marking h \<Longrightarrow> \<not> is_stopped (bg_thread h) c" and "between_mark_and_sweep pc \<Longrightarrow> gray_queue h = []"
  shows "bg_inv c (pc, [], h)"
  using assms by (simp add: bg_inv_def)

section \<open>Operations of mutators\<close>

lemma mark_run_no_work:
  assumes inv: "gc_inv h" and q: "gray_queue h = []" and run: "mark_run h [] h' [] n"
  shows "gray_queue h' = []"
proof -
  have "\<forall>a\<in>nonwhite (mem h). succs (mem h) a \<subseteq> nonwhite (mem h)"
    using tricolor_closed [OF gc_inv_tricolor [OF inv]] q by simp
  then have "nonwhite (mem h') = nonwhite (mem h)" using run unfolding mark_run_def by blast
  moreover have "dom (mem h') = dom (mem h)" using recolored_dom [OF mark_run_mem(1) [OF run]] .
  ultimately have "{a \<in> dom (mem h'). white_at (mem h') a} = {a \<in> dom (mem h). white_at (mem h) a}"
    unfolding nonwhite_def by blast
  then have "n_white (mem h') = n_white (mem h)" by (simp add: n_white_def)
  moreover have "work_left h' [] \<le> work_left h []" using run unfolding mark_run_def by linarith
  ultimately show ?thesis using q by (simp add: work_left_def)
qed

definition op_frame :: "operation \<Rightarrow> heap \<Rightarrow> heap \<Rightarrow> bool" where
  "op_frame x h h' \<longleftrightarrow>
     is_marking h' = is_marking h \<and> bg_thread h' = bg_thread h \<and>
     (is_marking h \<and> gray_queue h = [] \<and> \<not> is_set x \<longrightarrow> gray_queue h' = [])"

lemma op_frame_refl: "op_frame x h h"
  by (simp add: op_frame_def)

lemma allocate_frame:
  assumes inv: "gc_inv h" and ok: "allowed p (Allocate a t sz v) h"
  shows "returns (run_op p (Allocate a t sz v) h) (op_frame (Allocate a t sz v) h)"
proof -
  obtain xs where xs: "heap_inv xs h" using gc_inv_heap [OF inv] by blast
  have "allocatable h a t sz v" using ok by simp
  from allocate_run [OF xs gc_inv_tricolor [OF inv] this]
  obtain r h1 n where r: "allocate h a t sz v = ret r" "mark_run h [] h1 [] n" "snd r = with_fresh h1 a t sz v"
    by (auto simp: returns_iff)
  have "op_frame (Allocate a t sz v) h (snd r)"
    unfolding r(3) using mark_run_frame [OF r(2)] mark_run_no_work [OF inv _ r(2)] by (simp add: op_frame_def is_marking_def)
  then show ?thesis using r(1) by (cases r) simp
qed

lemma set_cell_frame:
  assumes inv: "gc_inv h" and ok: "allowed p (SetCell a pth t v) h"
  shows "returns (run_op p (SetCell a pth t v) h) (op_frame (SetCell a pth t v) h)"
proof -
  have st: "storable (mem h) a pth t v" using ok by simp
  have "returns (cell_set h (Some []) a pth v) (\<lambda>r. phase (fst r) = phase h \<and> bg_thread (fst r) = bg_thread h)"
  proof (cases "is_marking h")
    case False
    then have "returns (cell_set h (Some []) a pth v) (\<lambda>r. snd r = Some [] \<and> stored h a pth v (fst r))"
      using cell_set_idle_run [OF _ st] by simp
    then show ?thesis by (rule returns_mono) (metis stored_frame(1,8))
  next
    case True
    from cell_set_marking_run [OF gc_inv_tricolor [OF inv] True st] show ?thesis
      by (rule returns_mono) (metis stored_frame(1,8) shaded_frame(5,6))
  qed
  then show ?thesis by (auto simp: returns_iff op_frame_def is_marking_def)
qed

lemma force_collect_frame:
  assumes inv: "gc_inv h" and pc: "pacing_safe p h" and x: "\<not> is_set x"
  shows "returns (force_collect p h) (\<lambda>r. op_frame x h (snd r))"
proof (cases "quiescent h")
  case True
  obtain xs where xs: "heap_inv xs h" using gc_inv_heap [OF inv] by blast
  have "ready h" using inv True by (simp add: gc_inv_def ready_def)
  from force_collect_run [OF xs this pc] show ?thesis
    by (rule returns_mono) (use is_marking_quiescent True in \<open>auto simp: op_frame_def collected_def\<close>)
next
  case False
  then have "phase h \<noteq> phase_as_u8 Idle" using inv by (simp add: gc_inv_def marking_state_def)
  then show ?thesis by (simp add: op_frame_def force_collect_def try_mark_full_def try_start_marking_def)
qed

lemma handle_frame:
  assumes x: "x \<in> {RootPtr a, CloneRoot a, DropRoot a}" and ok: "allowed p x h"
  shows "returns (run_op p x h) (op_frame x h)"
proof -
  obtain b where b: "mem h a = Some b" using x ok view_dom(4) [of "mem h" a] by fastforce
  then show ?thesis using x by (auto simp: handle_ops_eq op_frame_def is_marking_def)
qed

lemma mutator_frame:
  assumes inv: "gc_inv h" and ok: "allowed p x h" and x: "mutator_op x"
  shows "returns (run_op p x h) (op_frame x h)"
proof (cases x)
  case ForceCollect
  then show ?thesis using force_collect_frame [OF inv] ok by (auto intro: returns_bind_snd)
next
  case CollectIfNeeded
  then show ?thesis
    using force_collect_frame [OF inv] ok op_frame_refl by (auto intro: returns_bind_snd simp: collect_def)
qed (use x ok handle_frame allocate_frame [OF inv] set_cell_frame [OF inv] in \<open>auto simp del: run_op.simps allowed_def\<close>)

section \<open>Steps of the thread\<close>

definition bg_safe :: "stop_condition \<Rightarrow> heap \<Rightarrow> bg_state \<Rightarrow> bool" where
  "bg_safe c h s \<longleftrightarrow> bg_inv c s \<and> reach (mem h) \<subseteq> dom (mem (snd (snd s)))"

lemma bg_safe_same_heap:
  assumes "bg_inv c (pc, tr, h)" and "bg_inv c (pc', [], h)"
  shows "bg_safe c h (pc', [], h)"
  using assms safe_from_dom [of h h] by (auto simp: bg_safe_def bg_inv_def safe_from_def)

lemma op_bg_safe:
  assumes inv: "bg_inv c (pc, tr, h)" and ok: "bg_allowed p (Op x) (pc, tr, h)"
  shows "returns (run_event p c (Op x) (pc, tr, h)) (bg_safe c h)"
proof -
  have gi: "gc_inv h" and al: "allowed p x h" and m: "mutator_op x" using inv ok by (simp_all add: bg_inv_def)
  obtain h' where h': "run_op p x h = ret h'" "safe_from h h'" "op_frame x h h'"
    using returns_conj [OF run_op_safe [OF gi al] mutator_frame [OF gi al m]] unfolding returns_iff by blast
  have "bg_inv c (pc, [], h')"
  proof (rule bg_invI)
    show "gc_inv h'" using h'(2) by (simp add: safe_from_def)
    show "is_marking h' \<longleftrightarrow> pc \<noteq> Waiting \<and> pc \<noteq> Exited" using h'(3) inv by (simp add: op_frame_def bg_inv_def)
    show "\<not> is_stopped (bg_thread h') c" if "is_marking h'" using that h'(3) inv by (simp add: op_frame_def bg_inv_def)
    show "gray_queue h' = []" if w: "between_mark_and_sweep pc"
    proof -
      have "is_marking h" "gray_queue h = []" "\<not> is_set x"
        using w inv ok by (auto simp: bg_inv_def between_mark_and_sweep_def)
      then show ?thesis using h'(3) by (simp add: op_frame_def)
    qed
  qed
  moreover have "tr = []" using inv by (simp add: bg_inv_def)
  ultimately show ?thesis using h'(1,2) by (simp add: bg_safe_def safe_from_def)
qed

lemma bg_waiting_safe:
  assumes inv: "bg_inv c (Waiting, tr, h)"
  shows "returns (bg_step p c timed_out (Waiting, tr, h)) (bg_safe c h)"
proof -
  have gi: "gc_inv h" and idle: "\<not> is_marking h" and tr: "tr = []" using inv by (simp_all add: bg_inv_def)
  have stay: "bg_safe c h (pc, [], h)" if "pc = Waiting \<or> pc = Exited" for pc
    by (rule bg_safe_same_heap [OF inv]) (use that gi idle in \<open>auto simp: bg_inv_def between_mark_and_sweep_def\<close>)
  show ?thesis
  proof (cases "collection_interval (options h) = 0 \<or> wait_stopped (bg_thread h) c timed_out \<or> \<not> should_collect h")
    case True
    then show ?thesis using stay tr by auto
  next
    case False
    let ?h1 = "h\<lparr>phase := phase_as_u8 Marking\<rparr>"
    have run: "\<not> is_stopped (bg_thread h) c" using False by (auto simp: wait_stopped_def)
    have q: "phase h = phase_as_u8 Idle"
      using gi idle is_marking_phase by (auto simp: gc_inv_def marking_state_def quiescent_def)
    obtain xs where xs: "heap_inv xs h" using gc_inv_heap [OF gi] by blast
    have "heap_inv xs ?h1" "tricolor (mem ?h1) (set (gray_queue ?h1))" using xs gc_inv_tricolor [OF gi] by simp_all
    from do_mark_roots_run [OF this] obtain r where r: "do_mark_roots ?h1 [] = ret r" "snd r = []"
        "fst r = ?h1\<lparr>mem := mem (fst r), gray_queue := gray_queue (fst r)\<rparr>"
      by (rule returnsE) blast
    have frame: "phase (fst r) = phase_as_u8 Marking" "bg_thread (fst r) = bg_thread h" by (subst r(3), simp)+
    have r': "do_mark_roots ?h1 [] = ret (fst r, [])" using r(1,2) by (cases r) simp
    then have "run_op p StartMarking h = ret (fst r)"
      using q by (simp add: start_marking_def try_start_marking_def tracer_new_def)
    then have "safe_from h (fst r)" using start_marking_safe [OF gi, of p] by simp
    moreover have "bg_inv c (InLoop, [], fst r)"
      using calculation frame is_marking_phase [OF frame(1)] run
      by (intro bg_invI) (simp_all add: safe_from_def between_mark_and_sweep_def)
    ultimately have "bg_safe c h (InLoop, [], fst r)" by (simp add: bg_safe_def safe_from_def)
    then show ?thesis using False q r' tr by (simp add: try_start_marking_def)
  qed
qed

lemma bg_in_loop_safe:
  assumes inv: "bg_inv c (InLoop, tr, h)"
  shows "returns (bg_step p c timed_out (InLoop, tr, h)) (bg_safe c h)"
proof -
  have gi: "gc_inv h" and m: "is_marking h" and tr: "tr = []" and run: "\<not> is_stopped (bg_thread h) c"
    using inv by (simp_all add: bg_inv_def)
  let ?B = "incremental_work_budget (options h)"
  have B: "0 < unat ?B" using gi by (simp add: gc_inv_def unat_gt_0)
  obtain xs where "heap_inv xs h" using gc_inv_heap [OF gi] by blast
  then have "marking_inv h []" using marking_inv_start gc_inv_tricolor [OF gi] by blast
  then obtain r k where r: "do_mark_incremental h ?B = ret r" "mark_run h [] (snd r) [] k" "fst r \<longleftrightarrow> k = 0"
      "k < unat ?B \<longrightarrow> gray_queue (snd r) = []"
    using do_mark_incremental_run [of h ?B] by (auto simp: returns_iff)
  have "bg_inv c (if fst r then MarkingComplete else InLoop, [], snd r)"
    using mark_run_gc_inv [OF gi r(2)] mark_run_is_marking [OF r(2)] m mark_run_frame(6) [OF r(2)] run r(3,4) B
    by (intro bg_invI) (auto simp: between_mark_and_sweep_def)
  moreover have "reach (mem h) \<subseteq> dom (mem (snd r))"
    using safe_from_dom [OF gi gi] recolored_dom [OF mark_run_mem(1) [OF r(2)]] by (simp add: safe_from_def)
  ultimately show ?thesis using r(1) run tr by (cases r) (simp add: bg_safe_def)
qed

lemma bg_step_safe:
  assumes inv: "bg_inv c (pc, tr, h)" and p: "p = Release"
  shows "returns (bg_step p c timed_out (pc, tr, h)) (bg_safe c h)"
proof (cases pc)
  case Waiting
  then show ?thesis using bg_waiting_safe inv by blast
next
  case InLoop
  then show ?thesis using bg_in_loop_safe inv by blast
next
  case MarkingComplete
  have "\<not> yield_once_if_marking_busy h" using inv by (simp add: bg_inv_def gc_inv_def yield_once_if_marking_busy_def)
  moreover have "bg_safe c h (ReadyToSweep, [], h)"
    by (rule bg_safe_same_heap [OF inv]) (use inv MarkingComplete in \<open>auto simp: bg_inv_def between_mark_and_sweep_def\<close>)
  ultimately show ?thesis using MarkingComplete inv by (simp add: bg_inv_def)
next
  case ReadyToSweep
  have gi: "gc_inv h" and m: "is_marking h" and q: "gray_queue h = []" and tr: "tr = []"
    using inv ReadyToSweep by (simp_all add: bg_inv_def between_mark_and_sweep_def)
  have ok: "allowed p SweepAndFinish h" using m q p by (simp add: pacing_safe_def)
  have "cycle_inv {} h" using gi m by (simp add: cycle_inv_def sealed_def)
  then obtain h' where h': "run_op p SweepAndFinish h = ret h'" "reach (mem h) \<subseteq> dom (mem h')" "quiescent h'" "gc_inv h'"
    using returns_conj [OF cycle_end [OF _ ok] gc.run_inv [OF gi ok]] unfolding returns_iff by blast
  have "bg_inv c (Waiting, [], h')"
    using h'(3,4) is_marking_quiescent by (intro bg_invI) (auto simp: between_mark_and_sweep_def)
  then show ?thesis
    using h'(1,2) ReadyToSweep tr by (auto simp: bg_safe_def bind_eq_ret_iff split: prod.splits)
next
  case Exited
  then show ?thesis using bg_safe_same_heap [OF inv] inv by (simp add: bg_inv_def)
qed

lemma event_bg_safe:
  assumes inv: "bg_inv c s" and ok: "bg_allowed Release e s"
  shows "returns (run_event Release c e s) (bg_safe c (snd (snd s)))"
proof -
  obtain pc tr h where s: "s = (pc, tr, h)" by (cases s)
  show ?thesis
  proof (cases e)
    case (Op x)
    then show ?thesis using op_bg_safe inv ok s by auto
  next
    case (Bg timed_out)
    then show ?thesis using bg_step_safe inv s by auto
  next
    case StopBg
    let ?g = "snd (ssj_stop (bg_thread h))"
    have "bg_inv c (pc, [], h\<lparr>bg_thread := ?g\<rparr>)"
      using inv ok s StopBg
      by (auto simp: bg_inv_def between_mark_and_sweep_def gc_inv_def marking_state_def quiescent_def is_marking_def)
    moreover have "reach (mem h) \<subseteq> dom (mem h)"
      using inv s safe_from_dom [of h h] by (simp add: bg_inv_def safe_from_def)
    ultimately show ?thesis
      using inv s StopBg by (simp add: bg_safe_def bg_inv_def stop_background_collection_def case_prod_beta)
  qed
qed

interpretation bgm: safe_machine "run_event Release c" "bg_allowed Release" "bg_inv c"
    "\<lambda>s. reach (mem (snd (snd s)))" "\<lambda>s. dom (mem (snd (snd s)))" for c
proof unfold_locales
  show "returns (run_event Release c e s) (bg_inv c)" if "bg_inv c s" "bg_allowed Release e s" for e s
    using event_bg_safe [OF that] by (rule returns_mono) (simp add: bg_safe_def)
  show "reach (mem (snd (snd s))) \<subseteq> dom (mem (snd (snd s')))"
    if "bg_inv c s" "bg_allowed Release e s" "run_event Release c e s = ret s'" for e s s'
    using event_bg_safe [OF that(1,2)] that(3) by (simp add: bg_safe_def)
  show "reach (mem (snd (snd s))) \<subseteq> dom (mem (snd (snd s)))" if "bg_inv c s" for s
    using that safe_from_dom [of "snd (snd s)" "snd (snd s)"] by (cases s) (simp add: bg_inv_def safe_from_def)
qed

lemma bg_inv_created:
  assumes "incremental_work_budget o' \<noteq> 0" and "heap_with_options p o' tid = ret (Some c, h)"
  shows "bg_inv c (Waiting, [], h)"
proof -
  obtain g where h: "h = (heap_init o')\<lparr>bg_thread := g\<rparr>"
    using assms(2) by (auto simp: heap_with_options_def start_background_collection_def bind_eq_ret_iff split: if_splits prod.splits)
  have "gc_inv (heap_init o')" "\<not> is_marking (heap_init o')"
    using gc_inv_init [OF assms(1)] by (simp_all add: is_marking_def heap_init_def phase_from_def)
  then show ?thesis
    unfolding h by (intro bg_invI)
      (auto simp: between_mark_and_sweep_def gc_inv_def marking_state_def quiescent_def is_marking_def)
qed

section \<open>Properties\<close>

text \<open>A cell object and a node are allocated, a cycle runs while the node is stored in the cell and its handle dropped.\<close>

definition coexistence_run :: "event list" where
  "coexistence_run =
     [Op (Allocate 2 CellObj 48 (cell_new VNone)), Op (Allocate 3 Node 48 (node_val 3 None)), Bg True,
      Op (SetCell 2 [] (TOption (TGcPtr False)) (VSome (VPtr False 3))), Op (DropRoot 3), Bg True, Bg True, Bg True, Bg True]"



text \<open>The node at 3 points to the node at 5; neither has a handle when the cycle starts. After the last
  increment of the cycle, 3 is stored in the rooted cell.\<close>

definition late_store_run :: "event list" where
  "late_store_run =
     [Op (Allocate 5 Node 48 (node_val 5 None)), Op (Allocate 3 Node 48 (node_val 3 (Some 5))),
      Op (Allocate 2 CellObj 48 (cell_new VNone)), Op (DropRoot 5), Op (DropRoot 3),
      Bg True, Bg True, Bg True, Bg True, Op (SetCell 2 [] (TOption (TGcPtr False)) (VSome (VPtr False 3))), Bg True]"

text \<open>
  C31: a store between the last increment and the sweep is lost on the collector. The barrier shades the
  stored object and queues it, but no one scans it any more: the sweep keeps it and frees the object it
  points to. Every event of this run is within the discipline except that it stores into a cell at
  this point, which nothing in the code prevents; it ends with a reachable object that
  points to freed memory.
\<close>

theorem late_store_unsafe:
  "all_allowed (run_event Release 1) (event_allowed Release) late_store_run (Waiting, [], started_heap) \<and>
   (\<exists>h'. run_ops (run_event Release 1) late_store_run (Waiting, [], started_heap) = ret (Waiting, [], h') \<and>
      root_at (mem h') 2 \<and> 3 \<in> succs (mem h') 2 \<and> 5 \<in> succs (mem h') 3 \<and>
      gc_ptr_read (mem h') 5 = raise (UseAfterFree 5))"
  by (intro conjI) (simp_all add: late_store_run_def exec op_checks gc_ptr_read_def)

end
