(* ===== verification/Concurrent_Test.thy ===== *)
theory Concurrent_Test
  imports Object_Store Coexistence
begin

text \<open>
  The multi-threaded unit test \<open>concurrent_collection\<close> of \<open>src/src/lib.rs\<close>: the main thread allocates ten roots,
  four threads allocate a hundred vectors each and drop them at once, a background thread collects, and after
  the threads have been joined and a last collection the roots must have their values and less than half of the
  bytes may be left. As in \<open>Multi_Threaded\<close>, a step is one call of the library and the threads interleave in
  any order.

  The assertions on the roots hold in every run. The one on the bytes depends on the schedule.
\<close>

section \<open>The test\<close>

definition TEMPS :: nat where
  "TEMPS = 4"

definition VecTy :: ty where
  "VecTy = TIter K_Vec (TPrim P_i32)"

definition temp_val :: val where
  "temp_val = VSeq (map VPrim [1, 2, 3, 4, 5])"

definition test_options :: gc_options where
  "test_options = options_DEFAULT\<lparr>min_threshold_bytes := 1024\<rparr>"

text \<open>A thread is about to allocate in round \<open>i\<close>, or to drop what it allocated, or has been joined.\<close>

datatype temp_pc = TempAlloc nat | TempDrop nat addr | TempDone

record test_state =
  roots :: "addr list"
  temps :: "nat \<Rightarrow> temp_pc"
  peak_bytes :: "usize option"
  theap :: heap

definition temp_step :: "profile \<Rightarrow> usize \<Rightarrow> addr \<Rightarrow> temp_pc \<Rightarrow> heap \<Rightarrow> (temp_pc \<times> heap) prog" where
  "temp_step p tsz a pc h =
     (case pc of
        TempAlloc i \<Rightarrow>
          if i < 100 then bind_prog (run_op p (Allocate a VecTy tsz temp_val) h) (\<lambda>h'. ret (TempDrop i a, h'))
          else ret (TempDone, h)
      | TempDrop i temp \<Rightarrow> bind_prog (run_op p (DropRoot temp) h) (\<lambda>h'. ret (TempAlloc (Suc i), h'))
      | TempDone \<Rightarrow> ret (TempDone, h))"

datatype test_event = MainAllocates addr | Temp nat addr | MainReadsPeak | Background operation

fun run_test :: "profile \<Rightarrow> usize \<Rightarrow> usize \<Rightarrow> test_event \<Rightarrow> test_state \<Rightarrow> test_state prog" where
  "run_test p rsz tsz (MainAllocates a) st =
     bind_prog (run_op p (Allocate a (TPrim P_usize) rsz (VPrim (int (length (roots st))))) (theap st)) (\<lambda>h'.
       ret (st\<lparr>roots := vec_push (roots st) a, theap := h'\<rparr>))"
| "run_test p rsz tsz (Temp t a) st =
     bind_prog (temp_step p tsz a (temps st t) (theap st)) (\<lambda>(pc, h').
       ret (st\<lparr>temps := (temps st)(t := pc), theap := h'\<rparr>))"
| "run_test p rsz tsz MainReadsPeak st = ret (st\<lparr>peak_bytes := Some (bytes_allocated (theap st))\<rparr>)"
| "run_test p rsz tsz (Background x) st = bind_prog (run_op p x (theap st)) (\<lambda>h'. ret (st\<lparr>theap := h'\<rparr>))"

definition all_joined :: "test_state \<Rightarrow> bool" where
  "all_joined st = list_all (\<lambda>t. temps st t = TempDone) [0..<TEMPS]"

text \<open>
  Main allocates ten roots, then spawns the threads, and reads the peak after it has joined them. The allocator
  returns fresh addresses and the byte counter does not overflow.
\<close>

fun test_allowed :: "profile \<Rightarrow> usize \<Rightarrow> usize \<Rightarrow> test_event \<Rightarrow> test_state \<Rightarrow> bool" where
  "test_allowed p rsz tsz (MainAllocates a) st =
     (length (roots st) < 10 \<and> a \<notin> dom (mem (theap st)) \<and> unat (bytes_allocated (theap st)) + unat rsz < 2 ^ 64)"
| "test_allowed p rsz tsz (Temp t a) st =
     (t < TEMPS \<and> length (roots st) = 10 \<and> a \<notin> dom (mem (theap st)) \<and>
      unat (bytes_allocated (theap st)) + unat tsz < 2 ^ 64)"
| "test_allowed p rsz tsz MainReadsPeak st = (all_joined st \<and> peak_bytes st = None)"
| "test_allowed p rsz tsz (Background x) st = (collector_op x \<and> allowed p x (theap st))"

definition test_init :: "gc_options \<Rightarrow> test_state" where
  "test_init o' = \<lparr>roots = [], temps = (\<lambda>_. TempAlloc 0), peak_bytes = None, theap = heap_init o'\<rparr>"

text \<open>The end of the test: what the assertions on the roots and the one on the bytes find.\<close>

fun check_roots :: "nat \<Rightarrow> addr list \<Rightarrow> mem \<Rightarrow> bool list prog" where
  "check_roots i [] m = ret []"
| "check_roots i (r # rs) m =
     bind_prog (gc_root_deref m r) (\<lambda>v. bind_prog (check_roots (Suc i) rs m) (\<lambda>bs. ret ((v = VPrim (int i)) # bs)))"

definition test_end :: "profile \<Rightarrow> test_state \<Rightarrow> (bool list \<times> usize \<times> heap) prog" where
  "test_end p st =
     bind_prog (force_collect p (theap st)) (\<lambda>(_, h).
     bind_prog (check_roots 0 (roots st) (mem h)) (\<lambda>bs.
     let final_bytes = bytes_allocated h
     in ret (bs @ [final_bytes < the (peak_bytes st) div 2], final_bytes, h)))"

section \<open>Invariant\<close>

fun temp_of :: "temp_pc \<Rightarrow> addr set" where
  "temp_of (TempDrop i a) = {a}"
| "temp_of pc = {}"

definition live_temps :: "test_state \<Rightarrow> addr set" where
  "live_temps st = (\<Union>t<TEMPS. temp_of (temps st t))"

definition test_store :: "usize \<Rightarrow> usize \<Rightarrow> test_state \<Rightarrow> store \<Rightarrow> bool" where
  "test_store rsz tsz st s \<longleftrightarrow>
     (\<forall>i<length (roots st). s (roots st ! i) = Some (new_object (TPrim P_usize) rsz (VPrim (int i)))) \<and>
     (\<forall>a\<in>live_temps st. s a = Some (new_object VecTy tsz temp_val)) \<and>
     store_roots s \<subseteq> set (roots st) \<union> live_temps st \<and>
     (\<forall>a ob. s a = Some ob \<longrightarrow> gc_ptrs (obj_data ob) = [])"

definition temps_ok :: "test_state \<Rightarrow> bool" where
  "temps_ok st \<longleftrightarrow>
     length (roots st) \<le> 10 \<and> (\<forall>t<TEMPS. temps st t = TempAlloc 0 \<or> length (roots st) = 10) \<and>
     (\<forall>t<TEMPS. \<forall>u<TEMPS. t \<noteq> u \<longrightarrow> temp_of (temps st t) \<inter> temp_of (temps st u) = {})"

definition test_inv :: "usize \<Rightarrow> usize \<Rightarrow> test_state \<Rightarrow> bool" where
  "test_inv rsz tsz st \<longleftrightarrow> gc_inv (theap st) \<and> temps_ok st \<and> test_store rsz tsz st (store_of (mem (theap st)))"

lemma test_invD:
  assumes "test_inv rsz tsz st"
  shows "gc_inv (theap st)" and "temps_ok st" and "test_store rsz tsz st (store_of (mem (theap st)))"
  using assms by (simp_all add: test_inv_def)

lemma test_storeD:
  assumes "test_store rsz tsz st s"
  shows "i < length (roots st) \<Longrightarrow> s (roots st ! i) = Some (new_object (TPrim P_usize) rsz (VPrim (int i)))"
    and "a \<in> live_temps st \<Longrightarrow> s a = Some (new_object VecTy tsz temp_val)"
    and "store_roots s \<subseteq> set (roots st) \<union> live_temps st"
    and "s a = Some ob \<Longrightarrow> gc_ptrs (obj_data ob) = []"
  using assms by (simp_all add: test_store_def)

lemma test_storeI:
  assumes "\<And>i. i < length (roots st) \<Longrightarrow> s (roots st ! i) = Some (new_object (TPrim P_usize) rsz (VPrim (int i)))"
    and "\<And>a. a \<in> live_temps st \<Longrightarrow> s a = Some (new_object VecTy tsz temp_val)"
    and "store_roots s \<subseteq> set (roots st) \<union> live_temps st"
    and "\<And>a ob. s a = Some ob \<Longrightarrow> gc_ptrs (obj_data ob) = []"
  shows "test_store rsz tsz st s"
  using assms unfolding test_store_def by blast

lemma test_store_objects:
  assumes "test_store rsz tsz st s"
  shows "set (roots st) \<union> live_temps st \<subseteq> dom s" and "set (roots st) \<inter> live_temps st = {}" and "distinct (roots st)"
proof -
  note D = test_storeD [OF assms]
  show "set (roots st) \<union> live_temps st \<subseteq> dom s" using D(1,2) by (auto simp: in_set_conv_nth)
  show "set (roots st) \<inter> live_temps st = {}"
  proof (rule ccontr)
    assume "set (roots st) \<inter> live_temps st \<noteq> {}"
    then obtain i where "i < length (roots st)" "roots st ! i \<in> live_temps st" by (auto simp: in_set_conv_nth)
    then show False using D(1) [of i] D(2) [of "roots st ! i"] by (simp add: new_object_def temp_val_def)
  qed
  show "distinct (roots st)"
  proof (rule ccontr)
    assume "\<not> distinct (roots st)"
    then obtain i j where ij: "i < length (roots st)" "j < length (roots st)" "i \<noteq> j" "roots st ! i = roots st ! j"
      by (auto simp: distinct_conv_nth)
    then show False using D(1) [of i] D(1) [of j] by (simp add: new_object_def)
  qed
qed

lemma no_pointers_reach:
  assumes "\<And>a ob. s a = Some ob \<Longrightarrow> gc_ptrs (obj_data ob) = []"
  shows "store_reach s = store_roots s"
proof
  show "store_reach s \<subseteq> store_roots s"
  proof
    fix a assume "a \<in> store_reach s"
    then show "a \<in> store_roots s"
    proof (induction rule: store_reach.induct)
      case (step a b)
      then show ?case using assms by (auto simp: store_succs_def split: option.splits)
    qed
  qed
qed (blast intro: store_reach.root)

lemma test_store_roots:
  assumes "test_store rsz tsz st s"
  shows "store_reach s = set (roots st) \<union> live_temps st"
proof -
  note D = test_storeD [OF assms]
  have "set (roots st) \<union> live_temps st \<subseteq> store_roots s"
    using D(1,2) by (auto simp: store_roots_def new_object_def in_set_conv_nth)
  moreover have "store_reach s = store_roots s" by (rule no_pointers_reach) (rule D(4))
  ultimately show ?thesis using D(3) by blast
qed

section \<open>Steps on the store\<close>

lemma test_store_restrict:
  assumes st: "test_store rsz tsz st s" and K: "store_reach s \<subseteq> K"
  shows "test_store rsz tsz st (s |` K)"
proof (rule test_storeI)
  note D = test_storeD [OF st]
  have sub: "set (roots st) \<union> live_temps st \<subseteq> K" using K test_store_roots [OF st] by simp
  show "(s |` K) (roots st ! i) = Some (new_object (TPrim P_usize) rsz (VPrim (int i)))" if "i < length (roots st)" for i
  proof -
    have "roots st ! i \<in> K" using sub nth_mem [OF that] by blast
    then show ?thesis using D(1) [OF that] by simp
  qed
  show "(s |` K) a = Some (new_object VecTy tsz temp_val)" if "a \<in> live_temps st" for a
    using sub D(2) [OF that] that by auto
  show "store_roots (s |` K) \<subseteq> set (roots st) \<union> live_temps st"
    using D(3) by (auto simp: store_roots_def restrict_map_def split: if_splits)
  show "gc_ptrs (obj_data ob) = []" if "(s |` K) a = Some ob" for a ob
    using D(4) [of a ob] that by (simp add: restrict_map_def split: if_splits)
qed

lemma store_roots_fresh: "store_roots (s(a \<mapsto> new_object t sz v)) \<subseteq> insert a (store_roots s)"
  by (auto simp: store_roots_def split: if_splits)

lemma test_store_temp:
  assumes st: "test_store rsz tsz st s" and a: "a \<notin> dom s"
    and new: "roots st' = roots st" "live_temps st' = insert a (live_temps st)"
  shows "test_store rsz tsz st' (mutate (Allocate a VecTy tsz temp_val) s)"
proof (rule test_storeI, unfold new mutate.simps)
  note D = test_storeD [OF st]
  let ?s = "s(a \<mapsto> new_object VecTy tsz temp_val)"
  show "?s (roots st ! i) = Some (new_object (TPrim P_usize) rsz (VPrim (int i)))" if "i < length (roots st)" for i
    using D(1) [OF that] a by (auto simp: domIff)
  show "?s x = Some (new_object VecTy tsz temp_val)" if "x \<in> insert a (live_temps st)" for x
    using D(2) that by auto
  show "store_roots ?s \<subseteq> set (roots st) \<union> insert a (live_temps st)" using D(3) store_roots_fresh by blast
  show "gc_ptrs (obj_data ob) = []" if "?s x = Some ob" for x ob
    using D(4) [of x ob] that by (auto simp: new_object_def temp_val_def split: if_splits)
qed

lemma test_store_root:
  assumes st: "test_store rsz tsz st s" and a: "a \<notin> dom s"
    and new: "roots st' = roots st @ [a]" "live_temps st' = live_temps st"
  shows "test_store rsz tsz st' (mutate (Allocate a (TPrim P_usize) rsz (VPrim (int (length (roots st))))) s)"
proof (rule test_storeI, unfold new mutate.simps)
  note D = test_storeD [OF st]
  let ?s = "s(a \<mapsto> new_object (TPrim P_usize) rsz (VPrim (int (length (roots st)))))"
  show "?s ((roots st @ [a]) ! i) = Some (new_object (TPrim P_usize) rsz (VPrim (int i)))"
    if "i < length (roots st @ [a])" for i
  proof (cases "i = length (roots st)")
    case False
    then have "i < length (roots st)" using that by simp
    then show ?thesis using D(1) a by (auto simp: nth_append domIff)
  qed simp
  show "?s x = Some (new_object VecTy tsz temp_val)" if "x \<in> live_temps st" for x
    using D(2) [OF that] a by (auto simp: domIff)
  show "store_roots ?s \<subseteq> set (roots st @ [a]) \<union> live_temps st" using D(3) store_roots_fresh by fastforce
  show "gc_ptrs (obj_data ob) = []" if "?s x = Some ob" for x ob
    using D(4) [of x ob] that by (auto simp: new_object_def split: if_splits)
qed

lemma test_store_drop:
  assumes st: "test_store rsz tsz st s" and a: "a \<in> live_temps st"
    and new: "roots st' = roots st" "live_temps st' = live_temps st - {a}"
  shows "test_store rsz tsz st' (mutate (DropRoot a) s)"
proof (rule test_storeI, unfold new)
  note D = test_storeD [OF st]
  have s: "mutate (DropRoot a) s = s(a \<mapsto> (new_object VecTy tsz temp_val)\<lparr>obj_roots := 0\<rparr>)"
    using D(2) [OF a] by (simp add: new_object_def)
  show "mutate (DropRoot a) s (roots st ! i) = Some (new_object (TPrim P_usize) rsz (VPrim (int i)))"
    if "i < length (roots st)" for i
  proof -
    have "roots st ! i \<noteq> a" using test_store_objects(2) [OF st] a nth_mem [OF that] by blast
    then show ?thesis using D(1) [OF that] by (simp add: s)
  qed
  show "mutate (DropRoot a) s x = Some (new_object VecTy tsz temp_val)" if "x \<in> live_temps st - {a}" for x
    using D(2) that by (simp add: s)
  show "store_roots (mutate (DropRoot a) s) \<subseteq> set (roots st) \<union> (live_temps st - {a})"
    unfolding s using D(3) by (auto simp: store_roots_def split: if_splits)
  show "gc_ptrs (obj_data ob) = []" if "mutate (DropRoot a) s x = Some ob" for x ob
    using D(4) [of x ob] that [unfolded s] by (auto simp: new_object_def temp_val_def split: if_splits)
qed

section \<open>Steps of the test\<close>

lemma test_heap_upd [simp]:
  "live_temps (st\<lparr>theap := h\<rparr>) = live_temps st" "temps_ok (st\<lparr>theap := h\<rparr>) = temps_ok st"
  "test_store rsz tsz (st\<lparr>theap := h\<rparr>) = test_store rsz tsz st"
  by (simp_all add: live_temps_def temps_ok_def test_store_def fun_eq_iff)

lemma live_temps_upd:
  assumes t: "t < TEMPS" and ok: "temps_ok st"
  shows "live_temps (st\<lparr>temps := (temps st)(t := pc)\<rparr>) = (live_temps st - temp_of (temps st t)) \<union> temp_of pc"
proof -
  have "temp_of (temps st u) \<inter> temp_of (temps st t) = {}" if "u < TEMPS" "u \<noteq> t" for u
    using ok t that by (simp add: temps_ok_def)
  then show ?thesis using t by (auto simp: live_temps_def split: if_splits) blast+
qed

lemma temps_ok_upd:
  assumes t: "t < TEMPS" and ok: "temps_ok st" and "length (roots st) = 10"
    and "temp_of pc \<subseteq> temp_of (temps st t) \<or> temp_of pc \<inter> live_temps st = {}"
  shows "temps_ok (st\<lparr>temps := (temps st)(t := pc)\<rparr>)"
  using assms unfolding temps_ok_def live_temps_def by auto

text \<open>What a step of the test promises: the invariant, and how many bytes it may add.\<close>

definition test_post :: "usize \<Rightarrow> usize \<Rightarrow> test_state \<Rightarrow> test_state \<Rightarrow> bool" where
  "test_post rsz tsz st st' \<longleftrightarrow>
     test_inv rsz tsz st' \<and> is_marking (theap st') = is_marking (theap st) \<and>
     unat (bytes_allocated (theap st')) \<le> unat (bytes_allocated (theap st)) + max (unat rsz) (unat tsz)"

lemma test_mutates:
  assumes gi: "gc_inv (theap st)" and ok: "allowed p x (theap st)" and m: "\<not> collector_op x"
    and z: "op_size x \<le> max (unat rsz) (unat tsz)"
    and f: "\<And>h'. theap (f h') = h'" "\<And>h'. temps_ok (f h')"
      "\<And>h'. test_store rsz tsz (f h') (mutate x (store_of (mem (theap st))))"
  shows "returns (bind_prog (run_op p x (theap st)) (\<lambda>h'. ret (f h'))) (test_post rsz tsz st)"
proof -
  have "mutator_op x" using m by (cases x) auto
  from returns_conj [OF mutator_run_bytes [OF gi ok m] mutator_frame [OF gi ok this]]
  show ?thesis
    by (rule returns_bindI) (use z f in \<open>auto simp: test_post_def test_inv_def op_frame_def intro: order_trans\<close>)
qed

lemma main_allocates:
  assumes inv: "test_inv rsz tsz st" and ok: "test_allowed p rsz tsz (MainAllocates a) st"
  shows "returns (run_test p rsz tsz (MainAllocates a) st) (test_post rsz tsz st)"
  unfolding run_test.simps
proof (rule test_mutates [OF test_invD(1) [OF inv]])
  note I = test_invD [OF inv]
  let ?f = "\<lambda>h'. st\<lparr>roots := vec_push (roots st) a, theap := h'\<rparr>"
  show "allowed p (Allocate a (TPrim P_usize) rsz (VPrim (int (length (roots st))))) (theap st)"
    using ok by (simp add: allocatable_def covered_def)
  have "temps st t = TempAlloc 0" if "t < TEMPS" for t using I(2) ok that by (auto simp: temps_ok_def)
  then show "temps_ok (?f h')" for h' using ok by (simp add: temps_ok_def)
  show "test_store rsz tsz (?f h') (mutate (Allocate a (TPrim P_usize) rsz (VPrim (int (length (roots st))))) (store_of (mem (theap st))))" for h'
    using ok by (intro test_store_root [OF I(3)]) (simp_all add: vec_push_def live_temps_def)
qed simp_all

lemma temp_allocates:
  assumes inv: "test_inv rsz tsz st" and ok: "test_allowed p rsz tsz (Temp t a) st" and pc: "temps st t = TempAlloc i" "i < 100"
  shows "returns (run_test p rsz tsz (Temp t a) st) (test_post rsz tsz st)"
proof -
  note I = test_invD [OF inv]
  let ?x = "Allocate a VecTy tsz temp_val" and ?f = "\<lambda>h'. st\<lparr>temps := (temps st)(t := TempDrop i a), theap := h'\<rparr>"
  have step: "run_test p rsz tsz (Temp t a) st = bind_prog (run_op p ?x (theap st)) (\<lambda>h'. ret (?f h'))"
    using pc by (simp add: temp_step_def bind_assoc del: run_op.simps)
  have a: "a \<notin> dom (store_of (mem (theap st)))" "t < TEMPS" using ok by simp_all
  then have fresh: "a \<notin> live_temps st" using test_store_objects(1) [OF I(3)] by blast
  show ?thesis unfolding step
  proof (rule test_mutates [OF I(1)])
    show "allowed p ?x (theap st)" using ok by (simp add: allocatable_def covered_def VecTy_def temp_val_def)
    show "temps_ok (?f h')" for h' using ok fresh temps_ok_upd [OF a(2) I(2)] by simp
    show "test_store rsz tsz (?f h') (mutate ?x (store_of (mem (theap st))))" for h'
      using pc live_temps_upd [OF a(2) I(2)] by (intro test_store_temp [OF I(3) a(1)]) simp_all
  qed simp_all
qed

lemma temp_drops:
  assumes inv: "test_inv rsz tsz st" and ok: "test_allowed p rsz tsz (Temp t a) st" and pc: "temps st t = TempDrop i x"
  shows "returns (run_test p rsz tsz (Temp t a) st) (test_post rsz tsz st)"
proof -
  note I = test_invD [OF inv]
  let ?f = "\<lambda>h'. st\<lparr>temps := (temps st)(t := TempAlloc (Suc i)), theap := h'\<rparr>"
  have step: "run_test p rsz tsz (Temp t a) st = bind_prog (run_op p (DropRoot x) (theap st)) (\<lambda>h'. ret (?f h'))"
    using pc by (simp add: temp_step_def bind_assoc del: run_op.simps)
  have t: "t < TEMPS" using ok by simp
  have x: "x \<in> live_temps st" using pc t by (force simp: live_temps_def)
  then have "x \<in> store_roots (store_of (mem (theap st)))"
    using test_storeD(2) [OF I(3)] by (auto simp: store_roots_def new_object_def)
  then have "root_at (mem (theap st)) x" by (simp add: store_roots_of)
  show ?thesis unfolding step
  proof (rule test_mutates [OF I(1)])
    show "allowed p (DropRoot x) (theap st)" using \<open>root_at (mem (theap st)) x\<close> by simp
    show "temps_ok (?f h')" for h' using ok temps_ok_upd [OF t I(2)] by simp
    show "test_store rsz tsz (?f h') (mutate (DropRoot x) (store_of (mem (theap st))))" for h'
      using pc live_temps_upd [OF t I(2)] by (intro test_store_drop [OF I(3) x]) simp_all
  qed simp_all
qed

lemma test_unchanged:
  assumes inv: "test_inv rsz tsz st" and ok: "temps_ok st'"
    and same: "roots st' = roots st" "live_temps st' = live_temps st" "theap st' = theap st"
  shows "test_post rsz tsz st st'"
  using assms by (simp add: test_post_def test_inv_def test_store_def)

lemma temp_run:
  assumes inv: "test_inv rsz tsz st" and ok: "test_allowed p rsz tsz (Temp t a) st"
  shows "returns (run_test p rsz tsz (Temp t a) st) (test_post rsz tsz st)"
proof (cases "temps st t")
  case (TempAlloc i)
  show ?thesis
  proof (cases "i < 100")
    case True
    then show ?thesis by (rule temp_allocates [OF inv ok TempAlloc])
  next
    case False
    note I = test_invD [OF inv]
    have t: "t < TEMPS" using ok by simp
    have "test_post rsz tsz st (st\<lparr>temps := (temps st)(t := TempDone)\<rparr>)"
      using ok TempAlloc live_temps_upd [OF t I(2)] by (intro test_unchanged [OF inv temps_ok_upd [OF t I(2)]]) simp_all
    then show ?thesis using TempAlloc False by (simp add: temp_step_def)
  qed
next
  case (TempDrop i x)
  then show ?thesis by (rule temp_drops [OF inv ok])
next
  case TempDone
  have "(temps st)(t := TempDone) = temps st" using TempDone by auto
  then have "test_post rsz tsz st (st\<lparr>temps := (temps st)(t := TempDone)\<rparr>)"
    using test_unchanged [OF inv test_invD(2) [OF inv]] by simp
  then show ?thesis using TempDone by (simp add: temp_step_def)
qed

lemma run_test_inv:
  assumes inv: "test_inv rsz tsz st" and ok: "test_allowed p rsz tsz e st"
  shows "returns (run_test p rsz tsz e st) (test_inv rsz tsz)"
proof (cases e)
  case (MainAllocates a)
  then show ?thesis
    using returns_mono [OF main_allocates [OF inv], of p a "test_inv rsz tsz"] ok by (simp add: test_post_def del: run_test.simps)
next
  case (Temp t a)
  then show ?thesis
    using returns_mono [OF temp_run [OF inv], of p t a "test_inv rsz tsz"] ok by (simp add: test_post_def del: run_test.simps)
next
  case MainReadsPeak
  then show ?thesis
    using test_unchanged [OF inv, of "st\<lparr>peak_bytes := Some (bytes_allocated (theap st))\<rparr>"] test_invD(2) [OF inv]
    by (simp add: test_post_def temps_ok_def live_temps_def)
next
  case (Background x)
  note I = test_invD [OF inv]
  have "returns (run_op p x (theap st)) (\<lambda>h'. gc_inv h' \<and> reclaimed (store_of (mem (theap st))) (store_of (mem h')))"
    using collector_run [OF I(1)] ok Background by simp
  then show ?thesis unfolding Background run_test.simps
  proof (rule returns_bindI)
    fix h' assume "gc_inv h' \<and> reclaimed (store_of (mem (theap st))) (store_of (mem h'))"
    then show "returns (ret (st\<lparr>theap := h'\<rparr>)) (test_inv rsz tsz)"
      using I test_store_restrict [OF I(3)]
      by (auto simp: test_inv_def reclaimed_def)
  qed
qed

interpretation ct: machine "run_test p rsz tsz" "test_allowed p rsz tsz" "test_inv rsz tsz" for p rsz tsz
  by unfold_locales (rule run_test_inv)

section \<open>The end of the test\<close>

lemma check_roots_run:
  assumes "\<And>i. i < length rs \<Longrightarrow> gc_root_deref m (rs ! i) = ret (VPrim (int (k + i)))"
  shows "check_roots k rs m = ret (replicate (length rs) True)"
  using assms
proof (induction rs arbitrary: k)
  case (Cons r rs)
  have "gc_root_deref m r = ret (VPrim (int k))" using Cons.prems [of 0] by simp
  moreover have "check_roots (Suc k) rs m = ret (replicate (length rs) True)"
    using Cons.prems [of "Suc _"] by (intro Cons.IH) simp
  ultimately show ?case by simp
qed simp

lemma test_store_deref:
  assumes "test_store rsz tsz st (store_of m)" and "i < length (roots st)"
  shows "gc_root_deref m (roots st ! i) = ret (VPrim (int i))"
  using test_storeD(1) [OF assms]
  by (auto simp: store_of_def object_of_def new_object_def gc_root_deref_def deref_def)

lemma joined_state:
  assumes "test_inv rsz tsz st" and "all_joined st"
  shows "length (roots st) = 10" and "live_temps st = {}"
proof -
  have dn: "temps st t = TempDone" if "t < TEMPS" for t using assms(2) that by (simp add: all_joined_def list_all_iff)
  then show "live_temps st = {}" by (simp add: live_temps_def)
  show "length (roots st) = 10"
    using test_invD(2) [OF assms(1)] dn [of 0] unfolding temps_ok_def TEMPS_def by force
qed

lemma test_store_bytes:
  assumes "test_store rsz tsz st s" and "dom s = set (roots st)"
  shows "store_bytes s = length (roots st) * unat rsz"
proof -
  have "unat (vt_size (obj_vtable (the (s a)))) = unat rsz" if "a \<in> set (roots st)" for a
    using test_storeD(1) [OF assms(1)] that by (auto simp: in_set_conv_nth new_object_def)
  then show ?thesis
    using assms(2) distinct_card [OF test_store_objects(3) [OF assms(1)]] by (simp add: store_bytes_def)
qed

lemma joined_collection:
  assumes inv: "test_inv rsz tsz st" and joined: "all_joined st" and safe: "pacing_safe p (theap st)"
  shows "\<exists>k h'. force_collect p (theap st) = ret (k, h') \<and> test_inv rsz tsz (st\<lparr>theap := h'\<rparr>) \<and>
    (\<not> is_marking (theap st) \<longrightarrow> unat (bytes_allocated h') = 10 * unat rsz \<and> \<not> is_marking h')"
proof -
  note I = test_invD [OF inv] and J = joined_state [OF inv joined]
  have "returns (run_op p ForceCollect (theap st)) (\<lambda>h'. gc_inv h' \<and> reclaimed (store_of (mem (theap st))) (store_of (mem h')))"
    using collector_run [OF I(1), of p ForceCollect] safe by simp
  then obtain k h' where h': "force_collect p (theap st) = ret (k, h')" "gc_inv h'"
      "reclaimed (store_of (mem (theap st))) (store_of (mem h'))"
    by (auto simp: returns_iff bind_eq_ret_iff)
  have store: "test_store rsz tsz st (store_of (mem h'))"
    using h'(3) test_store_restrict [OF I(3)] by (auto simp: reclaimed_def)
  have "unat (bytes_allocated h') = 10 * unat rsz \<and> \<not> is_marking h'" if idle: "\<not> is_marking (theap st)"
  proof -
    obtain xs where xs: "heap_inv xs (theap st)" using gc_inv_heap [OF I(1)] by blast
    have "quiescent (theap st)" using I(1) idle is_marking_phase by (auto simp: gc_inv_def marking_state_def)
    then have "ready (theap st)" using I(1) by (simp add: gc_inv_def ready_def)
    from force_collect_run [OF xs this safe] have c: "collected xs (reach (mem (theap st))) (theap st) h'"
      using h'(1) by simp
    then have "dom (store_of (mem h')) = set (roots st)"
      using test_store_roots [OF I(3)] J(2) by (simp add: collected_def store_reach_of)
    then show ?thesis
      using gc_inv_bytes(1) [OF h'(2)] test_store_bytes [OF store] J(1) c is_marking_quiescent by (simp add: collected_def)
  qed
  then show ?thesis using h' store I(2) by (simp add: test_inv_def)
qed

lemma test_end_run:
  assumes inv: "test_inv rsz tsz st" and joined: "all_joined st" and safe: "pacing_safe p (theap st)"
  shows "\<exists>final h'. test_end p st = ret (replicate 10 True @ [final < the (peak_bytes st) div 2], final, h') \<and>
    (\<not> is_marking (theap st) \<longrightarrow> unat final = 10 * unat rsz)"
proof -
  obtain k h' where h': "force_collect p (theap st) = ret (k, h')" "test_inv rsz tsz (st\<lparr>theap := h'\<rparr>)"
      "\<not> is_marking (theap st) \<longrightarrow> unat (bytes_allocated h') = 10 * unat rsz"
    using joined_collection [OF assms] by blast
  have "gc_root_deref (mem h') (roots st ! i) = ret (VPrim (int i))" if "i < length (roots st)" for i
    using test_store_deref [of rsz tsz st "mem h'" i] test_invD(3) [OF h'(2)] that by simp
  then have "check_roots 0 (roots st) (mem h') = ret (replicate 10 True)"
    using check_roots_run [of "roots st" "mem h'" 0] joined_state(1) [OF inv joined] by simp
  then show ?thesis using h'(1,3)
    by (intro exI [of _ "bytes_allocated h'"] exI [of _ h']) (simp add: test_end_def Let_def)
qed

section \<open>Progress\<close>

fun temp_rank :: "temp_pc \<Rightarrow> nat" where
  "temp_rank (TempAlloc i) = 1 + 2 * (100 - i)"
| "temp_rank (TempDrop i a) = 2 + 2 * (100 - Suc i)"
| "temp_rank TempDone = 0"

definition test_rank :: "test_state \<Rightarrow> nat" where
  "test_rank st = (10 - length (roots st)) + (\<Sum>t<TEMPS. temp_rank (temps st t))"

definition test_affordable :: "usize \<Rightarrow> usize \<Rightarrow> test_state \<Rightarrow> bool" where
  "test_affordable rsz tsz st \<longleftrightarrow>
     test_inv rsz tsz st \<and> peak_bytes st = None \<and> \<not> is_marking (theap st) \<and>
     unat (bytes_allocated (theap st)) + test_rank st * max (unat rsz) (unat tsz) < 2 ^ 64"

lemma test_rank_main: "length (roots st) < 10 \<Longrightarrow> test_rank (st\<lparr>roots := vec_push (roots st) a, theap := h\<rparr>) < test_rank st"
  by (simp add: test_rank_def)

lemma temp_step_rank: "temp_step p tsz a pc h = ret (pc', h') \<Longrightarrow> pc \<noteq> TempDone \<Longrightarrow> temp_rank pc' < temp_rank pc"
  by (auto simp: temp_step_def bind_eq_ret_iff split: temp_pc.splits if_splits)

lemma test_rank_temp:
  assumes "t < TEMPS" and "temp_rank pc < temp_rank (temps st t)"
  shows "test_rank (st\<lparr>temps := (temps st)(t := pc), theap := h\<rparr>) < test_rank st"
proof -
  have "(\<Sum>u<TEMPS. temp_rank (((temps st)(t := pc)) u)) < (\<Sum>u<TEMPS. temp_rank (temps st u))"
    by (rule sum_strict_mono_ex1) (use assms in auto)
  then show ?thesis by (simp add: test_rank_def)
qed

lemma test_progress:
  assumes aff: "test_affordable rsz tsz st" and "\<not> all_joined st"
  shows "\<exists>x st'. test_allowed p rsz tsz x st \<and> run_test p rsz tsz x st = ret st' \<and> test_post rsz tsz st st' \<and>
    peak_bytes st' = None \<and> test_rank st' < test_rank st"
proof -
  have inv: "test_inv rsz tsz st" and pk: "peak_bytes st = None" using aff by (simp_all add: test_affordable_def)
  obtain a where a: "a \<notin> dom (mem (theap st))"
    using gc_inv_bytes(2) [OF test_invD(1) [OF inv]] ex_new_if_finite infinite_UNIV_nat by blast
  obtain t where t: "t < TEMPS" "temps st t \<noteq> TempDone" using assms(2) by (auto simp: all_joined_def list_all_iff)
  have "temp_rank (temps st t) \<noteq> 0" using t(2) by (cases "temps st t") auto
  then have "test_rank st \<noteq> 0" using t(1) by (auto simp: test_rank_def)
  then obtain k where "test_rank st = Suc k" using not0_implies_Suc by blast
  then have b: "unat (bytes_allocated (theap st)) + max (unat rsz) (unat tsz) < 2 ^ 64"
    using aff by (simp add: test_affordable_def)
  show ?thesis
  proof (cases "length (roots st) < 10")
    case True
    then have ok: "test_allowed p rsz tsz (MainAllocates a) st" using a b by simp
    from main_allocates [OF inv this] obtain st'
      where st': "run_test p rsz tsz (MainAllocates a) st = ret st'" "test_post rsz tsz st st'" by (rule returnsE)
    then have "peak_bytes st' = None \<and> test_rank st' < test_rank st"
      using pk test_rank_main [OF True] by (auto simp: bind_eq_ret_iff)
    then show ?thesis using ok st' by blast
  next
    case False
    then have "length (roots st) = 10" using test_invD(2) [OF inv] by (simp add: temps_ok_def)
    then have ok: "test_allowed p rsz tsz (Temp t a) st" using a b t(1) by simp
    from temp_run [OF inv this] obtain st'
      where st': "run_test p rsz tsz (Temp t a) st = ret st'" "test_post rsz tsz st st'" by (rule returnsE)
    then have "peak_bytes st' = None \<and> test_rank st' < test_rank st"
      using pk test_rank_temp [OF t(1) temp_step_rank [OF _ t(2)]] by (auto simp: bind_eq_ret_iff)
    then show ?thesis using ok st' by blast
  qed
qed

interpretation ctp: progressing "run_test p rsz tsz" "test_allowed p rsz tsz" "test_affordable rsz tsz" all_joined test_rank
  for p rsz tsz
proof
  fix st assume aff: "test_affordable rsz tsz st" and n: "\<not> all_joined st"
  let ?m = "max (unat rsz) (unat tsz)"
  from test_progress [OF aff n, of p] obtain x st' where x: "test_allowed p rsz tsz x st" "run_test p rsz tsz x st = ret st'"
      and post: "test_post rsz tsz st st'" "peak_bytes st' = None" and lt: "test_rank st' < test_rank st" by blast
  have "Suc (test_rank st') * ?m \<le> test_rank st * ?m" using lt by (intro mult_le_mono1) simp
  then have "unat (bytes_allocated (theap st')) + test_rank st' * ?m < 2 ^ 64"
    using aff post(1) by (simp add: test_affordable_def test_post_def)
  then have "test_affordable rsz tsz st'" using aff post by (simp add: test_affordable_def test_post_def)
  then show "\<exists>x st'. test_allowed p rsz tsz x st \<and> run_test p rsz tsz x st = ret st' \<and> test_affordable rsz tsz st' \<and>
      test_rank st' < test_rank st"
    using x lt by blast
qed

lemma test_init_inv: "incremental_work_budget o' \<noteq> 0 \<Longrightarrow> test_inv rsz tsz (test_init o')"
  using gc_inv_init [of o']
  by (auto simp: test_inv_def test_init_def temps_ok_def live_temps_def test_store_def store_roots_def store_of_def heap_init_def)

text \<open>A completed run of the test in which the background thread had no time to collect.\<close>

lemma test_completes:
  assumes "incremental_work_budget o' \<noteq> 0" and "814 * max (unat rsz) (unat tsz) < 2 ^ 64"
  shows "\<exists>es st. all_allowed (run_test p rsz tsz) (test_allowed p rsz tsz) es (test_init o') \<and>
    run_ops (run_test p rsz tsz) es (test_init o') = ret st \<and> test_affordable rsz tsz st \<and> all_joined st"
proof -
  have "test_rank (test_init o') = 814" by (simp add: test_rank_def test_init_def TEMPS_def)
  moreover have "\<not> is_marking (heap_init o')" using is_marking_quiescent quiescent_init by blast
  ultimately have "test_affordable rsz tsz (test_init o')"
    using test_init_inv [OF assms(1)] assms(2) by (simp add: test_affordable_def) (simp add: test_init_def heap_init_def)
  from ctp.completes [OF this] show ?thesis by blast
qed

lemma not_less_half: "\<not> (x :: usize) < x div 2"
  by (simp add: word_less_nat_alt unat_div not_less)

section \<open>A run\<close>

definition test_run_example :: "test_event list" where
  "test_run_example =
     map MainAllocates [1..<11] @ [Temp 0 11, Temp 1 12, Temp 0 20, Background StartMarking, Temp 0 13,
       Background (MarkIncrement 50), Temp 1 20, Background SweepAndFinish, Temp 0 20, Temp 3 14]"

lemma test_run_example_allowed:
  "all_allowed (run_test Release 48 64) (test_allowed Release 48 64) test_run_example (test_init test_options)"
  by (simp add: test_run_example_def test_init_def test_options_def temp_step_def TEMPS_def VecTy_def temp_val_def
      upt_rec exec op_checks)

section \<open>Properties\<close>



text \<open>
  The last assertion of the test, that less than half of the peak is left, depends on the schedule. There
  is a run in which all threads have been joined and a collection ends before the peak is read; then
  the bytes at the peak are already those of the ten roots, and the assertion fails.
\<close>

theorem concurrent_collection_flaky:
  assumes "814 * max (unat rsz) (unat tsz) < 2 ^ 64"
  shows "\<exists>es st r. all_allowed (run_test Release rsz tsz) (test_allowed Release rsz tsz) es (test_init test_options) \<and>
    run_ops (run_test Release rsz tsz) es (test_init test_options) = ret st \<and> all_joined st \<and> peak_bytes st \<noteq> None \<and>
    test_end Release st = ret (replicate 10 True @ [False], r)"
proof -
  let ?run = "run_test Release rsz tsz" and ?ok = "test_allowed Release rsz tsz" and ?i = "test_init test_options"
  have "incremental_work_budget test_options \<noteq> 0" by (simp add: test_options_def options_DEFAULT_def)
  from test_completes [OF this assms] obtain es st
    where es: "all_allowed ?run ?ok es ?i" "run_ops ?run es ?i = ret st" and aff: "test_affordable rsz tsz st" and j: "all_joined st"
    by blast
  have inv: "test_inv rsz tsz st" and pk: "peak_bytes st = None" and idle: "\<not> is_marking (theap st)"
    using aff by (simp_all add: test_affordable_def)
  have ps: "pacing_safe Release h" for h by (simp add: pacing_safe_def)
  obtain k h' where h': "force_collect Release (theap st) = ret (k, h')" "test_inv rsz tsz (st\<lparr>theap := h'\<rparr>)"
      "unat (bytes_allocated h') = 10 * unat rsz" "\<not> is_marking h'"
    using joined_collection [OF inv j ps] idle by blast
  let ?st = "st\<lparr>peak_bytes := Some (bytes_allocated h'), theap := h'\<rparr>"
  have j': "all_joined (st\<lparr>theap := h'\<rparr>)" "all_joined ?st" using j by (simp_all add: all_joined_def)
  have "run_ops ?run (es @ [Background ForceCollect, MainReadsPeak]) ?i = ret ?st"
    using es(2) h'(1) by (simp add: run_ops_append)
  moreover have "all_allowed ?run ?ok (es @ [Background ForceCollect, MainReadsPeak]) ?i"
    using es h'(1) j'(1) pk ps by (simp add: all_allowed_append [OF es(2)])
  moreover have "test_inv rsz tsz ?st"
    using h'(2) by (simp add: test_inv_def temps_ok_def test_store_def live_temps_def)
  from test_end_run [OF this j'(2) ps] obtain final h2
    where e: "test_end Release ?st = ret (replicate 10 True @ [final < bytes_allocated h' div 2], final, h2)"
      "unat final = 10 * unat rsz" using h'(4) by auto
  then have "final = bytes_allocated h'" using h'(3) by (simp add: word_unat_eq_iff)
  then have "test_end Release ?st = ret (replicate 10 True @ [False], final, h2)" using e(1) not_less_half by simp
  ultimately show ?thesis using j'(2) by (intro exI conjI) (assumption | simp)+
qed

theorem concurrent_collection_flaky_witness:
  "\<exists>es st r. all_allowed (run_test Release 48 64) (test_allowed Release 48 64) es (test_init test_options) \<and>
    run_ops (run_test Release 48 64) es (test_init test_options) = ret st \<and> all_joined st \<and> peak_bytes st \<noteq> None \<and>
    test_end Release st = ret (replicate 10 True @ [False], r)"
proof -
  have "814 * max (unat (48 :: usize)) (unat (64 :: usize)) < 2 ^ 64" by simp
  then show ?thesis by (rule concurrent_collection_flaky)
qed

end
