(* ===== verification/Multi_Threaded.thy ===== *)
theory Multi_Threaded
  imports Client_Programs Object_Store
begin

text \<open>
  The client program \<open>src/examples/multi_threaded.rs\<close>: four workers share a heap and link the nodes they
  allocate into one shared cell, a monitor collects now and then, and the background thread may collect
  at any time. A worker is a program counter and the handles it owns; one step of a worker is one call of
  the library (or a barrier), and the steps of the threads interleave in any order. A barrier is a condition on
  when a worker may go on; printing and sleeping are left out, and the allocator's answer is part of the
  event.

  This theory has the program, the invariant that ties the program counters to the objects on the heap
  (who owns which node, which pointers a worker has read but not stored yet, what the shared cell may hold
  on either side of the second barrier), and that each step keeps it on the abstract object store.
  \<open>Multi_Threaded_Runs\<close> transfers this to the heap.
\<close>

section \<open>The program\<close>

definition MtNode :: ty where
  "MtNode = TStruct False [(False, TPrim P_usize), (False, TPrim P_i32), (True, TGcCell (TOption (TGcPtr False)))]"

definition mt_node :: "int \<Rightarrow> int \<Rightarrow> val \<Rightarrow> val" where
  "mt_node i v next_ptr = VStruct [(False, VPrim i), (False, VPrim v), (True, cell_new next_ptr)]"

text \<open>The type of the field \<open>next\<close>, and where it lies.\<close>

definition NextTy :: ty where
  "NextTy = TOption (TGcPtr False)"

abbreviation next_field :: path where
  "next_field \<equiv> [2]"

definition NUM_THREADS :: nat where
  "NUM_THREADS = 4"

definition ITERATIONS :: nat where
  "ITERATIONS = 100"

text \<open>
  Where a worker stands. \<open>ReadRoot i n\<close>, \<open>LinkRoot i n v\<close> and \<open>LinkNode i n v\<close> are the three steps that link the
  fresh node \<open>n\<close> of iteration \<open>i\<close>, where \<open>v\<close> is \<open>current_next\<close>; \<open>Spawn\<close> is the clone of the root that \<open>main\<close> makes
  for the thread, and \<open>DropRootHandle\<close> the drop of that clone when the closure ends.
\<close>

datatype worker_pc =
    Spawn | FirstBarrier | Iteration nat | ReadRoot nat addr | LinkRoot nat addr val | LinkNode nat addr val
  | SecondBarrier | DropNodes | ClearRoot | DropRootHandle | Joined

record worker =
  wpc :: worker_pc
  nodes :: "addr list"

definition worker_step ::
    "profile \<Rightarrow> usize \<Rightarrow> addr \<Rightarrow> nat \<Rightarrow> addr \<Rightarrow> worker \<Rightarrow> heap \<Rightarrow> (worker \<times> heap) prog" where
  "worker_step p sz root t a w h =
     (case wpc w of
        Spawn \<Rightarrow> bind_prog (run_op p (CloneRoot root) h) (\<lambda>h'. ret (w\<lparr>wpc := FirstBarrier\<rparr>, h'))
      | FirstBarrier \<Rightarrow> ret (w\<lparr>wpc := Iteration 0\<rparr>, h)
      | Iteration i \<Rightarrow>
          if i < ITERATIONS then
            bind_prog (run_op p (Allocate a MtNode sz (mt_node (int (t * 1000 + i)) (int (t * 100 + i)) VNone)) h) (\<lambda>h'.
              ret (if i mod 10 = 0 then w\<lparr>wpc := ReadRoot i a\<rparr>
                   else w\<lparr>wpc := Iteration (Suc i), nodes := vec_push (nodes w) a\<rparr>, h'))
          else ret (w\<lparr>wpc := SecondBarrier\<rparr>, h)
      | ReadRoot i node \<Rightarrow>
          bind_prog (cell_get (mem h) root next_field) (\<lambda>current_next.
            ret (w\<lparr>wpc := LinkRoot i node (the current_next)\<rparr>, h))
      | LinkRoot i node current_next \<Rightarrow>
          bind_prog (run_op p (SetCell root next_field NextTy (VSome (VPtr False node))) h) (\<lambda>h'.
            ret (w\<lparr>wpc := LinkNode i node current_next\<rparr>, h'))
      | LinkNode i node current_next \<Rightarrow>
          bind_prog (run_op p (SetCell node next_field NextTy current_next) h) (\<lambda>h'.
            ret (w\<lparr>wpc := Iteration (Suc i), nodes := vec_push (nodes w) node\<rparr>, h'))
      | SecondBarrier \<Rightarrow> ret (w\<lparr>wpc := DropNodes\<rparr>, h)
      | DropNodes \<Rightarrow>
          (case nodes w of
             [] \<Rightarrow> ret (w\<lparr>wpc := ClearRoot\<rparr>, h)
           | x # xs \<Rightarrow> bind_prog (run_op p (DropRoot x) h) (\<lambda>h'. ret (w\<lparr>nodes := xs\<rparr>, h')))
      | ClearRoot \<Rightarrow>
          bind_prog (run_op p (SetCell root next_field NextTy VNone) h) (\<lambda>h'. ret (w\<lparr>wpc := DropRootHandle\<rparr>, h'))
      | DropRootHandle \<Rightarrow> bind_prog (run_op p (DropRoot root) h) (\<lambda>h'. ret (w\<lparr>wpc := Joined\<rparr>, h'))
      | Joined \<Rightarrow> ret (w, h))"

text \<open>A round of the monitor, without the printing.\<close>

definition monitor_round :: "profile \<Rightarrow> heap \<Rightarrow> heap prog" where
  "monitor_round p h =
     bind_prog (allocation_count h) (\<lambda>_.
       if bytes_allocated h > 1024 * 10 then
         bind_prog (collect p h) (\<lambda>h'. bind_prog (allocation_count h') (\<lambda>_. ret h'))
       else ret h)"

text \<open>The traversal at the end of \<open>main\<close>; \<open>visited\<close> has the ids of the nodes seen so far.\<close>

fun node_id :: "val \<Rightarrow> int" where
  "node_id (VStruct ((_, VPrim n) # _)) = n"
| "node_id _ = 0"

fun node_ptr :: "val \<Rightarrow> addr option" where
  "node_ptr (VSome (VPtr _ a)) = Some a"
| "node_ptr _ = None"

partial_function (option) count_nodes :: "val \<Rightarrow> int list \<Rightarrow> nat \<Rightarrow> heap \<Rightarrow> (nat \<times> heap) prog" where
  "count_nodes current visited reachable h =
     (case node_ptr current of
        None \<Rightarrow> ret (reachable, h)
      | Some ptr \<Rightarrow>
          bind_prog (gc_ptr_root (mem h) ptr) (\<lambda>(node, m1).
          bind_prog (gc_root_deref m1 node) (\<lambda>d.
          if node_id d \<in> set visited then bind_prog (drop_root node (h\<lparr>mem := m1\<rparr>)) (\<lambda>h2. ret (reachable, h2))
          else
            bind_prog (cell_get m1 node next_field) (\<lambda>current'.
            bind_prog (drop_root node (h\<lparr>mem := m1\<rparr>)) (\<lambda>h2.
            count_nodes (the current') (node_id d # visited) (Suc reachable) h2)))))"

definition main_end :: "profile \<Rightarrow> addr \<Rightarrow> heap \<Rightarrow> (nat \<times> nat \<times> heap) prog" where
  "main_end p root h =
     bind_prog (collect p h) (\<lambda>h1.
     bind_prog (allocation_count h1) (\<lambda>allocations.
     bind_prog (cell_get (mem h1) root next_field) (\<lambda>current.
     bind_prog (count_nodes (the current) [] 0 h1) (\<lambda>(reachable, h2).
     ret (allocations, reachable, h2)))))"

text \<open>A state has the workers and the heap. The event of a worker has the address the allocator would return.\<close>

type_synonym mt_state = "(nat \<Rightarrow> worker) \<times> heap"

datatype mt_event = Worker nat addr | Monitor | Collector operation

fun run_mt :: "profile \<Rightarrow> usize \<Rightarrow> addr \<Rightarrow> mt_event \<Rightarrow> mt_state \<Rightarrow> mt_state prog" where
  "run_mt p sz root (Worker t a) (ws, h) =
     bind_prog (worker_step p sz root t a (ws t) h) (\<lambda>(w, h'). ret (ws(t := w), h'))"
| "run_mt p sz root Monitor (ws, h) = bind_prog (monitor_round p h) (\<lambda>h'. ret (ws, h'))"
| "run_mt p sz root (Collector x) (ws, h) = bind_prog (run_op p x h) (\<lambda>h'. ret (ws, h'))"

text \<open>
  When an event can happen. A worker is spawned after those with smaller numbers, passes the first barrier when
  all are spawned, and the second when none is before it any more. The allocator returns a fresh address,
  and the byte counter does not overflow. A collector does what the discipline of \<open>Mutator\<close> allows.
\<close>

fun linking :: "worker_pc \<Rightarrow> bool" where
  "linking Spawn = True"
| "linking FirstBarrier = True"
| "linking (Iteration i) = True"
| "linking (ReadRoot i n) = True"
| "linking (LinkRoot i n v) = True"
| "linking (LinkNode i n v) = True"
| "linking pc = False"

fun mt_allowed :: "profile \<Rightarrow> usize \<Rightarrow> mt_event \<Rightarrow> mt_state \<Rightarrow> bool" where
  "mt_allowed p sz (Worker t a) (ws, h) =
     (t < NUM_THREADS \<and> a \<notin> dom (mem h) \<and> unat (bytes_allocated h) + unat sz < 2 ^ 64 \<and>
      (wpc (ws t) = Spawn \<longrightarrow> list_all (\<lambda>u. wpc (ws u) \<noteq> Spawn) [0..<t]) \<and>
      (wpc (ws t) = FirstBarrier \<longrightarrow> list_all (\<lambda>u. wpc (ws u) \<noteq> Spawn) [0..<NUM_THREADS]) \<and>
      (wpc (ws t) = SecondBarrier \<longrightarrow> list_all (\<lambda>u. \<not> linking (wpc (ws u))) [0..<NUM_THREADS]))"
| "mt_allowed p sz Monitor (ws, h) = allowed p CollectIfNeeded h"
| "mt_allowed p sz (Collector x) (ws, h) = (collector_op x \<and> allowed p x h)"

section \<open>Invariant\<close>

text \<open>A node of the program in the store, with its root count and the value of its cell.\<close>

definition node_at :: "usize \<Rightarrow> store \<Rightarrow> addr \<Rightarrow> usize \<Rightarrow> val \<Rightarrow> bool" where
  "node_at sz s x k c \<longleftrightarrow>
     (\<exists>ob i v. s x = Some ob \<and> obj_vtable ob = vtable_new MtNode sz \<and> obj_data ob = mt_node i v c \<and>
        has_type NextTy c \<and> obj_roots ob = k)"

fun current_node :: "worker_pc \<Rightarrow> addr list" where
  "current_node (ReadRoot i n) = [n]"
| "current_node (LinkRoot i n v) = [n]"
| "current_node (LinkNode i n v) = [n]"
| "current_node pc = []"

definition owned_list :: "worker \<Rightarrow> addr list" where
  "owned_list w = nodes w @ current_node (wpc w)"

definition owned :: "(nat \<Rightarrow> worker) \<Rightarrow> addr set" where
  "owned ws = (\<Union>t<NUM_THREADS. set (owned_list (ws t)))"

fun read_ptrs :: "worker_pc \<Rightarrow> addr set" where
  "read_ptrs (LinkRoot i n v) = snd ` set (gc_ptrs v)"
| "read_ptrs (LinkNode i n v) = snd ` set (gc_ptrs v)"
| "read_ptrs pc = {}"

fun read_ok :: "worker_pc \<Rightarrow> bool" where
  "read_ok (LinkRoot i n v) = has_type NextTy v"
| "read_ok (LinkNode i n v) = has_type NextTy v"
| "read_ok pc = True"

fun holds_root :: "worker_pc \<Rightarrow> bool" where
  "holds_root Spawn = False"
| "holds_root Joined = False"
| "holds_root pc = True"

definition holders :: "(nat \<Rightarrow> worker) \<Rightarrow> nat set" where
  "holders ws = {t. t < NUM_THREADS \<and> holds_root (wpc (ws t))}"

definition handles_on_root :: "(nat \<Rightarrow> worker) \<Rightarrow> usize" where
  "handles_on_root ws = of_nat (Suc (card (holders ws)))"

fun past_barrier :: "worker_pc \<Rightarrow> bool" where
  "past_barrier DropNodes = True"
| "past_barrier ClearRoot = True"
| "past_barrier DropRootHandle = True"
| "past_barrier Joined = True"
| "past_barrier pc = False"

fun cleared :: "worker_pc \<Rightarrow> bool" where
  "cleared DropRootHandle = True"
| "cleared Joined = True"
| "cleared pc = False"

text \<open>Who owns which node, what the workers have read, and the order the barrier imposes.\<close>

definition owners_ok :: "(nat \<Rightarrow> worker) \<Rightarrow> bool" where
  "owners_ok ws \<longleftrightarrow>
     (\<forall>t<NUM_THREADS. distinct (owned_list (ws t))) \<and>
     (\<forall>t<NUM_THREADS. \<forall>u<NUM_THREADS. t \<noteq> u \<longrightarrow> set (owned_list (ws t)) \<inter> set (owned_list (ws u)) = {})"

definition reads_ok :: "(nat \<Rightarrow> worker) \<Rightarrow> bool" where
  "reads_ok ws \<longleftrightarrow> (\<forall>t<NUM_THREADS. read_ptrs (wpc (ws t)) \<subseteq> owned ws \<and> read_ok (wpc (ws t)))"

definition barrier_ok :: "(nat \<Rightarrow> worker) \<Rightarrow> bool" where
  "barrier_ok ws \<longleftrightarrow>
     (\<forall>t<NUM_THREADS. \<forall>u<NUM_THREADS. past_barrier (wpc (ws t)) \<longrightarrow> \<not> linking (wpc (ws u))) \<and>
     (\<forall>t<NUM_THREADS. past_barrier (wpc (ws t)) \<and> wpc (ws t) \<noteq> DropNodes \<longrightarrow> nodes (ws t) = [])"

definition root_next_ok :: "(nat \<Rightarrow> worker) \<Rightarrow> val \<Rightarrow> bool" where
  "root_next_ok ws c \<longleftrightarrow>
     (\<forall>t<NUM_THREADS. linking (wpc (ws t)) \<longrightarrow> snd ` set (gc_ptrs c) \<subseteq> owned ws) \<and>
     (\<forall>t<NUM_THREADS. cleared (wpc (ws t)) \<longrightarrow> c = VNone)"

definition mt_store_inv :: "usize \<Rightarrow> addr \<Rightarrow> (nat \<Rightarrow> worker) \<Rightarrow> store \<Rightarrow> bool" where
  "mt_store_inv sz root ws s \<longleftrightarrow>
     owners_ok ws \<and> reads_ok ws \<and> barrier_ok ws \<and> root \<notin> owned ws \<and>
     (\<exists>c. node_at sz s root (handles_on_root ws) c \<and> root_next_ok ws c) \<and>
     (\<forall>x\<in>owned ws. \<exists>c. node_at sz s x 1 c) \<and> store_roots s \<subseteq> insert root (owned ws)"

definition mt_inv :: "usize \<Rightarrow> addr \<Rightarrow> mt_state \<Rightarrow> bool" where
  "mt_inv sz root st \<longleftrightarrow> gc_inv (snd st) \<and> mt_store_inv sz root (fst st) (store_of (mem (snd st)))"

section \<open>One worker changes\<close>

definition rest :: "nat \<Rightarrow> (nat \<Rightarrow> worker) \<Rightarrow> addr set" where
  "rest t ws = (\<Union>u\<in>{u. u < NUM_THREADS \<and> u \<noteq> t}. set (owned_list (ws u)))"

lemma owned_split: "t < NUM_THREADS \<Longrightarrow> owned ws = rest t ws \<union> set (owned_list (ws t))"
  by (auto simp: owned_def rest_def)

lemma rest_upd [simp]: "rest t (ws(t := w)) = rest t ws"
  by (simp add: rest_def)

lemma owned_upd: "t < NUM_THREADS \<Longrightarrow> owned (ws(t := w)) = rest t ws \<union> set (owned_list w)"
  using owned_split [of t "ws(t := w)"] by simp

lemma owners_okD:
  assumes "owners_ok ws" and "t < NUM_THREADS"
  shows "distinct (owned_list (ws t))" and "rest t ws \<inter> set (owned_list (ws t)) = {}"
  using assms by (auto simp: owners_ok_def rest_def)

lemma owners_ok_upd:
  assumes "owners_ok ws" and "t < NUM_THREADS" and "distinct (owned_list w)" and "rest t ws \<inter> set (owned_list w) = {}"
  shows "owners_ok (ws(t := w))"
  using assms by (auto simp: owners_ok_def rest_def)

lemma linking_reads: "\<not> linking pc \<Longrightarrow> read_ptrs pc = {} \<and> read_ok pc"
  by (cases pc) auto

lemma reads_ok_upd:
  assumes "reads_ok ws" and t: "t < NUM_THREADS" and "owned ws \<subseteq> owned (ws(t := w))"
    and "read_ptrs (wpc w) \<subseteq> owned ws" and "read_ok (wpc w)"
  shows "reads_ok (ws(t := w))"
  using assms unfolding reads_ok_def by (metis fun_upd_apply order_trans)

lemma reads_ok_idle: "(\<And>t. t < NUM_THREADS \<Longrightarrow> \<not> linking (wpc (ws t))) \<Longrightarrow> reads_ok ws"
  using linking_reads by (simp add: reads_ok_def)

lemma barrier_ok_upd:
  assumes "barrier_ok ws" and t: "t < NUM_THREADS"
    and "linking (wpc w) \<Longrightarrow> linking (wpc (ws t))"
    and "past_barrier (wpc w) \<Longrightarrow> \<forall>u<NUM_THREADS. u \<noteq> t \<longrightarrow> \<not> linking (wpc (ws u))"
    and "past_barrier (wpc w) \<Longrightarrow> \<not> linking (wpc w) \<and> (wpc w = DropNodes \<or> nodes w = [])"
  shows "barrier_ok (ws(t := w))"
  using assms unfolding barrier_ok_def by (metis (no_types, lifting) fun_upd_apply)

lemma holders_upd:
  assumes "t < NUM_THREADS" and "holds_root (wpc w) = holds_root (wpc (ws t))"
  shows "handles_on_root (ws(t := w)) = handles_on_root ws"
proof -
  have "holders (ws(t := w)) = holders ws" using assms by (auto simp: holders_def)
  then show ?thesis by (simp add: handles_on_root_def)
qed

lemma finite_holders [simp]: "finite (holders ws)" and card_holders: "card (holders ws) \<le> 4"
proof -
  have sub: "holders ws \<subseteq> {..<4}" by (auto simp: holders_def NUM_THREADS_def)
  then show "finite (holders ws)" by (rule finite_subset) simp
  show "card (holders ws) \<le> 4" using card_mono [OF _ sub] by simp
qed

lemma handles_pos: "0 < handles_on_root ws" 
proof -
  have "card (holders ws) = 0 \<or> card (holders ws) = 1 \<or> card (holders ws) = 2 \<or> card (holders ws) = 3 \<or>
      card (holders ws) = 4"
    using card_holders [of ws] by linarith
  then show ?thesis by (elim disjE) (simp_all add: handles_on_root_def)
qed

lemma card_holders_upd:
  assumes t: "t < NUM_THREADS" and "holds_root (wpc w)" and "\<not> holds_root (wpc w')"
  shows "card (holders (ws(t := w))) = Suc (card (holders (ws(t := w'))))"
proof -
  have "holders (ws(t := w)) = insert t (holders (ws(t := w')))" "t \<notin> holders (ws(t := w'))"
    using assms by (auto simp: holders_def)
  then show ?thesis by simp
qed

lemma holders_join:
  assumes "t < NUM_THREADS" and "\<not> holds_root (wpc w)" and "holds_root (wpc (ws t))"
  shows "handles_on_root (ws(t := w)) = handles_on_root ws - 1"
  using card_holders_upd [of t "ws t" w ws] assms by (simp add: handles_on_root_def)

lemma holders_spawn:
  assumes "t < NUM_THREADS" and "holds_root (wpc w)" and "\<not> holds_root (wpc (ws t))"
  shows "handles_on_root (ws(t := w)) = handles_on_root ws + 1"
  using card_holders_upd [of t w "ws t" ws] assms by (simp add: handles_on_root_def)

lemma handles_lt: "handles_on_root ws \<noteq> usize_MAX"
proof -
  have "card (holders ws) = 0 \<or> card (holders ws) = 1 \<or> card (holders ws) = 2 \<or> card (holders ws) = 3 \<or>
      card (holders ws) = 4"
    using card_holders [of ws] by linarith
  then show ?thesis by (elim disjE) (simp_all add: handles_on_root_def)
qed

section \<open>Nodes in the store\<close>

lemma node_at_dom: "node_at sz s x k c \<Longrightarrow> x \<in> dom s"
  by (auto simp: node_at_def)

lemma node_at_unique: "node_at sz s x k c \<Longrightarrow> node_at sz s x k' c' \<Longrightarrow> c = c'"
  by (auto simp: node_at_def mt_node_def cell_new_def)

lemma node_at_other: "x \<noteq> a \<Longrightarrow> node_at sz (s(a := o')) x k c = node_at sz s x k c"
  by (simp add: node_at_def)

lemma node_at_new: "node_at sz (mutate (Allocate a MtNode sz (mt_node i v VNone)) s) a 1 VNone"
  by (auto simp: node_at_def new_object_def NextTy_def)

lemma node_at_set:
  "node_at sz s x k c \<Longrightarrow> has_type NextTy v \<Longrightarrow> node_at sz (mutate (SetCell x next_field NextTy v) s) x k v"
  by (auto simp: node_at_def mt_node_def cell_new_def)

lemma node_at_drop: "node_at sz s x k c \<Longrightarrow> node_at sz (mutate (DropRoot x) s) x (k - 1) c"
  unfolding node_at_def by (elim exE conjE) (simp, blast)

lemma node_at_clone: "node_at sz s x k c \<Longrightarrow> node_at sz (mutate (CloneRoot x) s) x (k + 1) c"
  unfolding node_at_def by (elim exE conjE) (simp, blast)

lemma node_at_restrict:
  assumes "node_at sz s x k c" and "0 < k" and "store_reach s \<subseteq> K"
  shows "node_at sz (s |` K) x k c"
proof -
  have "x \<in> store_roots s" using assms(1,2) by (auto simp: node_at_def store_roots_def)
  then have "x \<in> K" using assms(3) store_reach.root by blast
  then show ?thesis using assms(1) by (simp add: node_at_def)
qed

lemma store_roots_mutate:
  "store_roots (mutate (Allocate a t sz v) s) \<subseteq> insert a (store_roots s)"
  "store_roots (mutate (SetCell x p t v) s) = store_roots s"
  "store_roots (s |` K) \<subseteq> store_roots s"
  by (auto simp: store_roots_def restrict_map_def split: if_splits)

lemma store_roots_drop:
  assumes "node_at sz s x k c"
  shows "store_roots (mutate (DropRoot x) s) = (if k - 1 = 0 then store_roots s - {x} else insert x (store_roots s))"
  using assms by (auto simp: store_roots_def node_at_def word_gt_0)

section \<open>Steps on the store\<close>

lemma mt_store_invD:
  assumes "mt_store_inv sz root ws s"
  shows "owners_ok ws" and "reads_ok ws" and "barrier_ok ws" and "root \<notin> owned ws"
    and "\<exists>c. node_at sz s root (handles_on_root ws) c \<and> root_next_ok ws c"
    and "x \<in> owned ws \<Longrightarrow> \<exists>c. node_at sz s x 1 c" and "store_roots s \<subseteq> insert root (owned ws)"
  using assms unfolding mt_store_inv_def by blast+

lemma mt_store_invI:
  assumes "owners_ok ws" and "reads_ok ws" and "barrier_ok ws" and "root \<notin> owned ws"
    and "node_at sz s root (handles_on_root ws) c" and "root_next_ok ws c"
    and "\<And>x. x \<in> owned ws \<Longrightarrow> \<exists>c. node_at sz s x 1 c" and "store_roots s \<subseteq> insert root (owned ws)"
  shows "mt_store_inv sz root ws s"
  using assms unfolding mt_store_inv_def by blast

lemma mt_store_restrict:
  assumes inv: "mt_store_inv sz root ws s" and K: "store_reach s \<subseteq> K"
  shows "mt_store_inv sz root ws (s |` K)"
proof -
  note D = mt_store_invD [OF inv]
  obtain c where c: "node_at sz s root (handles_on_root ws) c" "root_next_ok ws c" using D(5) by blast
  have "\<exists>c. node_at sz (s |` K) x 1 c" if "x \<in> owned ws" for x
    using D(6) [OF that] node_at_restrict [OF _ _ K, where k = 1] by fastforce
  then show ?thesis
    using mt_store_invI [OF D(1-4) node_at_restrict [OF c(1) handles_pos K] c(2)] D(7) store_roots_mutate(3) [of s K] by blast
qed

lemma mt_store_set_node:
  assumes inv: "mt_store_inv sz root ws s" and x: "x \<in> owned ws" and v: "has_type NextTy v"
  shows "mt_store_inv sz root ws (mutate (SetCell x next_field NextTy v) s)" (is "mt_store_inv _ _ _ ?s")
proof -
  note D = mt_store_invD [OF inv]
  obtain c where c: "node_at sz s root (handles_on_root ws) c" "root_next_ok ws c" using D(5) by blast
  have "root \<noteq> x" using D(4) x by blast
  then have "node_at sz ?s root (handles_on_root ws) c" using c(1) node_at_other by simp
  moreover have "\<exists>c. node_at sz ?s y 1 c" if "y \<in> owned ws" for y
  proof (cases "y = x")
    case True
    then show ?thesis using D(6) [OF that] node_at_set [OF _ v] by metis
  next
    case False
    then show ?thesis using D(6) [OF that] node_at_other by simp
  qed
  ultimately show ?thesis using mt_store_invI [OF D(1-4) _ c(2)] D(7) store_roots_mutate(2) by metis
qed

lemma mt_store_set_root:
  assumes inv: "mt_store_inv sz root ws s" and v: "has_type NextTy v" and ok: "root_next_ok ws v"
  shows "mt_store_inv sz root ws (mutate (SetCell root next_field NextTy v) s)" (is "mt_store_inv _ _ _ ?s")
    and "node_at sz (mutate (SetCell root next_field NextTy v) s) root (handles_on_root ws) v"
proof -
  note D = mt_store_invD [OF inv]
  obtain c where c: "node_at sz s root (handles_on_root ws) c" using D(5) by blast
  show nr: "node_at sz ?s root (handles_on_root ws) v" by (rule node_at_set [OF c v])
  have "\<exists>c. node_at sz ?s y 1 c" if "y \<in> owned ws" for y
    using D(6) [OF that] D(4) that node_at_other [of y root] by (metis mutate.simps(5))
  then show "mt_store_inv sz root ws ?s"
    using mt_store_invI [OF D(1-4) nr ok] D(7) store_roots_mutate(2) by metis
qed

text \<open>A worker moves on without touching the heap.\<close>

lemma mt_store_move:
  assumes inv: "mt_store_inv sz root ws s" and t: "t < NUM_THREADS" and own: "owned_list w = owned_list (ws t)"
    and j: "holds_root (wpc w) = holds_root (wpc (ws t))" and link: "linking (wpc w) \<Longrightarrow> linking (wpc (ws t))"
    and past: "past_barrier (wpc w) \<Longrightarrow> \<forall>u<NUM_THREADS. \<not> linking (wpc (ws u))"
      "past_barrier (wpc w) \<Longrightarrow> wpc w = DropNodes \<or> nodes w = []"
    and reads: "read_ptrs (wpc w) \<subseteq> owned ws" "read_ok (wpc w)"
    and clear: "cleared (wpc w) \<Longrightarrow> node_at sz s root (handles_on_root ws) VNone"
  shows "mt_store_inv sz root (ws(t := w)) s"
proof -
  note D = mt_store_invD [OF inv]
  obtain c where c: "node_at sz s root (handles_on_root ws) c" "root_next_ok ws c" using D(5) by blast
  have ow: "owned (ws(t := w)) = owned ws" using owned_upd [OF t] owned_split [OF t] own by simp
  have h: "handles_on_root (ws(t := w)) = handles_on_root ws" using holders_upd [of t w ws] t j by blast
  have "past_barrier (wpc w) \<Longrightarrow> \<not> linking (wpc w)" by (cases "wpc w") auto
  then have "barrier_ok (ws(t := w))"
    using barrier_ok_upd [OF D(3) t link] past by blast
  moreover have "owners_ok (ws(t := w))"
    using owners_ok_upd [OF D(1) t] owners_okD [OF D(1) t] own by simp
  moreover have "reads_ok (ws(t := w))" using reads_ok_upd [OF D(2) t _ reads] ow by simp
  moreover have "root_next_ok (ws(t := w)) c"
    using c link t clear node_at_unique [OF c(1)] unfolding root_next_ok_def ow by (metis fun_upd_apply)
  ultimately show ?thesis
    using mt_store_invI [of "ws(t := w)" root sz s c] D(4,6,7) c(1) unfolding ow h by blast
qed

lemma mt_store_allocate:
  assumes inv: "mt_store_inv sz root ws s" and t: "t < NUM_THREADS" and a: "a \<notin> dom s"
    and own: "owned_list w = owned_list (ws t) @ [a]" and pc: "linking (wpc (ws t))" "linking (wpc w)" "holds_root (wpc w) = holds_root (wpc (ws t))" "read_ptrs (wpc w) = {}" "read_ok (wpc w)"
  shows "mt_store_inv sz root (ws(t := w)) (mutate (Allocate a MtNode sz (mt_node i v VNone)) s)" (is "mt_store_inv _ _ _ ?s")
proof -
  note D = mt_store_invD [OF inv]
  obtain c where c: "node_at sz s root (handles_on_root ws) c" "root_next_ok ws c" using D(5) by blast
  have "a \<notin> owned ws" "a \<noteq> root" using D(6) a c(1) node_at_dom by metis+
  then have rest_a: "a \<notin> rest t ws" "a \<notin> set (owned_list (ws t))" using owned_split [OF t] by blast+
  have ow: "owned (ws(t := w)) = insert a (owned ws)" using owned_upd [OF t] owned_split [OF t] own by auto
  have h: "handles_on_root (ws(t := w)) = handles_on_root ws" using holders_upd [of t w ws] t pc by force
  have "owners_ok (ws(t := w))" using owners_ok_upd [OF D(1) t] owners_okD [OF D(1) t] own rest_a by auto
  moreover have "reads_ok (ws(t := w))" using reads_ok_upd [OF D(2) t, of w] pc ow by auto
  moreover have "barrier_ok (ws(t := w))"
    using barrier_ok_upd [OF D(3) t, of w] pc by (cases "wpc w") auto
  moreover have "root_next_ok (ws(t := w)) c"
    using c(2) pc t unfolding root_next_ok_def ow by (cases "wpc w") auto
  moreover have "node_at sz ?s root (handles_on_root ws) c" using c(1) \<open>a \<noteq> root\<close> node_at_other by simp
  moreover have "\<exists>c. node_at sz ?s x 1 c" if "x \<in> insert a (owned ws)" for x
    using that D(6) [of x] node_at_new node_at_other [of x a] by (cases "x = a") (blast, auto)
  moreover have "store_roots ?s \<subseteq> insert root (insert a (owned ws))" using D(7) store_roots_mutate(1) by blast
  ultimately show ?thesis
    using mt_store_invI [of "ws(t := w)" root sz ?s c] D(4) \<open>a \<noteq> root\<close> unfolding ow h by blast
qed

lemma mt_store_drop_node:
  assumes inv: "mt_store_inv sz root ws s" and t: "t < NUM_THREADS" and pc: "wpc (ws t) = DropNodes" and x: "nodes (ws t) = x # xs"
  shows "mt_store_inv sz root (ws(t := (ws t)\<lparr>nodes := xs\<rparr>)) (mutate (DropRoot x) s)" (is "mt_store_inv _ _ ?ws ?s")
proof -
  note D = mt_store_invD [OF inv]
  obtain c where c: "node_at sz s root (handles_on_root ws) c" "root_next_ok ws c" using D(5) by blast
  let ?w = "(ws t)\<lparr>nodes := xs\<rparr>"
  have own: "owned_list (ws t) = x # xs" "owned_list ?w = xs" using pc x by (simp_all add: owned_list_def)
  have xo: "x \<in> owned ws" "x \<notin> rest t ws" "x \<notin> set xs"
    using owned_split [OF t, of ws] owners_okD [OF D(1) t] own by auto
  have ow: "owned ?ws = owned ws - {x}" using owned_upd [OF t, of ws ?w] owned_split [OF t, of ws] own xo by auto
  have idle: "\<not> linking (wpc (ws u))" if "u < NUM_THREADS" for u using D(3) t that pc by (auto simp: barrier_ok_def)
  have h: "handles_on_root ?ws = handles_on_root ws" using holders_upd [of t ?w ws] t pc by simp
  have "owners_ok ?ws" using owners_ok_upd [OF D(1) t, of ?w] owners_okD [OF D(1) t] own by auto
  moreover have "reads_ok ?ws" using idle by (intro reads_ok_idle) auto
  moreover have "barrier_ok ?ws" using D(3) pc t unfolding barrier_ok_def by auto
  moreover have "root_next_ok ?ws c" using c(2) idle pc t unfolding root_next_ok_def by auto
  moreover have "node_at sz ?s root (handles_on_root ws) c"
  proof -
    have "root \<noteq> x" using D(4) xo(1) by blast
    then show ?thesis using c(1) node_at_other by simp
  qed
  moreover have "\<exists>c. node_at sz ?s y 1 c" if y: "y \<in> owned ws - {x}" for y
  proof -
    have "y \<noteq> x" using y by blast
    then show ?thesis using D(6) [of y] y node_at_other by simp
  qed
  moreover have "store_roots ?s \<subseteq> insert root (owned ws - {x})"
    using D(6) [OF xo(1)] store_roots_drop [of sz s x 1] D(7) by auto
  ultimately show ?thesis using mt_store_invI [of ?ws root sz ?s c] D(4) unfolding ow h by blast
qed

lemma mt_store_join:
  assumes inv: "mt_store_inv sz root ws s" and t: "t < NUM_THREADS" and pc: "wpc (ws t) = DropRootHandle"
  shows "mt_store_inv sz root (ws(t := (ws t)\<lparr>wpc := Joined\<rparr>)) (mutate (DropRoot root) s)" (is "mt_store_inv _ _ ?ws ?s")
proof -
  note D = mt_store_invD [OF inv]
  obtain c where c: "node_at sz s root (handles_on_root ws) c" "root_next_ok ws c" using D(5) by blast
  let ?w = "(ws t)\<lparr>wpc := Joined\<rparr>"
  have own: "owned_list ?w = owned_list (ws t)" using pc by (simp add: owned_list_def)
  have ow: "owned ?ws = owned ws" using owned_upd [OF t, of ws ?w] owned_split [OF t, of ws] own by simp
  have idle: "\<not> linking (wpc (ws u))" if "u < NUM_THREADS" for u using D(3) t that pc by (auto simp: barrier_ok_def)
  have h: "handles_on_root ?ws = handles_on_root ws - 1" using holders_join [of t ?w ws] t pc by simp
  have "owners_ok ?ws" using owners_ok_upd [OF D(1) t, of ?w] owners_okD [OF D(1) t] own by simp
  moreover have "reads_ok ?ws" using idle by (intro reads_ok_idle) auto
  moreover have "barrier_ok ?ws" using D(3) pc t unfolding barrier_ok_def by auto
  moreover have "root_next_ok ?ws c" using c(2) idle pc t unfolding root_next_ok_def by auto
  moreover have "node_at sz ?s root (handles_on_root ws - 1) c" by (rule node_at_drop [OF c(1)])
  moreover have "\<exists>c. node_at sz ?s y 1 c" if y: "y \<in> owned ws" for y
  proof -
    have "y \<noteq> root" using D(4) y by blast
    then show ?thesis using D(6) [OF y] node_at_other by simp
  qed
  moreover have "store_roots ?s \<subseteq> insert root (owned ws)" using store_roots_drop [OF c(1)] D(7) by auto
  ultimately show ?thesis using mt_store_invI [of ?ws root sz ?s c] D(4) unfolding ow h by blast
qed

lemma mt_store_spawn:
  assumes inv: "mt_store_inv sz root ws s" and t: "t < NUM_THREADS" and pc: "wpc (ws t) = Spawn"
  shows "mt_store_inv sz root (ws(t := (ws t)\<lparr>wpc := FirstBarrier\<rparr>)) (mutate (CloneRoot root) s)" (is "mt_store_inv _ _ ?ws ?s")
proof -
  note D = mt_store_invD [OF inv]
  obtain c where c: "node_at sz s root (handles_on_root ws) c" "root_next_ok ws c" using D(5) by blast
  let ?w = "(ws t)\<lparr>wpc := FirstBarrier\<rparr>"
  have own: "owned_list ?w = owned_list (ws t)" using pc by (simp add: owned_list_def)
  have ow: "owned ?ws = owned ws" using owned_upd [OF t, of ws ?w] owned_split [OF t, of ws] own by simp
  have h: "handles_on_root ?ws = handles_on_root ws + 1" using holders_spawn [of t ?w ws] t pc by simp
  have "owners_ok ?ws" using owners_ok_upd [OF D(1) t, of ?w] owners_okD [OF D(1) t] own by simp
  moreover have "reads_ok ?ws" using reads_ok_upd [OF D(2) t, of ?w] ow by simp
  moreover have "barrier_ok ?ws" using barrier_ok_upd [OF D(3) t, of ?w] pc by simp
  moreover have "root_next_ok ?ws c" using c(2) pc t unfolding root_next_ok_def ow by auto
  moreover have "node_at sz ?s root (handles_on_root ws + 1) c" by (rule node_at_clone [OF c(1)])
  moreover have "\<exists>c. node_at sz ?s y 1 c" if y: "y \<in> owned ws" for y
  proof -
    have "y \<noteq> root" using D(4) y by blast
    then show ?thesis using D(6) [OF y] node_at_other by simp
  qed
  moreover have "store_roots ?s \<subseteq> insert root (owned ws)" using D(7) by (auto simp: store_roots_def split: if_splits)
  ultimately show ?thesis using mt_store_invI [of ?ws root sz ?s c] D(4) unfolding ow h by blast
qed

end
