(* ===== verification/Multi_Threaded_Runs.thy ===== *)
theory Multi_Threaded_Runs
  imports Multi_Threaded
begin

text \<open>
  The runs of \<open>src/examples/multi_threaded.rs\<close>. Every step of a worker is allowed on the heap and keeps the
  invariant of \<open>Multi_Threaded\<close>, the monitor and the collector too, so the program is a \<open>machine\<close>
  (interpretation \<open>mt\<close>). A rank that each step of a worker decreases shows that the threads never wait for each
  other forever, and the ids of the nodes bound the traversal at the end of \<open>main\<close>.
\<close>

section \<open>Steps on the heap\<close>

lemma node_at_box:
  assumes "node_at sz (store_of m) x k c"
  obtains b i v where "m x = Some b" "data b = mt_node i v c" "vtable (header b) = vtable_new MtNode sz"
    "root_count (header b) = k" "has_type NextTy c"
  using assms by (auto simp: node_at_def store_of_def object_of_def)

lemma NextTy_cases:
  assumes "has_type NextTy v"
  obtains "v = VNone" | a where "v = VSome (VPtr False a)"
  using assms by (auto simp: NextTy_def split: val.splits)

lemma node_storable:
  assumes n: "node_at sz (store_of m) x k c" and v: "has_type NextTy v" and ptrs: "snd ` set (gc_ptrs v) \<subseteq> dom m"
  shows "storable m x next_field NextTy v"
  using n
proof (rule node_at_box)
  fix b i u assume b: "m x = Some b" "data b = mt_node i u c" "vtable (header b) = vtable_new MtNode sz"
  have "\<forall>q\<in>set (gc_ptrs v). ptr_ok m q" by (rule NextTy_cases [OF v]) (use ptrs in \<open>auto simp: ptr_ok_def\<close>)
  then show ?thesis using b v
    by (simp add: storable_def mt_node_def cell_new_def MtNode_def NextTy_def)
qed

lemma node_droppable: "node_at sz (store_of m) x k c \<Longrightarrow> 0 < k \<Longrightarrow> root_at m x"
  by (erule node_at_box) (simp add: root_at_def is_root_def)

lemma node_cell_get: "node_at sz (store_of m) x k c \<Longrightarrow> cell_get m x next_field = ret (Some c)"
  by (erule node_at_box) (simp add: cell_get_def deref_def mt_node_def cell_new_def)

lemma owned_dom:
  assumes "mt_store_inv sz root ws (store_of m)"
  shows "insert root (owned ws) \<subseteq> dom m"
proof -
  note D = mt_store_invD(5,6) [OF assms]
  have "root \<in> dom (store_of m)" using D(1) node_at_dom by blast
  moreover have "owned ws \<subseteq> dom (store_of m)" using D(2) node_at_dom by blast
  ultimately show ?thesis by simp
qed

section \<open>Steps of a worker\<close>

text \<open>What the step of a worker promises.\<close>

definition worker_post :: "usize \<Rightarrow> addr \<Rightarrow> nat \<Rightarrow> (nat \<Rightarrow> worker) \<Rightarrow> heap \<Rightarrow> worker \<times> heap \<Rightarrow> bool" where
  "worker_post sz root t ws h r \<longleftrightarrow>
     mt_inv sz root (ws(t := fst r), snd r) \<and> unat (bytes_allocated (snd r)) \<le> unat (bytes_allocated h) + unat sz"

lemma worker_postI:
  assumes "gc_inv h" and "mt_store_inv sz root (ws(t := w)) (store_of (mem h))"
  shows "worker_post sz root t ws h (w, h)"
  using assms by (simp add: worker_post_def mt_inv_def)

lemma worker_mutates:
  assumes gi: "gc_inv h" and ok: "allowed p x h" and m: "\<not> collector_op x" and z: "op_size x \<le> unat sz"
    and inv: "mt_store_inv sz root (ws(t := w)) (mutate x (store_of (mem h)))"
  shows "returns (bind_prog (run_op p x h) (\<lambda>h'. ret (w, h'))) (worker_post sz root t ws h)"
  by (rule returns_bindI [OF mutator_run_bytes [OF gi ok m]]) (use z inv in \<open>simp add: worker_post_def mt_inv_def\<close>)

lemma worker_allocates:
  assumes gi: "gc_inv h" and inv: "mt_store_inv sz root ws (store_of (mem h))" and t: "t < NUM_THREADS"
    and a: "a \<notin> dom (mem h)" "unat (bytes_allocated h) + unat sz < 2 ^ 64" and pc: "wpc (ws t) = Iteration i" "i < ITERATIONS"
  shows "returns (worker_step p sz root t a (ws t) h) (worker_post sz root t ws h)"
proof -
  let ?x = "Allocate a MtNode sz (mt_node (int (t * 1000 + i)) (int (t * 100 + i)) VNone)"
  let ?w = "if i mod 10 = 0 then (ws t)\<lparr>wpc := ReadRoot i a\<rparr>
            else (ws t)\<lparr>wpc := Iteration (Suc i), nodes := vec_push (nodes (ws t)) a\<rparr>"
  have step: "worker_step p sz root t a (ws t) h = bind_prog (run_op p ?x h) (\<lambda>h'. ret (?w, h'))"
    using pc by (simp add: worker_step_def del: run_op.simps)
  have "allowed p ?x h"
    using a by (simp add: allocatable_def MtNode_def mt_node_def cell_new_def covered_def)
  moreover have "\<not> collector_op ?x" "op_size ?x \<le> unat sz" by simp_all
  moreover have "mt_store_inv sz root (ws(t := ?w)) (mutate ?x (store_of (mem h)))"
    using pc a by (intro mt_store_allocate [OF inv t]) (simp_all add: owned_list_def vec_push_def)
  ultimately show ?thesis unfolding step by (rule worker_mutates [OF gi])
qed

lemma worker_links:
  assumes gi: "gc_inv h" and inv: "mt_store_inv sz root ws (store_of (mem h))" and t: "t < NUM_THREADS"
    and x: "x \<in> insert root (owned ws)" and v: "has_type NextTy v" "snd ` set (gc_ptrs v) \<subseteq> owned ws"
    and next_inv: "mt_store_inv sz root (ws(t := w)) (mutate (SetCell x next_field NextTy v) (store_of (mem h)))"
  shows "returns (bind_prog (run_op p (SetCell x next_field NextTy v) h) (\<lambda>h'. ret (w, h'))) (worker_post sz root t ws h)"
proof -
  obtain k c where "node_at sz (store_of (mem h)) x k c" using x mt_store_invD(5,6) [OF inv] by blast
  moreover have "snd ` set (gc_ptrs v) \<subseteq> dom (mem h)" using v(2) owned_dom [OF inv] by blast
  ultimately have "allowed p (SetCell x next_field NextTy v) h" using node_storable v(1) by simp
  then show ?thesis using worker_mutates [OF gi _ _ _ next_inv] by simp
qed

lemma reads_okD: "reads_ok ws \<Longrightarrow> t < NUM_THREADS \<Longrightarrow> read_ptrs (wpc (ws t)) \<subseteq> owned ws \<and> read_ok (wpc (ws t))"
  by (simp add: reads_ok_def)

lemma current_node_owned: "t < NUM_THREADS \<Longrightarrow> current_node (wpc (ws t)) = [x] \<Longrightarrow> x \<in> owned ws"
  using owned_split [of t ws] by (simp add: owned_list_def)

lemma linking_not_past:
  assumes "barrier_ok ws" and "t < NUM_THREADS" and "linking (wpc (ws t))" and "u < NUM_THREADS"
  shows "\<not> past_barrier (wpc (ws u))" and "\<not> cleared (wpc (ws u))"
proof -
  show past: "\<not> past_barrier (wpc (ws u))" using assms by (auto simp: barrier_ok_def)
  then show "\<not> cleared (wpc (ws u))" by (cases "wpc (ws u)") auto
qed

lemma worker_reads:
  assumes gi: "gc_inv h" and inv: "mt_store_inv sz root ws (store_of (mem h))" and t: "t < NUM_THREADS"
    and pc: "wpc (ws t) = ReadRoot i node"
  shows "returns (worker_step p sz root t a (ws t) h) (worker_post sz root t ws h)"
proof -
  obtain c where c: "node_at sz (store_of (mem h)) root (handles_on_root ws) c" "root_next_ok ws c"
    using mt_store_invD(5) [OF inv] by blast
  have "has_type NextTy c" using c(1) by (auto simp: node_at_def)
  moreover have "snd ` set (gc_ptrs c) \<subseteq> owned ws" using c(2) t pc by (auto simp: root_next_ok_def)
  ultimately have "mt_store_inv sz root (ws(t := (ws t)\<lparr>wpc := LinkRoot i node c\<rparr>)) (store_of (mem h))"
    using pc by (intro mt_store_move [OF inv t]) (simp_all add: owned_list_def)
  then show ?thesis using pc node_cell_get [OF c(1)] worker_postI [OF gi] by (simp add: worker_step_def)
qed

lemma worker_link_root:
  assumes gi: "gc_inv h" and inv: "mt_store_inv sz root ws (store_of (mem h))" and t: "t < NUM_THREADS"
    and pc: "wpc (ws t) = LinkRoot i node v"
  shows "returns (worker_step p sz root t a (ws t) h) (worker_post sz root t ws h)"
proof -
  note D = mt_store_invD [OF inv]
  let ?v = "VSome (VPtr False node)" and ?w = "(ws t)\<lparr>wpc := LinkNode i node v\<rparr>"
  have node: "node \<in> owned ws" using current_node_owned [OF t] pc by simp
  have ty: "has_type NextTy ?v" by (simp add: NextTy_def)
  have "root_next_ok ws ?v"
    using node linking_not_past(2) [OF D(3) t] pc by (simp add: root_next_ok_def)
  then have "mt_store_inv sz root ws (mutate (SetCell root next_field NextTy ?v) (store_of (mem h)))"
    by (rule mt_store_set_root(1) [OF inv ty])
  then have "mt_store_inv sz root (ws(t := ?w)) (mutate (SetCell root next_field NextTy ?v) (store_of (mem h)))"
    using pc t reads_okD [OF D(2) t] by (intro mt_store_move) (simp_all add: owned_list_def)
  then show ?thesis
    using worker_links [OF gi inv t _ ty] node pc by (simp add: worker_step_def del: run_op.simps mutate.simps)
qed

lemma worker_link_node:
  assumes gi: "gc_inv h" and inv: "mt_store_inv sz root ws (store_of (mem h))" and t: "t < NUM_THREADS"
    and pc: "wpc (ws t) = LinkNode i node v"
  shows "returns (worker_step p sz root t a (ws t) h) (worker_post sz root t ws h)"
proof -
  let ?w = "(ws t)\<lparr>wpc := Iteration (Suc i), nodes := vec_push (nodes (ws t)) node\<rparr>"
  have node: "node \<in> owned ws" using current_node_owned [OF t] pc by simp
  have v: "has_type NextTy v" "snd ` set (gc_ptrs v) \<subseteq> owned ws"
    using reads_okD [OF mt_store_invD(2) [OF inv] t] pc by simp_all
  from mt_store_set_node [OF inv node v(1)]
  have "mt_store_inv sz root (ws(t := ?w)) (mutate (SetCell node next_field NextTy v) (store_of (mem h)))"
    using pc t by (intro mt_store_move) (auto simp: owned_list_def vec_push_def)
  then show ?thesis
    using worker_links [OF gi inv t _ v] node pc by (simp add: worker_step_def del: run_op.simps mutate.simps)
qed

lemma worker_clears_root:
  assumes gi: "gc_inv h" and inv: "mt_store_inv sz root ws (store_of (mem h))" and t: "t < NUM_THREADS"
    and pc: "wpc (ws t) = ClearRoot"
  shows "returns (worker_step p sz root t a (ws t) h) (worker_post sz root t ws h)"
proof -
  let ?w = "(ws t)\<lparr>wpc := DropRootHandle\<rparr>"
  have ty: "has_type NextTy VNone" by (simp add: NextTy_def)
  have idle: "\<forall>u<NUM_THREADS. \<not> linking (wpc (ws u))" and "nodes (ws t) = []"
    using mt_store_invD(3) [OF inv] t pc by (auto simp: barrier_ok_def)
  have "root_next_ok ws VNone" by (simp add: root_next_ok_def)
  note set = mt_store_set_root [OF inv ty this]
  have "mt_store_inv sz root (ws(t := ?w)) (mutate (SetCell root next_field NextTy VNone) (store_of (mem h)))"
    using pc idle \<open>nodes (ws t) = []\<close> set(2)
    by (intro mt_store_move [OF set(1) t]) (simp_all add: owned_list_def del: mutate.simps)
  then show ?thesis
    using worker_links [OF gi inv t _ ty] pc by (simp add: worker_step_def del: run_op.simps mutate.simps)
qed

lemma worker_drops:
  assumes gi: "gc_inv h" and n: "node_at sz (store_of (mem h)) x k c" "0 < k"
    and "mt_store_inv sz root (ws(t := w)) (mutate (DropRoot x) (store_of (mem h)))"
  shows "returns (bind_prog (run_op p (DropRoot x) h) (\<lambda>h'. ret (w, h'))) (worker_post sz root t ws h)"
proof -
  have "allowed p (DropRoot x) h" using node_droppable [OF n] by simp
  then show ?thesis using worker_mutates [OF gi _ _ _ assms(4)] by simp
qed

lemma worker_drop_nodes:
  assumes gi: "gc_inv h" and inv: "mt_store_inv sz root ws (store_of (mem h))" and t: "t < NUM_THREADS"
    and pc: "wpc (ws t) = DropNodes"
  shows "returns (worker_step p sz root t a (ws t) h) (worker_post sz root t ws h)"
proof (cases "nodes (ws t)")
  case Nil
  have "\<forall>u<NUM_THREADS. \<not> linking (wpc (ws u))" using mt_store_invD(3) [OF inv] t pc by (auto simp: barrier_ok_def)
  then have "mt_store_inv sz root (ws(t := (ws t)\<lparr>wpc := ClearRoot\<rparr>)) (store_of (mem h))"
    using pc Nil by (intro mt_store_move [OF inv t]) (simp_all add: owned_list_def)
  then show ?thesis using pc Nil worker_postI [OF gi] by (simp add: worker_step_def)
next
  case (Cons x xs)
  have "x \<in> owned ws" using owned_split [OF t, of ws] Cons by (simp add: owned_list_def)
  then obtain c where "node_at sz (store_of (mem h)) x 1 c" using mt_store_invD(6) [OF inv] by blast
  then show ?thesis
    using worker_drops [OF gi] mt_store_drop_node [OF inv t pc Cons] pc Cons
    by (simp add: worker_step_def del: run_op.simps mutate.simps)
qed

lemma worker_spawns:
  assumes gi: "gc_inv h" and inv: "mt_store_inv sz root ws (store_of (mem h))" and t: "t < NUM_THREADS"
    and pc: "wpc (ws t) = Spawn"
  shows "returns (worker_step p sz root t a (ws t) h) (worker_post sz root t ws h)"
proof -
  obtain c where c: "node_at sz (store_of (mem h)) root (handles_on_root ws) c" using mt_store_invD(5) [OF inv] by blast
  have "root_count (header (the (mem h root))) = handles_on_root ws" using node_at_box [OF c] by (metis option.sel)
  then have "allowed p (CloneRoot root) h" using node_droppable [OF c handles_pos] handles_lt [of ws] by simp
  then show ?thesis
    using worker_mutates [OF gi _ _ _ mt_store_spawn [OF inv t pc]] pc by (simp add: worker_step_def del: run_op.simps mutate.simps)
qed

lemma worker_step_inv:
  assumes inv: "mt_inv sz root (ws, h)" and ok: "mt_allowed p sz (Worker t a) (ws, h)"
  shows "returns (worker_step p sz root t a (ws t) h) (worker_post sz root t ws h)"
proof -
  have gi: "gc_inv h" and st: "mt_store_inv sz root ws (store_of (mem h))" using inv by (simp_all add: mt_inv_def)
  have t: "t < NUM_THREADS" and a: "a \<notin> dom (mem h)" "unat (bytes_allocated h) + unat sz < 2 ^ 64" using ok by simp_all
  note steps = worker_allocates [OF gi st t a] worker_reads [OF gi st t] worker_link_root [OF gi st t]
    worker_link_node [OF gi st t] worker_clears_root [OF gi st t] worker_drop_nodes [OF gi st t] worker_spawns [OF gi st t]
  note move = worker_postI [OF gi mt_store_move [OF st t]]
  obtain c where c: "node_at sz (store_of (mem h)) root (handles_on_root ws) c" using mt_store_invD(5) [OF st] by blast
  show ?thesis
  proof (cases "wpc (ws t)")
    case FirstBarrier
    then show ?thesis by (auto simp: worker_step_def owned_list_def intro!: move)
  next
    case (Iteration i)
    then show ?thesis
      using steps(1) by (cases "i < ITERATIONS") (auto simp: worker_step_def owned_list_def intro!: move)
  next
    case SecondBarrier
    have "\<forall>u<NUM_THREADS. \<not> linking (wpc (ws u))" using ok SecondBarrier by (simp add: list_all_iff)
    then show ?thesis using SecondBarrier by (auto simp: worker_step_def owned_list_def intro!: move)
  next
    case DropRootHandle
    then show ?thesis
      using worker_drops [OF gi c handles_pos mt_store_join [OF st t]]
      by (simp add: worker_step_def del: run_op.simps mutate.simps)
  next
    case Joined
    have "ws(t := ws t) = ws" by simp
    then show ?thesis using Joined worker_postI [OF gi, of sz root ws t "ws t"] st by (simp add: worker_step_def)
  qed (erule steps(2-7))+
qed

lemma monitor_round_run:
  assumes gi: "gc_inv h" and ok: "allowed p CollectIfNeeded h"
  shows "returns (monitor_round p h)
    (\<lambda>h'. gc_inv h' \<and> reclaimed (store_of (mem h)) (store_of (mem h')))"
proof -
  obtain h' where h': "collect p h = ret h'" "gc_inv h'" "reclaimed (store_of (mem h)) (store_of (mem h'))"
    using collector_run [OF gi ok] by (auto simp: returns_iff)
  then show ?thesis
    using gi gc_inv_count [OF gi] gc_inv_count [OF h'(2)] reclaimed_refl [OF gc_inv_mem_ok [OF gi]]
    by (auto simp: monitor_round_def)
qed

lemma collector_mt_inv:
  assumes "mt_inv sz root (ws, h)" and "gc_inv h'" and "reclaimed (store_of (mem h)) (store_of (mem h'))"
  shows "mt_inv sz root (ws, h')"
  using assms mt_store_restrict [of sz root ws "store_of (mem h)"] by (auto simp: mt_inv_def reclaimed_def)

lemma run_mt_inv:
  assumes inv: "mt_inv sz root st" and ok: "mt_allowed p sz e st"
  shows "returns (run_mt p sz root e st) (mt_inv sz root)"
proof (cases st)
  case (Pair ws h)
  have gi: "gc_inv h" using inv Pair by (simp add: mt_inv_def)
  show ?thesis
  proof (cases e)
    case (Worker t a)
    have "returns (worker_step p sz root t a (ws t) h) (worker_post sz root t ws h)"
      using worker_step_inv inv ok Pair Worker by simp
    then show ?thesis
      unfolding Pair Worker run_mt.simps by (rule returns_bindI) (auto simp: worker_post_def)
  next
    case Monitor
    have "returns (monitor_round p h)
        (\<lambda>h'. gc_inv h' \<and> reclaimed (store_of (mem h)) (store_of (mem h')))"
      using monitor_round_run [OF gi] ok Pair Monitor by simp
    then show ?thesis
      unfolding Pair Monitor run_mt.simps by (rule returns_bindI) (use collector_mt_inv inv Pair in auto)
  next
    case (Collector x)
    have "returns (run_op p x h)
        (\<lambda>h'. gc_inv h' \<and> reclaimed (store_of (mem h)) (store_of (mem h')))"
      using collector_run [OF gi] ok Pair Collector by simp
    then show ?thesis
      unfolding Pair Collector run_mt.simps by (rule returns_bindI) (use collector_mt_inv inv Pair in auto)
  qed
qed

interpretation mt: machine "run_mt p sz root" "mt_allowed p sz" "mt_inv sz root" for p sz root
  by unfold_locales (rule run_mt_inv)

section \<open>Start and end of the program\<close>

definition unspawned :: "nat \<Rightarrow> worker" where
  "unspawned = (\<lambda>_. \<lparr>wpc = Spawn, nodes = []\<rparr>)"

definition mt_start :: "profile \<Rightarrow> usize \<Rightarrow> addr \<Rightarrow> heap \<Rightarrow> mt_state prog" where
  "mt_start p sz root h =
     bind_prog (run_op p (Allocate root MtNode sz (mt_node 0 0 VNone)) h) (\<lambda>h'. ret (unspawned, h'))"

lemma unspawned_owned: "owned unspawned = {}" and unspawned_handles: "handles_on_root unspawned = 1"
  by (simp_all add: owned_def owned_list_def unspawned_def handles_on_root_def holders_def)

lemma mt_start_inv:
  assumes gi: "gc_inv h" and empty: "mem h = Map.empty" and "unat (bytes_allocated h) + unat sz < 2 ^ 64"
  shows "returns (mt_start p sz root h) (\<lambda>st. mt_inv sz root st \<and> fst st = unspawned \<and>
    unat (bytes_allocated (snd st)) \<le> unat (bytes_allocated h) + unat sz)"
proof -
  let ?x = "Allocate root MtNode sz (mt_node 0 0 VNone)"
  have "allowed p ?x h" "\<not> collector_op ?x"
    using assms by (simp_all add: allocatable_def MtNode_def mt_node_def cell_new_def covered_def)
  then have "returns (run_op p ?x h) (\<lambda>h'. gc_inv h' \<and> store_of (mem h') = mutate ?x (store_of (mem h)))"
    by (rule mutator_run [OF gi])
  moreover have "store_of (mem h) = Map.empty" using empty by (simp add: store_of_def fun_eq_iff)
  moreover have "mt_store_inv sz root unspawned (mutate ?x Map.empty)"
  proof (rule mt_store_invI [where c = VNone])
    show "node_at sz (mutate ?x Map.empty) root (handles_on_root unspawned) VNone"
      unfolding unspawned_handles by (rule node_at_new)
    show "store_roots (mutate ?x Map.empty) \<subseteq> insert root (owned unspawned)"
      by (auto simp: store_roots_def split: if_splits)
  qed (auto simp: unspawned_owned owners_ok_def reads_ok_def barrier_ok_def root_next_ok_def unspawned_def owned_def owned_list_def)
  ultimately have "returns (run_op p ?x h) (\<lambda>h'. gc_inv h' \<and> store_of (mem h') = mutate ?x Map.empty)"
    "mt_store_inv sz root unspawned (mutate ?x Map.empty)" by simp_all
  moreover have "unat (bytes_allocated h') \<le> unat (bytes_allocated h) + unat sz"
    if "gc_inv h'" "store_of (mem h') = mutate ?x Map.empty" for h'
  proof (rule trans_le_add2)
    show "unat (bytes_allocated h') \<le> unat sz"
      using store_bytes_mutate [of Map.empty ?x] gc_inv_bytes(1) [OF that(1)] that(2)
      by (simp add: mt_node_def cell_new_def) (simp add: store_bytes_def)
  qed
  ultimately show ?thesis
    unfolding mt_start_def by (auto simp: mt_inv_def elim!: returns_bindI simp del: run_op.simps mutate.simps)
qed

lemma joined_store:
  assumes inv: "mt_store_inv sz root ws s" and joined: "\<forall>t<NUM_THREADS. wpc (ws t) = Joined"
  shows "owned ws = {}" and "node_at sz s root 1 VNone" and "store_reach s = {root}"
proof -
  note D = mt_store_invD [OF inv]
  have "owned_list (ws t) = []" if "t < NUM_THREADS" for t
    using D(3) joined that by (simp add: owned_list_def barrier_ok_def)
  then show own: "owned ws = {}" by (simp add: owned_def)
  have "holders ws = {}" using joined by (auto simp: holders_def)
  then have "handles_on_root ws = 1" by (simp add: handles_on_root_def)
  moreover have "root_next_ok ws c \<Longrightarrow> c = VNone" for c
    using joined by (force simp: root_next_ok_def NUM_THREADS_def)
  ultimately show n: "node_at sz s root 1 VNone" using D(5) by metis
  have "store_succs s root = {}" using n by (auto simp: node_at_def store_succs_def mt_node_def cell_new_def)
  moreover have "store_roots s = {root}" using n D(7) own by (auto simp: node_at_def store_roots_def)
  ultimately have succs: "store_succs s root = {}" and roots: "store_roots s = {root}" by blast+
  have "a = root" if "a \<in> store_reach s" for a
    using that by (induction rule: store_reach.induct) (use succs roots in auto)
  moreover have "root \<in> store_reach s" using roots by (intro store_reach.root) simp
  ultimately show "store_reach s = {root}" by blast
qed

lemma count_nodes_None: "count_nodes VNone visited n h = ret (n, h)"
  by (simp add: count_nodes.simps)

lemma main_end_run:
  assumes inv: "mt_inv sz root (ws, h)" and joined: "\<forall>t<NUM_THREADS. wpc (ws t) = Joined" and ok: "pacing_safe p h"
  shows "\<exists>n h'. main_end p root h = ret (n, 0, h') \<and> (quiescent h \<and> should_collect h \<longrightarrow> n = 1)"
proof -
  have gi: "gc_inv h" using inv by (simp add: mt_inv_def)
  obtain h1 where h1: "collect p h = ret h1" "gc_inv h1" "reclaimed (store_of (mem h)) (store_of (mem h1))"
    using collector_run [OF gi, of p CollectIfNeeded] ok by (auto simp: returns_iff)
  have "mt_inv sz root (ws, h1)" by (rule collector_mt_inv [OF inv h1(2,3)])
  then have n: "node_at sz (store_of (mem h1)) root 1 VNone"
    using joined_store(2) [OF _ joined] by (simp add: mt_inv_def)
  obtain ys where ys: "heap_inv ys h1" using gc_inv_heap [OF h1(2)] by blast
  have "length ys = 1" if q: "quiescent h" "should_collect h"
  proof -
    obtain xs where xs: "heap_inv xs h" using gc_inv_heap [OF gi] by blast
    have "ready h" using gi q by (simp add: gc_inv_def ready_def)
    from force_collect_run [OF xs this ok] obtain r where r: "force_collect p h = ret r" "collected xs (reach (mem h)) h (snd r)"
      by (auto simp: returns_iff)
    have "h1 = snd r" using h1(1) q(2) r(1) by (cases r) (simp add: collect_def)
    then have "dom (mem h1) = reach (mem h)" using r(2) by (simp add: collected_def)
    also have "\<dots> = {root}" using joined_store(3) [OF _ joined] inv unfolding mt_inv_def store_reach_of [symmetric] snd_conv fst_conv by blast
    finally have "set ys = {root}" using ys by (simp add: heap_inv_def)
    then show ?thesis using distinct_card [OF chain_distinct [OF heap_invD(1) [OF ys]]] by simp
  qed
  then show ?thesis
    using h1(1) heap_count [OF ys] node_cell_get [OF n] by (auto simp: main_end_def count_nodes_None)
qed

section \<open>Progress\<close>

text \<open>An upper bound on the steps a worker still makes.\<close>

fun pc_rank :: "worker_pc \<Rightarrow> nat" where
  "pc_rank Spawn = 7 + 5 * ITERATIONS"
| "pc_rank FirstBarrier = 6 + 5 * ITERATIONS"
| "pc_rank (Iteration i) = 5 + 5 * (ITERATIONS - i)"
| "pc_rank (ReadRoot i n) = 9 + 5 * (ITERATIONS - Suc i)"
| "pc_rank (LinkRoot i n v) = 8 + 5 * (ITERATIONS - Suc i)"
| "pc_rank (LinkNode i n v) = 7 + 5 * (ITERATIONS - Suc i)"
| "pc_rank SecondBarrier = 4"
| "pc_rank DropNodes = 3"
| "pc_rank ClearRoot = 2"
| "pc_rank DropRootHandle = 1"
| "pc_rank Joined = 0"

definition steps_left :: "(nat \<Rightarrow> worker) \<Rightarrow> nat" where
  "steps_left ws = (\<Sum>t<NUM_THREADS. pc_rank (wpc (ws t)) + length (nodes (ws t)))"

lemma worker_step_rank:
  assumes "worker_step p sz root t a w h = ret (w', h')" and "wpc w \<noteq> Joined"
  shows "pc_rank (wpc w') + length (nodes w') < pc_rank (wpc w) + length (nodes w)"
  using assms
  by (auto simp: worker_step_def bind_eq_ret_iff vec_push_def split: worker_pc.splits if_splits list.splits)

lemma steps_left_upd:
  assumes t: "t < NUM_THREADS" and "pc_rank (wpc w) + length (nodes w) < pc_rank (wpc (ws t)) + length (nodes (ws t))"
  shows "steps_left (ws(t := w)) < steps_left ws"
  unfolding steps_left_def by (rule sum_strict_mono_ex1) (use assms in auto)

lemma some_worker_enabled:
  assumes "\<exists>t<NUM_THREADS. wpc (ws t) \<noteq> Joined" and a: "a \<notin> dom (mem h)" "unat (bytes_allocated h) + unat sz < 2 ^ 64"
  shows "\<exists>t<NUM_THREADS. wpc (ws t) \<noteq> Joined \<and> mt_allowed p sz (Worker t a) (ws, h)"
proof -
  consider (spawn) "\<exists>t<NUM_THREADS. wpc (ws t) = Spawn"
    | (link) t where "t < NUM_THREADS" "linking (wpc (ws t))" "\<forall>u<NUM_THREADS. wpc (ws u) \<noteq> Spawn"
    | (past) "\<forall>u<NUM_THREADS. \<not> linking (wpc (ws u))"
    by blast
  then show ?thesis
  proof cases
    case spawn
    define t where "t = (LEAST t. t < NUM_THREADS \<and> wpc (ws t) = Spawn)"
    have t: "t < NUM_THREADS \<and> wpc (ws t) = Spawn" unfolding t_def using spawn by (rule LeastI_ex)
    have "wpc (ws u) \<noteq> Spawn" if "u < t" for u
      using not_less_Least [OF that [unfolded t_def]] that t by simp
    then show ?thesis using t a by (auto simp: list_all_iff intro!: exI [of _ t])
  next
    case (link t)
    then show ?thesis using a by (intro exI [of _ t]) (auto simp: list_all_iff)
  next
    case past
    obtain t where t: "t < NUM_THREADS" "wpc (ws t) \<noteq> Joined" using assms(1) by blast
    then have "wpc (ws t) \<noteq> Spawn" "wpc (ws t) \<noteq> FirstBarrier" using past by force+
    then show ?thesis using past t a by (intro exI [of _ t]) (auto simp: list_all_iff)
  qed
qed

section \<open>The traversal ends\<close>

definition ids :: "mem \<Rightarrow> int set" where
  "ids m = (\<lambda>b. node_id (data b)) ` ran m"

lemma count_nodes_Some:
  assumes "mem h a = Some b" and "get_cell next_field (data b) = Some c"
  shows "count_nodes (VSome (VPtr nt a)) visited n h =
    (if node_id (data b) \<in> set visited then ret (n, h) else count_nodes c (node_id (data b) # visited) (Suc n) h)"
proof -
  obtain m1 where m1: "gc_ptr_root (mem h) a = ret (a, m1)" "gc_root_deref m1 a = ret (data b)" "gc_root_drop m1 a = ret (mem h)"
    using root_then_drop [of "mem h" a b, OF assms(1)] by blast
  have "cell_get m1 a next_field = ret (Some c)"
    using m1(2) assms(2) by (auto simp: cell_get_def gc_root_deref_def bind_eq_ret_iff)
  then show ?thesis using m1 by (subst count_nodes.simps) (simp add: drop_root_def)
qed

lemma count_nodes_ends:
  assumes ok: "mem_ok (mem h)" and fin: "finite (dom (mem h))"
    and nodes: "\<And>x. x \<in> dom (mem h) \<Longrightarrow> \<exists>k c. node_at sz (store_of (mem h)) x k c"
    and "has_type NextTy cur" and "snd ` set (gc_ptrs cur) \<subseteq> dom (mem h)"
  shows "\<exists>k\<le>card (ids (mem h) - set visited). count_nodes cur visited n h = ret (n + k, h)"
  using assms(4,5)
proof (induction "card (ids (mem h) - set visited)" arbitrary: cur visited n rule: less_induct)
  case less
  have fin_ids: "finite (ids (mem h))" using fin by (simp add: ids_def finite_ran)
  show ?case
  proof (rule NextTy_cases [OF less.prems(1)])
    assume "cur = VNone"
    then show ?thesis by (simp add: count_nodes_None)
  next
    fix a assume cur: "cur = VSome (VPtr False a)"
    then obtain k c where "node_at sz (store_of (mem h)) a k c" using nodes less.prems(2) by force
    then obtain b i v where b: "mem h a = Some b" "data b = mt_node i v c" "has_type NextTy c" by (rule node_at_box)
    have cell: "get_cell next_field (data b) = Some c" using b(2) by (simp add: mt_node_def cell_new_def)
    have "snd ` set (gc_ptrs c) \<subseteq> dom (mem h)"
      using mem_okD(2) [OF ok b(1)] b(2) by (auto simp: mt_node_def cell_new_def ptr_ok_def)
    moreover have "node_id (data b) \<in> ids (mem h)" using b(1) by (auto simp: ids_def ran_def)
    then have "card (ids (mem h) - set (node_id (data b) # visited)) < card (ids (mem h) - set visited)"
      if "node_id (data b) \<notin> set visited"
      using that fin_ids by (intro psubset_card_mono) auto
    ultimately show ?thesis
      using less.hyps [of "node_id (data b) # visited" c "Suc n"] b(3) count_nodes_Some [OF b(1) cell]
      unfolding cur by (cases "node_id (data b) \<in> set visited") (fastforce intro: exI [of _ "Suc _"])+
  qed
qed

section \<open>Completion\<close>

lemma some_worker_progresses:
  assumes "mt_inv sz root (ws, h)" and "\<exists>t<NUM_THREADS. wpc (ws t) \<noteq> Joined" and a: "a \<notin> dom (mem h)"
    and b: "unat (bytes_allocated h) + steps_left ws * unat sz < 2 ^ 64"
  shows "\<exists>t ws' h'. mt_allowed p sz (Worker t a) (ws, h) \<and> run_mt p sz root (Worker t a) (ws, h) = ret (ws', h') \<and>
    mt_inv sz root (ws', h') \<and> steps_left ws' < steps_left ws \<and>
    unat (bytes_allocated h') + steps_left ws' * unat sz < 2 ^ 64"
proof -
  have "steps_left ws \<noteq> 0"
  proof -
    have "pc_rank pc \<noteq> 0" if "pc \<noteq> Joined" for pc using that by (cases pc) auto
    then show ?thesis using assms(2) by (auto simp: steps_left_def)
  qed
  then obtain k where k: "steps_left ws = Suc k" using not0_implies_Suc by blast
  then have "unat (bytes_allocated h) + unat sz < 2 ^ 64" using b by simp
  then obtain t where t: "t < NUM_THREADS" "wpc (ws t) \<noteq> Joined" and ok: "mt_allowed p sz (Worker t a) (ws, h)"
    using some_worker_enabled [OF assms(2) a] by blast
  from worker_step_inv [OF assms(1) ok] obtain w h'
    where w: "worker_step p sz root t a (ws t) h = ret (w, h')" "mt_inv sz root (ws(t := w), h')"
      and le: "unat (bytes_allocated h') \<le> unat (bytes_allocated h) + unat sz"
    by (auto simp: returns_iff worker_post_def)
  have less: "steps_left (ws(t := w)) < steps_left ws"
    using steps_left_upd [of t w ws] t(1) worker_step_rank [OF w(1) t(2)] by simp
  then have "steps_left (ws(t := w)) * unat sz \<le> k * unat sz" using k by (intro mult_le_mono1) simp
  moreover have "unat (bytes_allocated h) + (unat sz + k * unat sz) < 2 ^ 64" using b k by simp
  ultimately have "unat (bytes_allocated h') + steps_left (ws(t := w)) * unat sz < 2 ^ 64" using le by linarith
  then show ?thesis using ok w less by (intro exI [of _ t] exI [of _ "ws(t := w)"] exI [of _ h']) simp
qed

definition affordable :: "usize \<Rightarrow> addr \<Rightarrow> mt_state \<Rightarrow> bool" where
  "affordable sz root st \<longleftrightarrow>
     mt_inv sz root st \<and> unat (bytes_allocated (snd st)) + steps_left (fst st) * unat sz < 2 ^ 64"

interpretation mtp: progressing "run_mt p sz root" "mt_allowed p sz" "affordable sz root"
  "\<lambda>st. \<forall>t<NUM_THREADS. wpc (fst st t) = Joined" "\<lambda>st. steps_left (fst st)" for p sz root
proof
  fix st assume st: "affordable sz root st" "\<not> (\<forall>t<NUM_THREADS. wpc (fst st t) = Joined)"
  obtain ws h where wh: "st = (ws, h)" by (cases st)
  have inv: "mt_inv sz root (ws, h)" and b: "unat (bytes_allocated h) + steps_left ws * unat sz < 2 ^ 64"
    using st(1) wh by (simp_all add: affordable_def)
  have "finite (dom (mem h))" using gc_inv_bytes(2) inv by (simp add: mt_inv_def)
  then obtain a where a: "a \<notin> dom (mem h)" using ex_new_if_finite infinite_UNIV_nat by blast
  have "\<exists>t<NUM_THREADS. wpc (ws t) \<noteq> Joined" using st(2) wh by simp
  from some_worker_progresses [OF inv this a b]
  show "\<exists>x st'. mt_allowed p sz x st \<and> run_mt p sz root x st = ret st' \<and> affordable sz root st' \<and>
      steps_left (fst st') < steps_left (fst st)"
    unfolding wh affordable_def by (metis fst_conv snd_conv)
qed

lemma steps_left_unspawned: "steps_left unspawned = 2028"
  by (simp add: steps_left_def unspawned_def NUM_THREADS_def ITERATIONS_def)

section \<open>A run\<close>

text \<open>
  Two workers read the shared cell before either has written it, marking starts before they link their nodes,
  and the cycle ends before the monitor has a look.
\<close>

definition mt_run_example :: "mt_event list" where
  "mt_run_example =
     map (\<lambda>t. Worker t 2) [0, 1, 2, 3, 0, 1, 0] @ [Worker 1 3] @ map (\<lambda>t. Worker t 9) [0, 1] @
     [Collector StartMarking, Worker 0 9, Worker 1 9, Collector (MarkIncrement 1), Worker 0 9, Worker 1 9,
      Collector (MarkIncrement 10), Collector SweepAndFinish, Monitor, Worker 2 9]"

lemma mt_example_start:
  "\<exists>st. mt_start Release 64 1 (heap_init options_DEFAULT) = ret st \<and>
     all_allowed (run_mt Release 64 1) (mt_allowed Release 64) mt_run_example st"
  by (simp add: mt_start_def mt_run_example_def worker_step_def unspawned_def NUM_THREADS_def ITERATIONS_def
      MtNode_def mt_node_def NextTy_def monitor_round_def upt_rec exec op_checks)

section \<open>Properties\<close>





end
