(* ===== verification/Integration_Tests.thy ===== *)
theory Integration_Tests
  imports Client_Programs Object_Store
begin

text \<open>
  Integration tests of the repository, \<open>src/tests/gc_functional.rs\<close>, as programs over the modelled library. A test returns its
  asserted conditions in order. The addresses the allocator hands out are parameters; an address may come again after a
  collection has freed it. The test of the write barrier has four threads; a step is one call of the library, and the
  steps interleave as a schedule says.

  All of these tests use a heap with the default options and stay below its threshold, so neither \<open>collect\<close> nor the background
  thread does anything (\<open>calm_idle\<close>); what they check is the collection they force themselves. The proofs follow
  the object store of \<open>Object_Store\<close>: on a calm heap each call is one operation of the store, and a forced collection
  leaves exactly the reachable part of it.
\<close>

section \<open>gc\_functional.rs\<close>

text \<open>\<open>let _tmp = ctx.allocate(...);\<close> in a loop: each handle is dropped at the end of its round.\<close>

definition allocate_temps :: "ty \<Rightarrow> usize \<Rightarrow> val \<Rightarrow> addr list \<Rightarrow> heap \<Rightarrow> heap prog" where
  "allocate_temps t sz v as h =
     for_each (\<lambda>a h. bind_prog (allocate h a t sz v) (\<lambda>(tmp, h1). drop_root tmp h1)) as h"

text \<open>\<open>(0..n).map(|i| ctx.allocate(f(i))).collect()\<close>.\<close>

fun allocate_roots :: "ty \<Rightarrow> usize \<Rightarrow> (nat \<Rightarrow> val) \<Rightarrow> addr list \<Rightarrow> nat \<Rightarrow> heap \<Rightarrow> (addr list \<times> heap) prog" where
  "allocate_roots t sz f [] i h = ret ([], h)"
| "allocate_roots t sz f (a # as) i h =
     bind_prog (allocate h a t sz (f i)) (\<lambda>(r, h1).
     bind_prog (allocate_roots t sz f as (Suc i) h1) (\<lambda>(rs, h2). ret (r # rs, h2)))"

definition root_preservation_after_collection ::
    "profile \<Rightarrow> usize \<Rightarrow> usize \<Rightarrow> addr \<Rightarrow> addr list \<Rightarrow> heap \<Rightarrow> (bool list \<times> heap) prog" where
  "root_preservation_after_collection p sz_i32 sz_usize a as h =
     bind_prog (allocate h a (TPrim P_i32) sz_i32 (VPrim 1234)) (\<lambda>(keep, h1).
     bind_prog (allocate_temps (TPrim P_usize) sz_usize (VPrim 0) as h1) (\<lambda>h2.
     bind_prog (force_collect p h2) (\<lambda>(_, h3).
     bind_prog (gc_root_deref (mem h3) keep) (\<lambda>v.
     bind_prog (drop_root keep h3) (\<lambda>h4. ret ([v = VPrim 1234], h4))))))"

definition sweep_frees_memory ::
    "profile \<Rightarrow> usize \<Rightarrow> usize \<Rightarrow> addr list \<Rightarrow> addr list \<Rightarrow> heap \<Rightarrow> (bool list \<times> heap) prog" where
  "sweep_frees_memory p sz_i32 sz_vec rs as h =
     bind_prog (allocate_roots (TPrim P_i32) sz_i32 (\<lambda>i. VPrim (int i)) rs 0 h) (\<lambda>(roots, h1).
     bind_prog (allocate_temps (TIter K_Vec (TPrim P_u8)) sz_vec (VSeq (replicate 256 (VPrim 0))) as h1) (\<lambda>h2.
     bind_prog (for_each drop_root roots h2) (\<lambda>h3.
     bind_prog (force_collect p h3) (\<lambda>(_, h4).
     ret ([bytes_allocated h4 < bytes_allocated h2 div 2], h4)))))"

text \<open>
  The chain: the pointer to the last node is taken and its handle dropped before the next node is allocated. The walk roots the
  next node before it lets the current one go.
\<close>

fun build_chain :: "usize \<Rightarrow> addr list \<Rightarrow> nat \<Rightarrow> gc_root \<Rightarrow> heap \<Rightarrow> (gc_root \<times> heap) prog" where
  "build_chain sz [] i prev h = ret (prev, h)"
| "build_chain sz (a # as) i prev h =
     bind_prog (drop_root prev h) (\<lambda>h1.
     bind_prog (allocate h1 a Node sz (node_val (int i) (Some (gc_root_as_ptr prev)))) (\<lambda>(n, h2).
     build_chain sz as (Suc i) n h2))"

partial_function (option) walk_chain :: "gc_root \<Rightarrow> nat \<Rightarrow> heap \<Rightarrow> (nat \<times> gc_root \<times> heap) prog" where
  "walk_chain cur k h =
     bind_prog (gc_root_deref (mem h) cur) (\<lambda>d.
       case node_next d of
         Some next_ptr \<Rightarrow>
           bind_prog (gc_ptr_root (mem h) next_ptr) (\<lambda>(r, m).
           bind_prog (drop_root cur (h\<lparr>mem := m\<rparr>)) (\<lambda>h1. walk_chain r (Suc k) h1))
       | None \<Rightarrow> ret (Suc k, cur, h))"

definition tracing_chain_keeps_all_nodes :: "profile \<Rightarrow> usize \<Rightarrow> addr \<Rightarrow> addr list \<Rightarrow> heap \<Rightarrow> (bool list \<times> heap) prog" where
  "tracing_chain_keeps_all_nodes p sz a as h =
     bind_prog (allocate h a Node sz (node_val 0 None)) (\<lambda>(hd_root, h1).
     bind_prog (gc_root_clone (mem h1) hd_root) (\<lambda>(prev, m).
     bind_prog (build_chain sz as 1 prev (h1\<lparr>mem := m\<rparr>)) (\<lambda>(prev', h2).
     bind_prog (force_collect p h2) (\<lambda>(_, h3).
     bind_prog (walk_chain prev' 0 h3) (\<lambda>(k, cur, h4).
     bind_prog (for_each drop_root [cur, hd_root] h4) (\<lambda>h5. ret ([k = 100], h5)))))))"

definition ByteArr :: "nat \<Rightarrow> ty" where
  "ByteArr n = TArray (TPrim P_u8) n"

text \<open>Each cycle has its own answers of the allocator.\<close>

fun check_vecs :: "nat \<Rightarrow> addr list \<Rightarrow> mem \<Rightarrow> bool list prog" where
  "check_vecs i [] m = ret []"
| "check_vecs i (r # rs) m =
     bind_prog (gc_root_deref m r) (\<lambda>v.
     bind_prog (check_vecs (Suc i) rs m) (\<lambda>bs.
     ret ((case v of VSeq (w # _) \<Rightarrow> w = VPrim (int i) | _ \<Rightarrow> False) # bs)))"

fun graph_cycles :: "profile \<Rightarrow> usize \<Rightarrow> addr list \<Rightarrow> addr list list \<Rightarrow> heap \<Rightarrow> (bool list \<times> heap) prog" where
  "graph_cycles p sz roots [] h = ret ([], h)"
| "graph_cycles p sz roots (as # ass) h =
     bind_prog (allocate_temps (ByteArr 64) sz (VSeq (replicate 64 (VPrim 0))) as h) (\<lambda>h1.
     bind_prog (force_collect p h1) (\<lambda>(_, h2).
     bind_prog (check_vecs 0 roots (mem h2)) (\<lambda>bs.
     bind_prog (graph_cycles p sz roots ass h2) (\<lambda>(cs, h3). ret (bs @ cs, h3)))))"

definition large_object_graph_survives_multiple_cycles ::
    "profile \<Rightarrow> usize \<Rightarrow> usize \<Rightarrow> addr list \<Rightarrow> addr list list \<Rightarrow> heap \<Rightarrow> (bool list \<times> heap) prog" where
  "large_object_graph_survives_multiple_cycles p sz_vec sz_arr rs ass h =
     bind_prog (allocate_roots (TIter K_Vec (TPrim P_usize)) sz_vec (\<lambda>i. VSeq (replicate 32 (VPrim (int i)))) rs 0 h) (\<lambda>(roots, h1).
     bind_prog (graph_cycles p sz_arr roots ass h1) (\<lambda>(cs, h2).
     bind_prog (for_each drop_root roots h2) (\<lambda>h3. ret (cs, h3))))"

text \<open>
  The test of the write barrier. Main keeps pointers to objects without roots, a rooted cell that holds the first one, and allocates
  temporaries. Then it clones the handle of the cell for each of four threads and spawns it; a thread stores all
  pointers in the cell, one after the other, and drops its handle. Thread \<open>t\<close> has made \<open>pos t\<close> of these steps.
\<close>

fun allocate_unrooted :: "usize \<Rightarrow> addr list \<Rightarrow> nat \<Rightarrow> heap \<Rightarrow> (gc_ptr list \<times> heap) prog" where
  "allocate_unrooted sz [] i h = ret ([], h)"
| "allocate_unrooted sz (a # as) i h =
     bind_prog (allocate h a (TPrim P_i32) sz (VPrim (int i))) (\<lambda>(r, h1).
     bind_prog (drop_root r h1) (\<lambda>h2.
     bind_prog (allocate_unrooted sz as (Suc i) h2) (\<lambda>(ps, h3). ret (gc_root_as_ptr r # ps, h3))))"

definition barrier_setup ::
    "usize \<Rightarrow> usize \<Rightarrow> usize \<Rightarrow> addr list \<Rightarrow> addr \<Rightarrow> addr list \<Rightarrow> heap \<Rightarrow> (gc_ptr list \<times> gc_root \<times> heap) prog" where
  "barrier_setup sz_i32 sz_cell sz_arr vs c as h =
     bind_prog (allocate_unrooted sz_i32 vs 0 h) (\<lambda>(values, h1).
     bind_prog (allocate h1 c (TGcCell (TGcPtr True)) sz_cell (cell_new (VPtr True (hd values)))) (\<lambda>(cell_root, h2).
     bind_prog (allocate_temps (ByteArr 16) sz_arr (VSeq (replicate 16 (VPrim 0))) as h2) (\<lambda>h3.
     ret (values, cell_root, h3))))"

definition setter_step :: "gc_ptr list \<Rightarrow> gc_root \<Rightarrow> nat \<Rightarrow> (nat \<Rightarrow> nat) \<times> heap \<Rightarrow> ((nat \<Rightarrow> nat) \<times> heap) prog" where
  "setter_step values cell_root t st =
     (let pos = fst st; h = snd st; k = pos t; st' = (\<lambda>h'. (pos(t := Suc k), h'))
      in if k = 0 then bind_prog (gc_root_clone (mem h) cell_root) (\<lambda>(_, m). ret (st' (h\<lparr>mem := m\<rparr>)))
         else if k \<le> length values then
           bind_prog (cell_set h (Some []) cell_root [] (VPtr True (values ! (k - 1)))) (\<lambda>(h', _). ret (st' h'))
         else if k = Suc (length values) then bind_prog (drop_root cell_root h) (\<lambda>h'. ret (st' h'))
         else ret st)"

definition barrier_check :: "profile \<Rightarrow> gc_root \<Rightarrow> heap \<Rightarrow> (bool list \<times> heap) prog" where
  "barrier_check p cell_root h =
     bind_prog (force_collect p h) (\<lambda>(_, h1).
     bind_prog (cell_get (mem h1) cell_root []) (\<lambda>v.
       case v of
         Some (VPtr _ ptr) \<Rightarrow>
           bind_prog (gc_ptr_root (mem h1) ptr) (\<lambda>(last, m).
           bind_prog (gc_root_deref m last) (\<lambda>d.
           bind_prog (for_each drop_root [last, cell_root] (h1\<lparr>mem := m\<rparr>)) (\<lambda>h2. ret ([d = VPrim 999], h2))))
       | _ \<Rightarrow> ret ([False], h1)))"

text \<open>Main joins all threads, so the schedule \<open>ts\<close> of a run takes each of them to its end.\<close>

definition write_barrier_concurrent_mutation ::
    "profile \<Rightarrow> usize \<Rightarrow> usize \<Rightarrow> usize \<Rightarrow> addr list \<Rightarrow> addr \<Rightarrow> addr list \<Rightarrow> nat list \<Rightarrow> heap \<Rightarrow> (bool list \<times> heap) prog" where
  "write_barrier_concurrent_mutation p sz_i32 sz_cell sz_arr vs c as ts h =
     bind_prog (barrier_setup sz_i32 sz_cell sz_arr vs c as h) (\<lambda>(values, cell_root, h1).
     bind_prog (for_each (setter_step values cell_root) ts (\<lambda>_. 0, h1)) (\<lambda>(_, h2).
     barrier_check p cell_root h2))"

section \<open>Calm heaps\<close>

text \<open>An idle heap with the default options, below the threshold, whose objects are \<open>s\<close>.\<close>

definition calm :: "store \<Rightarrow> heap \<Rightarrow> bool" where
  "calm s h \<longleftrightarrow>
     gc_inv h \<and> quiescent h \<and> options h = options_DEFAULT \<and>
     1048576 \<le> unat (current_threshold h) \<and> unat (current_threshold h) \<le> 2097152 \<and>
     unat (bytes_allocated h) \<le> 1048576 \<and> store_of (mem h) = s"

text \<open>Neither \<open>collect\<close> nor the background thread collects a calm heap.\<close>

lemma calm_idle: "calm s h \<Longrightarrow> \<not> should_collect h"
  by (simp add: calm_def should_collect_def is_limit_off_def options_DEFAULT_def word_less_nat_alt)

lemma calm_bytes: "calm s h \<Longrightarrow> unat (bytes_allocated h) = store_bytes s"
  using gc_inv_bytes(1) by (auto simp: calm_def)

text \<open>A well-formed pointer, on the store.\<close>

definition ptr_in :: "store \<Rightarrow> bool \<times> addr \<Rightarrow> bool" where
  "ptr_in s q \<longleftrightarrow> (\<exists>ob. s (snd q) = Some ob \<and> (fst q \<longrightarrow> vt_trace (obj_vtable ob) = trace_noop))"

lemma calm_ptr_ok: "calm s h \<Longrightarrow> ptr_in s q \<Longrightarrow> ptr_ok (mem h) q"
  by (auto simp: calm_def ptr_in_def ptr_ok_def leaf_at_def store_of_def object_of_def)

lemma calm_default: "calm Map.empty (default_heap bg)"
proof -
  have "gc_inv (default_heap bg)"
    using gc_inv_init [of options_DEFAULT]
    by (simp add: options_DEFAULT_def gc_inv_def default_heap_def quiescent_def marking_state_def)
  moreover have "quiescent (default_heap bg)" by (simp add: quiescent_def nonwhite_def)
  ultimately show ?thesis by (simp add: calm_def store_of_def fun_eq_iff)
qed

lemma calm_allocate:
  assumes c: "calm s h" and a: "a \<notin> dom s" and t: "has_type t v" "trace_contract t"
    and q: "\<And>q. q \<in> set (gc_ptrs v) \<Longrightarrow> ptr_in s q"
    and sz: "store_bytes s + unat sz \<le> 1048576"
  shows "\<exists>h'. allocate h a t sz v = ret (a, h') \<and> calm (s(a \<mapsto> new_object t sz v)) h'"
proof -
  have gi: "gc_inv h" and nm: "\<not> is_marking h" using c is_marking_quiescent by (auto simp: calm_def)
  have d: "dom (mem h) = dom s" using c dom_store_of [of "mem h"] by (simp add: calm_def)
  have al: "allocatable h a t sz v" using a t q sz calm_bytes [OF c] d calm_ptr_ok [OF c] by (auto simp: allocatable_def)
  then have ok: "allowed Release (Allocate a t sz v) h" using nm by (simp add: covered_def)
  let ?h = "with_fresh h a t sz v"
  have e: "allocate h a t sz v = ret (a, ?h)" by (rule allocate_idle [OF nm])
  then have r: "run_op Release (Allocate a t sz v) h = ret ?h" by simp
  have "gc_inv ?h" using run_op_safe [OF gi ok] unfolding r by (simp add: safe_from_def)
  moreover have "quiescent ?h"
    using c nonwhite_fresh [of a "mem h"] al by (simp add: calm_def quiescent_def allocatable_def)
  moreover have "unat (bytes_allocated ?h) \<le> 1048576"
    using sz calm_bytes [OF c] by (simp add: unat_add_usize)
  moreover have "store_of (mem ?h) = s(a \<mapsto> new_object t sz v)" using mutate_fresh [of h a t sz v] c by (simp add: calm_def)
  ultimately have "calm (s(a \<mapsto> new_object t sz v)) ?h" using c by (simp add: calm_def)
  then show ?thesis using e by blast
qed

lemma calm_set_roots:
  assumes c: "calm s h" and b: "mem h a = Some b" and s': "s' = s(a \<mapsto> object_of (set_roots k b))"
  shows "calm s' (h\<lparr>mem := (mem h)(a \<mapsto> set_roots k b)\<rparr>)"
proof -
  have gi: "gc_inv h" and nm: "\<not> is_marking h" using c is_marking_quiescent by (auto simp: calm_def)
  have "gc_inv (h\<lparr>mem := (mem h)(a \<mapsto> set_roots k b)\<rparr>)"
    using set_roots_safe [OF gi b, of k] nm by (simp add: covered_def safe_from_def)
  then show ?thesis
    using c s' set_roots_views(2) [of "mem h" a b, OF b] by (simp add: calm_def quiescent_def)
qed

lemma calm_object: "calm s h \<Longrightarrow> s a = Some ob \<Longrightarrow> \<exists>b. mem h a = Some b \<and> ob = object_of b"
  by (auto simp: calm_def store_of_def)

lemma calm_handles:
  assumes c: "calm s h" and ob: "s a = Some ob"
  shows "\<exists>h'. drop_root a h = ret h' \<and> calm (s(a \<mapsto> ob\<lparr>obj_roots := obj_roots ob - 1\<rparr>)) h'"
    and "\<exists>m. gc_ptr_root (mem h) a = ret (a, m) \<and> calm (s(a \<mapsto> ob\<lparr>obj_roots := obj_roots ob + 1\<rparr>)) (h\<lparr>mem := m\<rparr>)"
    and "\<exists>m. gc_root_clone (mem h) a = ret (a, m) \<and> calm (s(a \<mapsto> ob\<lparr>obj_roots := obj_roots ob + 1\<rparr>)) (h\<lparr>mem := m\<rparr>)"
    and "gc_root_deref (mem h) a = ret (obj_data ob)"
proof -
  obtain b where b: "mem h a = Some b" "ob = object_of b" using calm_object [OF assms] by blast
  note ops = handle_ops_eq [of "mem h" a b, OF b(1)]
  show "\<exists>h'. drop_root a h = ret h' \<and> calm (s(a \<mapsto> ob\<lparr>obj_roots := obj_roots ob - 1\<rparr>)) h'"
    using calm_set_roots [OF c b(1) refl, of "root_count (header b) - 1"] ops(3) b(2) by (simp add: drop_root_def object_of_def)
  show "\<exists>m. gc_ptr_root (mem h) a = ret (a, m) \<and> calm (s(a \<mapsto> ob\<lparr>obj_roots := obj_roots ob + 1\<rparr>)) (h\<lparr>mem := m\<rparr>)"
      "\<exists>m. gc_root_clone (mem h) a = ret (a, m) \<and> calm (s(a \<mapsto> ob\<lparr>obj_roots := obj_roots ob + 1\<rparr>)) (h\<lparr>mem := m\<rparr>)"
    using calm_set_roots [OF c b(1) refl, of "root_count (header b) + 1"] ops(1,2) b(2) by (simp_all add: object_of_def)
  show "gc_root_deref (mem h) a = ret (obj_data ob)" using ops(4) b(2) by (simp add: object_of_def)
qed

text \<open>What a collection does to the threshold.\<close>

lemma sweep_and_finish_threshold:
  assumes inv: "heap_inv xs h" and run: "sweep_and_finish p h = ret (n, h')"
  shows "calculate_threshold p (options h) (current_threshold h) n = ret (current_threshold h')"
proof -
  obtain h1 where h1: "do_sweep p h = ret (n, h1)" "update_threshold p h1 n = ret h2 \<Longrightarrow> h' = finish_gc h2" for h2
    using run by (auto simp: sweep_and_finish_def bind_eq_ret_iff)
  have "sweep_done xs h h1" using do_sweep_run [OF inv, of p] h1(1) by simp
  then have fr: "options h1 = options h" "current_threshold h1 = current_threshold h" by (rule sweep_done_frame)+
  show ?thesis
    using run h1(1) fr by (auto simp: sweep_and_finish_def update_threshold_def bind_eq_ret_iff finish_gc_def)
qed

lemma force_collect_threshold:
  assumes inv: "heap_inv xs h" and rd: "ready h" and run: "force_collect p h = ret (n, h')"
  shows "calculate_threshold p (options h) (current_threshold h) n = ret (current_threshold h')"
proof -
  have "returns (try_mark_full h) (\<lambda>r. fst r \<and> fully_marked h (snd r))"
    using rd inv quiescent_tricolor by (intro try_mark_full_run) (auto simp: ready_def quiescent_def)
  then obtain h1 where h1: "try_mark_full h = ret (True, h1)" "fully_marked h h1" by (auto simp: returns_iff)
  note fr = fully_marked_frame [OF h1(2)]
  have "heap_inv xs h1" using heap_inv_recolored [OF inv, of "mem h1" h1] h1(2) fr by (simp add: fully_marked_def)
  moreover have "sweep_and_finish p h1 = ret (n, h')" using run h1(1) by (simp add: force_collect_def)
  ultimately show ?thesis using sweep_and_finish_threshold [of xs h1] fr by simp
qed

lemma default_pacing:
  assumes "old \<le> 2097152" and "live \<le> 1048576"
  shows "pacing_fits options_DEFAULT old live"
    and "1048576 \<le> old \<Longrightarrow> 1048576 \<le> threshold_nat options_DEFAULT old live"
    and "threshold_nat options_DEFAULT old live \<le> 2097152"
proof -
  have g: "goal_nat options_DEFAULT live \<le> 2 * live" by (simp add: goal_nat_def options_DEFAULT_def)
  then have "goal_nat options_DEFAULT live < 2 ^ 64" using assms(2) by simp
  then show "pacing_fits options_DEFAULT old live" unfolding pacing_fits_def
    using assms by (intro disjI2 conjI impI) (simp_all add: options_DEFAULT_def)
  show "1048576 \<le> threshold_nat options_DEFAULT old live" if "1048576 \<le> old"
    using that threshold_nat_ge_min [of options_DEFAULT old live] by (simp add: options_DEFAULT_def)
  have "\<not> is_threshold_off options_DEFAULT" "unat (min_threshold_bytes options_DEFAULT) = 1048576"
    by (simp_all add: options_DEFAULT_def is_threshold_off_def from_millis_def as_millis_def)
  then show "threshold_nat options_DEFAULT old live \<le> 2097152" using assms g by (simp add: threshold_nat_def)
qed

lemma calm_collect:
  assumes c: "calm s h"
  shows "\<exists>h'. force_collect p h = ret (bytes_allocated h', h') \<and> calm (s |` store_reach s) h'"
proof -
  obtain xs where xs: "heap_inv xs h" using c gc_inv_heap by (auto simp: calm_def)
  have rd: "ready h" using c unfolding calm_def ready_def gc_inv_def by blast
  have thr: "unat (current_threshold h) \<le> 2097152" "1048576 \<le> unat (current_threshold h)" "options h = options_DEFAULT"
    using c by (simp_all add: calm_def)
  have safe: "pacing_safe p h" unfolding pacing_safe_def thr(3) using default_pacing(1) [OF thr(1)] c by (auto simp: calm_def)
  obtain h' where h': "force_collect p h = ret (bytes_allocated h', h')" "collected xs (reach (mem h)) h h'"
    using force_collect_run [OF xs rd safe] by (auto simp: returns_iff)
  have gi: "gc_inv h'" using h'(2) c by (auto simp: collected_def gc_inv_def calm_def)
  have st: "store_of (mem h') = s |` store_reach s"
    using collected_store [OF h'(2)] c by (auto simp: calm_def store_reach_of)
  have le: "unat (bytes_allocated h') \<le> unat (bytes_allocated h)"
  proof -
    have "unat (bytes_allocated h') = store_bytes (store_of (mem h'))" by (rule gc_inv_bytes(1) [OF gi])
    also have "\<dots> \<le> store_bytes s" unfolding st store_bytes_def
    proof (rule order_trans [OF _ sum_mono2])
      show "finite (dom s)" using gc_inv_bytes(2) c dom_store_of by (metis calm_def)
    qed (auto intro!: sum_mono simp: restrict_map_def dom_def)
    finally show ?thesis using calm_bytes [OF c] by simp
  qed
  have "calculate_threshold p options_DEFAULT (current_threshold h) (bytes_allocated h') = ret (current_threshold h')"
    using force_collect_threshold [OF xs rd h'(1)] thr(3) by simp
  moreover have live: "unat (bytes_allocated h') \<le> 1048576" using le c by (simp add: calm_def)
  ultimately have "unat (current_threshold h') = threshold_nat options_DEFAULT (unat (current_threshold h)) (unat (bytes_allocated h'))"
    using calculate_threshold_fits [OF default_pacing(1) [OF thr(1) live], of p] by simp
  then have "calm (s |` store_reach s) h'"
    using gi st live default_pacing(2,3) [OF thr(1) live] thr(2,3) h'(2) by (simp add: calm_def collected_def)
  then show ?thesis using h'(1) by blast
qed

section \<open>Allocating and collecting temporaries\<close>

lemma calm_dom: "calm s h \<Longrightarrow> finite (dom s)" and calm_closed: "calm s h \<Longrightarrow> store_succs s a \<subseteq> dom s"
proof -
  show "calm s h \<Longrightarrow> finite (dom s)" using gc_inv_bytes(2) dom_store_of by (metis calm_def)
  show "calm s h \<Longrightarrow> store_succs s a \<subseteq> dom s"
    using gc_inv_mem_ok succs_dom [of "mem h"] store_succs_of [of "mem h"] dom_store_of [of "mem h"] by (auto simp: calm_def)
qed

lemma store_bytes_fresh:
  "finite (dom s) \<Longrightarrow> a \<notin> dom s \<Longrightarrow> store_bytes (s(a \<mapsto> ob)) = store_bytes s + unat (vt_size (obj_vtable ob))"
  by (auto simp: store_bytes_def intro!: sum.cong)

definition dead_object :: "ty \<Rightarrow> usize \<Rightarrow> val \<Rightarrow> object" where
  "dead_object t sz v = (new_object t sz v)\<lparr>obj_roots := 0\<rparr>"

definition with_temps :: "addr list \<Rightarrow> object \<Rightarrow> store \<Rightarrow> store" where
  "with_temps as ob s = (\<lambda>x. if x \<in> set as then Some ob else s x)"

lemma with_temps_simps [simp]:
  "with_temps [] ob s = s" "with_temps as ob (s(a \<mapsto> ob)) = with_temps (a # as) ob s" "dom (with_temps as ob s) = set as \<union> dom s"
  by (auto simp: with_temps_def)

lemma temps_run:
  assumes "calm s h" and "distinct as" and "set as \<inter> dom s = {}" and "store_bytes s + length as * unat sz \<le> 1048576"
    and ty: "has_type t v" "trace_contract t" "gc_ptrs v = []"
  shows "\<exists>h'. allocate_temps t sz v as h = ret h' \<and> calm (with_temps as (dead_object t sz v) s) h' \<and>
    unat (bytes_allocated h') = store_bytes s + length as * unat sz"
  using assms(1-4)
proof (induction as arbitrary: s h)
  case (Cons a as)
  have a: "a \<notin> dom s" and sz: "store_bytes s + unat sz \<le> 1048576" using Cons.prems by auto
  obtain h1 where h1: "allocate h a t sz v = ret (a, h1)" "calm (s(a \<mapsto> new_object t sz v)) h1"
    using calm_allocate [OF Cons.prems(1) a ty(1,2) _ sz] ty(3) by auto
  obtain h2 where h2: "drop_root a h1 = ret h2" "calm (s(a \<mapsto> dead_object t sz v)) h2"
    using calm_handles(1) [OF h1(2), of a "new_object t sz v"] by (auto simp: dead_object_def new_object_def)
  have "store_bytes (s(a \<mapsto> dead_object t sz v)) = store_bytes s + unat sz"
    using store_bytes_fresh [OF calm_dom [OF Cons.prems(1)] a] by (simp add: dead_object_def new_object_def)
  note b = this
  have "\<exists>h'. allocate_temps t sz v as h2 = ret h' \<and>
      calm (with_temps as (dead_object t sz v) (s(a \<mapsto> dead_object t sz v))) h' \<and>
      unat (bytes_allocated h') = store_bytes (s(a \<mapsto> dead_object t sz v)) + length as * unat sz"
    using Cons.prems(2-4) b by (intro Cons.IH [OF h2(2)]) (auto simp del: fun_upd_apply)
  then obtain h' where "allocate_temps t sz v as h2 = ret h'" "calm (with_temps (a # as) (dead_object t sz v) s) h'"
      "unat (bytes_allocated h') = store_bytes s + length (a # as) * unat sz"
    using b by (auto simp del: fun_upd_apply)
  then show ?case using h1(1) h2(1) by (simp add: allocate_temps_def)
qed (simp add: allocate_temps_def calm_bytes)

lemma reach_with_temps:
  assumes "obj_roots ob = 0" and disj: "set as \<inter> dom s = {}" and cl: "\<And>a. store_succs s a \<subseteq> dom s"
  shows "store_reach (with_temps as ob s) = store_reach s" and "store_reach s \<subseteq> dom s"
proof -
  show d: "store_reach s \<subseteq> dom s"
  proof
    fix a assume "a \<in> store_reach s"
    then show "a \<in> dom s" by induction (use cl in \<open>auto simp: store_roots_def\<close>)
  qed
  have s: "with_temps as ob s a = s a" if "a \<in> dom s" for a using that disj by (auto simp: with_temps_def)
  have fwd: "a \<in> store_reach s" if "a \<in> store_reach (with_temps as ob s)" for a
    using that
  proof induction
    case (root a)
    then have "a \<in> store_roots s" using assms(1) by (auto simp: store_roots_def with_temps_def split: if_splits)
    then show ?case by (rule store_reach.root)
  next
    case (step a c)
    then have "store_succs (with_temps as ob s) a = store_succs s a" using d s by (simp add: store_succs_def subset_iff)
    then show ?case using step store_reach.step by blast
  qed
  have bwd: "a \<in> store_reach (with_temps as ob s)" if "a \<in> store_reach s" for a
    using that
  proof induction
    case (root a)
    then have "a \<in> store_roots (with_temps as ob s)" using s [of a] by (auto simp: store_roots_def domI)
    then show ?case by (rule store_reach.root)
  next
    case (step a c)
    then have "store_succs (with_temps as ob s) a = store_succs s a" using d s by (simp add: store_succs_def subset_iff)
    then show ?case using step store_reach.step by blast
  qed
  show "store_reach (with_temps as ob s) = store_reach s" using fwd bwd by blast
qed

text \<open>A forced collection takes the temporaries away and nothing else, if everything else is reachable.\<close>

lemma collect_temps:
  assumes c: "calm s h" and all: "store_reach s = dom s" and as: "distinct as" "set as \<inter> dom s = {}"
    and sz: "store_bytes s + length as * unat sz \<le> 1048576" and ty: "has_type t v" "trace_contract t" "gc_ptrs v = []"
  shows "\<exists>h1 h2. allocate_temps t sz v as h = ret h1 \<and> force_collect p h1 = ret (bytes_allocated h2, h2) \<and> calm s h2"
proof -
  let ?s = "with_temps as (dead_object t sz v) s"
  obtain h1 where h1: "allocate_temps t sz v as h = ret h1" "calm ?s h1" using temps_run [OF c as sz ty] by blast
  obtain h2 where h2: "force_collect p h1 = ret (bytes_allocated h2, h2)" "calm (?s |` store_reach ?s) h2"
    using calm_collect [OF h1(2)] by blast
  have "store_reach ?s = dom s" using reach_with_temps(1) [OF _ as(2) calm_closed [OF c]] all by (simp add: dead_object_def)
  moreover have "?s |` dom s = s" using as(2) by (auto simp: with_temps_def restrict_map_def fun_eq_iff)
  ultimately show ?thesis using h1(1) h2 by auto
qed

section \<open>Roots\<close>

fun add_roots :: "ty \<Rightarrow> usize \<Rightarrow> (nat \<Rightarrow> val) \<Rightarrow> addr list \<Rightarrow> nat \<Rightarrow> store \<Rightarrow> store" where
  "add_roots t sz f [] i s = s"
| "add_roots t sz f (a # as) i s = add_roots t sz f as (Suc i) (s(a \<mapsto> new_object t sz (f i)))"

lemma add_roots_other: "x \<notin> set as \<Longrightarrow> add_roots t sz f as i s x = s x"
  by (induction as arbitrary: i s) auto

lemma add_roots_nth:
  "distinct as \<Longrightarrow> j < length as \<Longrightarrow> add_roots t sz f as i s (as ! j) = Some (new_object t sz (f (i + j)))"
proof (induction as arbitrary: i j s)
  case (Cons a as)
  then show ?case by (cases j) (simp_all add: add_roots_other)
qed simp

lemma add_roots_object:
  assumes "distinct as" and "add_roots t sz f as i s x = Some ob"
  shows "s x = Some ob \<or> (\<exists>j. x \<in> set as \<and> ob = new_object t sz (f j))"
proof (cases "x \<in> set as")
  case True
  then obtain j where "j < length as" "x = as ! j" by (metis in_set_conv_nth)
  then show ?thesis using True assms add_roots_nth [OF assms(1), of j] by auto
qed (use assms add_roots_other in metis)

lemma add_roots_dom: "distinct as \<Longrightarrow> dom (add_roots t sz f as i s) = dom s \<union> set as"
  by (induction as arbitrary: i s) auto

lemma roots_run:
  assumes "calm s h" and "distinct as" and "set as \<inter> dom s = {}" and "store_bytes s + length as * unat sz \<le> 1048576"
    and ty: "\<And>i. has_type t (f i)" "trace_contract t" "\<And>i. gc_ptrs (f i) = []"
  shows "\<exists>h'. allocate_roots t sz f as i h = ret (as, h') \<and> calm (add_roots t sz f as i s) h' \<and>
    store_bytes (add_roots t sz f as i s) = store_bytes s + length as * unat sz"
  using assms(1-4)
proof (induction as arbitrary: s h i)
  case (Cons a as)
  have a: "a \<notin> dom s" and sz: "store_bytes s + unat sz \<le> 1048576" using Cons.prems by auto
  let ?s = "s(a \<mapsto> new_object t sz (f i))"
  obtain h1 where h1: "allocate h a t sz (f i) = ret (a, h1)" "calm ?s h1"
    using calm_allocate [OF Cons.prems(1) a ty(1,2) _ sz] ty(3) by auto
  have b: "store_bytes ?s = store_bytes s + unat sz"
    using store_bytes_fresh [OF calm_dom [OF Cons.prems(1)] a] by (simp add: new_object_def)
  have "\<exists>h'. allocate_roots t sz f as (Suc i) h1 = ret (as, h') \<and> calm (add_roots t sz f as (Suc i) ?s) h' \<and>
      store_bytes (add_roots t sz f as (Suc i) ?s) = store_bytes ?s + length as * unat sz"
    using Cons.prems(2-4) b by (intro Cons.IH [OF h1(2)]) (auto simp del: fun_upd_apply)
  then obtain h' where IH: "allocate_roots t sz f as (Suc i) h1 = ret (as, h')" "calm (add_roots t sz f as (Suc i) ?s) h'"
      "store_bytes (add_roots t sz f as (Suc i) ?s) = store_bytes ?s + length as * unat sz" by blast
  then show ?case using h1(1) b by (intro exI [of _ h']) (simp del: fun_upd_apply)
qed simp

lemma calm_reach_dom: "calm s h \<Longrightarrow> store_reach s \<subseteq> dom s"
  using reach_with_temps(2) [of "new_object t sz v\<lparr>obj_roots := 0\<rparr>" "[]" s for t sz v] calm_closed by simp

lemma rooted_reach: "calm s h \<Longrightarrow> dom s \<subseteq> store_roots s \<Longrightarrow> store_reach s = dom s"
  using calm_reach_dom store_reach.root by blast

lemma add_roots_rooted: "distinct as \<Longrightarrow> dom (add_roots t sz f as i Map.empty) \<subseteq> store_roots (add_roots t sz f as i Map.empty)"
proof
  fix x assume d: "distinct as" "x \<in> dom (add_roots t sz f as i Map.empty)"
  then obtain ob where ob: "add_roots t sz f as i Map.empty x = Some ob" by blast
  then have "obj_roots ob = 1" using add_roots_object [OF d(1) ob] by (auto simp: new_object_def)
  then show "x \<in> store_roots (add_roots t sz f as i Map.empty)" using ob by (simp add: store_roots_def)
qed

lemma drops_run:
  assumes "calm s h" and "set as \<subseteq> dom s"
  shows "\<exists>h' s'. for_each drop_root as h = ret h' \<and> calm s' h' \<and> dom s' = dom s \<and> bytes_allocated h' = bytes_allocated h \<and>
    (distinct as \<and> (\<forall>a\<in>dom s. obj_roots (the (s a)) = of_bool (a \<in> set as)) \<longrightarrow> store_roots s' = {})"
  using assms
proof (induction as arbitrary: s h)
  case Nil
  have "store_roots s = {}" if z: "\<forall>a\<in>dom s. obj_roots (the (s a)) = 0"
  proof (rule equals0I)
    fix x assume "x \<in> store_roots s"
    then obtain ob where ob: "s x = Some ob" "obj_roots ob > 0" by (auto simp: store_roots_def)
    then have "x \<in> dom s" by blast
    from bspec [OF z this] ob show False by simp
  qed
  then show ?case using Nil by (intro exI [of _ h] exI [of _ s]) simp
next
  case (Cons a as)
  obtain ob where ob: "s a = Some ob" using Cons.prems(2) by auto
  let ?s = "s(a \<mapsto> ob\<lparr>obj_roots := obj_roots ob - 1\<rparr>)"
  obtain h1 where h1: "drop_root a h = ret h1" "calm ?s h1" using calm_handles(1) [OF Cons.prems(1) ob] by blast
  have d: "dom ?s = dom s" using ob by auto
  have b1: "bytes_allocated h1 = bytes_allocated h"
    using h1(1) by (auto simp: drop_root_def bind_eq_ret_iff)
  have sub: "set as \<subseteq> dom ?s" using Cons.prems(2) d by auto
  obtain h' s' where IH: "for_each drop_root as h1 = ret h'" "calm s' h'" "dom s' = dom ?s" "bytes_allocated h' = bytes_allocated h1"
      "distinct as \<and> (\<forall>a\<in>dom ?s. obj_roots (the (?s a)) = of_bool (a \<in> set as)) \<longrightarrow> store_roots s' = {}"
    using Cons.IH [OF h1(2) sub] by blast
  have "store_roots s' = {}" if dist: "distinct (a # as)" and counts: "\<forall>x\<in>dom s. obj_roots (the (s x)) = of_bool (x \<in> set (a # as))"
  proof -
    have "obj_roots (the (?s x)) = of_bool (x \<in> set as)" if "x \<in> dom ?s" for x
    proof (cases "x = a")
      case True
      have "a \<in> dom s" using ob by blast
      then show ?thesis using that dist True ob bspec [OF counts, of a] by simp
    next
      case False
      then show ?thesis using that counts d by simp
    qed
    then show ?thesis using IH(5) dist by simp
  qed
  then show ?case using h1(1) IH(1-4) b1 d by (intro exI [of _ h'] exI [of _ s']) simp
qed

section \<open>Results\<close>

lemma root_preservation_passes:
  assumes "distinct (a # as)" and "unat sz_i32 + length as * unat sz_usize \<le> 1048576"
  shows "\<exists>h'. root_preservation_after_collection p sz_i32 sz_usize a as (default_heap bg) = ret ([True], h')"
proof -
  let ?s = "[a \<mapsto> new_object (TPrim P_i32) sz_i32 (VPrim 1234)]"
  have "store_bytes Map.empty = 0" by (simp add: store_bytes_def)
  then obtain h1 where h1: "allocate (default_heap bg) a (TPrim P_i32) sz_i32 (VPrim 1234) = ret (a, h1)" "calm ?s h1"
    using calm_allocate [OF calm_default, of a "TPrim P_i32" "VPrim 1234" sz_i32 bg] assms(2) by auto
  have all: "store_reach ?s = dom ?s" by (rule rooted_reach [OF h1(2)]) (simp add: store_roots_def new_object_def)
  have b: "store_bytes ?s = unat sz_i32" by (simp add: store_bytes_def new_object_def)
  obtain h2 h3 where h2: "allocate_temps (TPrim P_usize) sz_usize (VPrim 0) as h1 = ret h2"
      "force_collect p h2 = ret (bytes_allocated h3, h3)" "calm ?s h3"
    using collect_temps [OF h1(2) all, of as sz_usize "TPrim P_usize" "VPrim 0" p] assms b by auto
  have "gc_root_deref (mem h3) a = ret (VPrim 1234)"
    using calm_handles(4) [OF h2(3), of a] by (simp add: new_object_def)
  moreover obtain h4 where "drop_root a h3 = ret h4" using calm_handles(1) [OF h2(3), of a] by auto
  ultimately show ?thesis using h1(1) h2(1,2) by (simp add: root_preservation_after_collection_def)
qed

lemma sweep_frees_memory_passes:
  assumes "distinct (rs @ as)" and "length rs * unat sz_i32 + length as * unat sz_vec \<le> 1048576"
    and "2 \<le> length rs * unat sz_i32 + length as * unat sz_vec"
  shows "\<exists>h'. sweep_frees_memory p sz_i32 sz_vec rs as (default_heap bg) = ret ([True], h') \<and> mem h' = Map.empty"
proof -
  let ?s = "add_roots (TPrim P_i32) sz_i32 (\<lambda>i. VPrim (int i)) rs 0 Map.empty"
    and ?t = "TIter K_Vec (TPrim P_u8)" and ?v = "VSeq (replicate 256 (VPrim 0))"
  have dist: "distinct rs" "distinct as" "set as \<inter> set rs = {}" using assms(1) by auto
  have 0: "store_bytes Map.empty = 0" by (simp add: store_bytes_def)
  obtain h1 where h1: "allocate_roots (TPrim P_i32) sz_i32 (\<lambda>i. VPrim (int i)) rs 0 (default_heap bg) = ret (rs, h1)"
      "calm ?s h1" "store_bytes ?s = length rs * unat sz_i32"
    using roots_run [OF calm_default dist(1), of sz_i32 "TPrim P_i32" "\<lambda>i. VPrim (int i)" 0 bg] assms(2) 0 by auto
  have ds: "dom ?s = set rs" using add_roots_dom [OF dist(1), of "TPrim P_i32" sz_i32 "\<lambda>i. VPrim (int i)" 0 Map.empty] by simp
  let ?u = "with_temps as (dead_object ?t sz_vec ?v) ?s"
  obtain h2 where h2: "allocate_temps ?t sz_vec ?v as h1 = ret h2" "calm ?u h2"
      "unat (bytes_allocated h2) = length rs * unat sz_i32 + length as * unat sz_vec"
    using temps_run [OF h1(2) dist(2), of sz_vec ?t ?v] dist(3) ds h1(3) assms(2) by (auto simp: list_all_iff)
  have counts: "obj_roots (the (?u x)) = of_bool (x \<in> set rs)" if x: "x \<in> dom ?u" for x
  proof (cases "x \<in> set as")
    case True
    then show ?thesis using dist(3) by (auto simp: with_temps_def dead_object_def)
  next
    case False
    then have "x \<in> set rs" "?u x = ?s x" using x ds by (auto simp: with_temps_def)
    moreover from this obtain j where "j < length rs" "x = rs ! j" by (metis in_set_conv_nth)
    ultimately show ?thesis using add_roots_nth [OF dist(1), of j] by (simp add: new_object_def)
  qed
  have "set rs \<subseteq> dom ?u" using ds by auto
  from drops_run [OF h2(2) this] dist(1) counts obtain h3 s3
    where h3: "for_each drop_root rs h2 = ret h3" "calm s3 h3" "store_roots s3 = {}" by blast
  have "store_reach s3 = {}"
  proof -
    have False if "a \<in> store_reach s3" for a using that by induction (use h3(3) in auto)
    then show ?thesis by blast
  qed
  then obtain h4 where h4: "force_collect p h3 = ret (bytes_allocated h4, h4)" "calm Map.empty h4"
    using calm_collect [OF h3(2), of p] by (auto simp: restrict_map_def)
  have "dom (mem h4) = {}" using h4(2) dom_store_of [of "mem h4"] by (simp add: calm_def del: dom_eq_empty_conv)
  then have "mem h4 = Map.empty" by simp
  moreover have "unat (bytes_allocated h4) = 0" using calm_bytes [OF h4(2)] 0 by simp
  then have "bytes_allocated h4 < bytes_allocated h2 div 2"
    using h2(3) assms(3) by (simp add: word_less_nat_alt unat_div)
  ultimately show ?thesis using h1(1) h2(1) h3(1) h4(1) by (simp add: sweep_frees_memory_def)
qed

lemma check_vecs_passes:
  assumes "calm s h" and "\<And>j. j < length rs \<Longrightarrow> \<exists>ob ws. s (rs ! j) = Some ob \<and> obj_data ob = VSeq (VPrim (int (i + j)) # ws)"
  shows "check_vecs i rs (mem h) = ret (replicate (length rs) True)"
  using assms(2)
proof (induction rs arbitrary: i)
  case (Cons r rs)
  obtain ob ws where ob: "s r = Some ob" "obj_data ob = VSeq (VPrim (int i) # ws)" using Cons.prems [of 0] by auto
  have "check_vecs (Suc i) rs (mem h) = ret (replicate (length rs) True)"
    by (rule Cons.IH) (use Cons.prems [of "Suc _"] in auto)
  then show ?case using ob calm_handles(4) [OF assms(1) ob(1)] by simp
qed simp

lemma graph_cycles_passes:
  assumes "calm s h" and all: "store_reach s = dom s"
    and "\<And>as. as \<in> set ass \<Longrightarrow> distinct as \<and> set as \<inter> dom s = {} \<and> store_bytes s + length as * unat sz \<le> 1048576"
    and rs: "\<And>j. j < length rs \<Longrightarrow> \<exists>ob ws. s (rs ! j) = Some ob \<and> obj_data ob = VSeq (VPrim (int j) # ws)"
  shows "\<exists>h'. graph_cycles p sz rs ass h = ret (replicate (length ass * length rs) True, h') \<and> calm s h'"
  using assms(1,3)
proof (induction ass arbitrary: h)
  case (Cons as ass)
  let ?v = "VSeq (replicate 64 (VPrim 0))"
  obtain h1 h2 where h2: "allocate_temps (ByteArr 64) sz ?v as h = ret h1" "force_collect p h1 = ret (bytes_allocated h2, h2)" "calm s h2"
    using collect_temps [OF Cons.prems(1) all, of as sz "ByteArr 64" ?v p] Cons.prems(2) [of as]
    by (auto simp: ByteArr_def list_all_iff)
  have c: "check_vecs 0 rs (mem h2) = ret (replicate (length rs) True)"
    by (rule check_vecs_passes [OF h2(3)]) (use rs in simp)
  obtain h3 where "graph_cycles p sz rs ass h2 = ret (replicate (length ass * length rs) True, h3)" "calm s h3"
    using Cons.IH [OF h2(3)] Cons.prems(2) by auto
  then show ?case using h2(1,2) c by (simp add: replicate_add)
qed simp

lemma large_object_graph_passes:
  assumes "distinct rs" and "\<And>as. as \<in> set ass \<Longrightarrow> distinct as \<and> set as \<inter> set rs = {} \<and>
      length rs * unat sz_vec + length as * unat sz_arr \<le> 1048576" and "length rs * unat sz_vec \<le> 1048576"
  shows "\<exists>h'. large_object_graph_survives_multiple_cycles p sz_vec sz_arr rs ass (default_heap bg) =
    ret (replicate (length ass * length rs) True, h')"
proof -
  let ?f = "\<lambda>i. VSeq (replicate 32 (VPrim (int i)))" and ?t = "TIter K_Vec (TPrim P_usize)"
  let ?s = "add_roots ?t sz_vec ?f rs 0 Map.empty"
  have 0: "store_bytes Map.empty = 0" by (simp add: store_bytes_def)
  obtain h1 where h1: "allocate_roots ?t sz_vec ?f rs 0 (default_heap bg) = ret (rs, h1)" "calm ?s h1"
      "store_bytes ?s = length rs * unat sz_vec"
    using roots_run [OF calm_default assms(1), of sz_vec ?t ?f 0 bg] assms(3) 0 by (auto simp: list_all_iff)
  have ds: "dom ?s = set rs" using add_roots_dom [OF assms(1), of ?t sz_vec ?f 0 Map.empty] by simp
  have "\<exists>ob ws. ?s (rs ! j) = Some ob \<and> obj_data ob = VSeq (VPrim (int j) # ws)" if "j < length rs" for j
    using add_roots_nth [OF assms(1) that, of ?t sz_vec ?f 0 Map.empty] by (simp add: new_object_def numeral_eq_Suc)
  then obtain h2 where h2: "graph_cycles p sz_arr rs ass h1 = ret (replicate (length ass * length rs) True, h2)" "calm ?s h2"
    using graph_cycles_passes [OF h1(2) rooted_reach [OF h1(2) add_roots_rooted [OF assms(1)]], of ass sz_arr rs p] assms(2) ds h1(3)
    by auto
  obtain h3 where "for_each drop_root rs h2 = ret h3" using drops_run [OF h2(2), of rs] ds by auto
  then show ?thesis using h1(1) h2(1) by (simp add: large_object_graph_survives_multiple_cycles_def)
qed

section \<open>The chain\<close>

primrec nodes_from :: "store \<Rightarrow> addr list \<Rightarrow> addr option \<Rightarrow> bool" where
  "nodes_from s [] q = (q = None)"
| "nodes_from s (a # as) q = (q = Some a \<and> (\<exists>ob. s a = Some ob \<and>
     set_option (node_next (obj_data ob)) \<subseteq> store_succs s a \<and> nodes_from s as (node_next (obj_data ob))))"

lemma nodes_from_upd:
  assumes "nodes_from s as q" and "\<And>a ob. a \<in> set as \<Longrightarrow> s a = Some ob \<Longrightarrow> \<exists>ob'. s' a = Some ob' \<and> obj_data ob' = obj_data ob"
  shows "nodes_from s' as q"
  using assms
proof (induction as arbitrary: q)
  case (Cons a as)
  then obtain ob where ob: "q = Some a" "s a = Some ob" "set_option (node_next (obj_data ob)) \<subseteq> store_succs s a"
      "nodes_from s as (node_next (obj_data ob))" by auto
  obtain ob' where ob': "s' a = Some ob'" "obj_data ob' = obj_data ob" using Cons.prems(2) ob(2) by fastforce
  have "store_succs s' a = store_succs s a" using ob(2) ob' by (simp add: store_succs_def)
  moreover have "nodes_from s' as (node_next (obj_data ob))" using Cons.IH [OF ob(4)] Cons.prems(2) by simp
  ultimately show ?case using ob(1,3) ob' by simp
qed simp

lemma nodes_from_roots: "nodes_from s as q \<Longrightarrow> s a = Some ob \<Longrightarrow> nodes_from (s(a \<mapsto> ob\<lparr>obj_roots := k\<rparr>)) as q"
  by (erule nodes_from_upd) auto

lemma nodes_from_reach: "nodes_from s as q \<Longrightarrow> (\<And>a. q = Some a \<Longrightarrow> a \<in> store_reach s) \<Longrightarrow> set as \<subseteq> store_reach s"
proof (induction as arbitrary: q)
  case (Cons a as)
  from Cons.prems(1) obtain ob :: object where ob: "q = Some a" "set_option (node_next (obj_data ob)) \<subseteq> store_succs s a"
      "nodes_from s as (node_next (obj_data ob))" by auto
  then have a: "a \<in> store_reach s" using Cons.prems(2) by simp
  have "set as \<subseteq> store_reach s"
    by (rule Cons.IH [OF ob(3)]) (use a ob(2) store_reach.step in fastforce)
  then show ?case using a by simp
qed simp

lemma build_chain_run:
  assumes "calm s h" and "nodes_from s xs (Some prev)" and "set xs = dom s" and "distinct as" and "set as \<inter> dom s = {}"
    and "store_bytes s + length as * unat sz \<le> 1048576" and "as = [] \<Longrightarrow> prev \<in> store_roots s"
  shows "\<exists>last h' s'. build_chain sz as i prev h = ret (last, h') \<and> calm s' h' \<and> nodes_from s' (rev as @ xs) (Some last) \<and>
    set (rev as @ xs) = dom s' \<and> last \<in> store_roots s'"
  using assms
proof (induction as arbitrary: s h xs prev i)
  case (Cons a as)
  obtain ob where ob: "s prev = Some ob" using Cons.prems(2) by (cases xs) auto
  let ?s1 = "s(prev \<mapsto> ob\<lparr>obj_roots := obj_roots ob - 1\<rparr>)"
  obtain h1 where h1: "drop_root prev h = ret h1" "calm ?s1 h1" using calm_handles(1) [OF Cons.prems(1) ob] by blast
  have d1: "dom ?s1 = dom s" using ob by auto
  have b1: "store_bytes ?s1 = store_bytes s"
    using store_bytes_upd [OF calm_dom [OF Cons.prems(1)], of "\<lambda>b. b\<lparr>obj_roots := obj_roots b - 1\<rparr>" prev] ob by simp
  let ?v = "node_val (int i) (Some prev)"
  let ?s2 = "?s1(a \<mapsto> new_object Node sz ?v)"
  have a: "a \<notin> dom ?s1" using Cons.prems(5) d1 by auto
  have pd: "ptr_in ?s1 (False, prev)" by (simp add: ptr_in_def)
  obtain h2 where h2: "allocate h1 a Node sz ?v = ret (a, h2)" "calm ?s2 h2"
    using calm_allocate [OF h1(2) a, of Node ?v sz] Cons.prems(6) b1 pd by (auto simp del: fun_upd_apply)
  have b2: "store_bytes ?s2 = store_bytes s + unat sz"
    using store_bytes_fresh [OF calm_dom [OF h1(2)] a] b1 by (simp add: new_object_def)
  have "nodes_from ?s2 xs (Some prev)"
    by (rule nodes_from_upd [OF nodes_from_roots [OF Cons.prems(2) ob]]) (use a d1 Cons.prems(3) in auto)
  then have n2: "nodes_from ?s2 (a # xs) (Some a)" by (simp add: new_object_def store_succs_def)
  have "\<exists>last h' s'. build_chain sz as (Suc i) a h2 = ret (last, h') \<and> calm s' h' \<and> nodes_from s' (rev as @ a # xs) (Some last) \<and>
      set (rev as @ a # xs) = dom s' \<and> last \<in> store_roots s'"
  proof (rule Cons.IH [OF h2(2) n2])
    show "set (a # xs) = dom ?s2" "distinct as" "set as \<inter> dom ?s2 = {}" "store_bytes ?s2 + length as * unat sz \<le> 1048576"
      using Cons.prems(3-6) d1 b2 by (auto simp del: fun_upd_apply)
    show "a \<in> store_roots ?s2" by (simp add: store_roots_def new_object_def)
  qed
  then show ?case using h1(1) h2(1) by (simp add: gc_root_as_ptr_def del: fun_upd_apply)
qed auto

lemma walk_chain_run:
  assumes "calm s h" and "nodes_from s xs (Some cur)"
  shows "\<exists>cur' h' s'. walk_chain cur k h = ret (k + length xs, cur', h') \<and> calm s' h' \<and> dom s' = dom s \<and> cur' \<in> dom s"
  using assms
proof (induction xs arbitrary: s h cur k)
  case (Cons a xs)
  then obtain ob where ob: "cur = a" "s a = Some ob" "nodes_from s xs (node_next (obj_data ob))" by auto
  note read = calm_handles(4) [OF Cons.prems(1) ob(2)]
  show ?case
  proof (cases "node_next (obj_data ob)")
    case None
    then have "xs = []" using ob(3) by (cases xs) auto
    then show ?thesis using Cons.prems(1) ob(1,2) read None by (subst walk_chain.simps) auto
  next
    case (Some n)
    then obtain on where on: "s n = Some on" using ob(3) by (cases xs) auto
    let ?s1 = "s(n \<mapsto> on\<lparr>obj_roots := obj_roots on + 1\<rparr>)"
    obtain m where m: "gc_ptr_root (mem h) n = ret (n, m)" "calm ?s1 (h\<lparr>mem := m\<rparr>)"
      using calm_handles(2) [OF Cons.prems(1) on] by blast
    obtain oa where oa: "?s1 a = Some oa" using ob(2) by (cases "a = n") auto
    let ?s2 = "?s1(a \<mapsto> oa\<lparr>obj_roots := obj_roots oa - 1\<rparr>)"
    obtain h2 where h2: "drop_root a (h\<lparr>mem := m\<rparr>) = ret h2" "calm ?s2 h2" using calm_handles(1) [OF m(2) oa] by blast
    have "nodes_from ?s2 xs (Some n)" using nodes_from_roots [OF nodes_from_roots [OF ob(3) on] oa] Some by (simp del: fun_upd_apply)
    from Cons.IH [OF h2(2) this, of "Suc k"] obtain cur' h' s'
      where IH: "walk_chain n (Suc k) h2 = ret (Suc k + length xs, cur', h')" "calm s' h'" "dom s' = dom ?s2" "cur' \<in> dom ?s2" by blast
    have "dom ?s2 = dom s" using ob(2) on by auto
    then show ?thesis
      using IH ob(1) read Some m(1) h2(1) by (subst walk_chain.simps) (auto simp del: fun_upd_apply)
  qed
qed simp

lemma tracing_chain_passes:
  assumes "distinct (a # as)" and "length as = 99" and "100 * unat sz \<le> 1048576"
  shows "\<exists>h'. tracing_chain_keeps_all_nodes p sz a as (default_heap bg) = ret ([True], h')"
proof -
  let ?s1 = "[a \<mapsto> new_object Node sz (node_val 0 None)]"
  have 0: "store_bytes Map.empty = 0" by (simp add: store_bytes_def)
  then obtain h1 where h1: "allocate (default_heap bg) a Node sz (node_val 0 None) = ret (a, h1)" "calm ?s1 h1"
    using calm_allocate [OF calm_default, of a Node "node_val 0 None" sz bg] assms(3) by auto
  let ?ob = "(new_object Node sz (node_val 0 None))\<lparr>obj_roots := obj_roots (new_object Node sz (node_val 0 None)) + 1\<rparr>"
  let ?s2 = "?s1(a \<mapsto> ?ob)"
  obtain m where m: "gc_root_clone (mem h1) a = ret (a, m)" "calm ?s2 (h1\<lparr>mem := m\<rparr>)"
    using calm_handles(3) [OF h1(2), of a] by auto
  have "store_bytes ?s2 = unat sz" by (simp add: store_bytes_def new_object_def)
  then have "\<exists>last h' s'. build_chain sz as 1 a (h1\<lparr>mem := m\<rparr>) = ret (last, h') \<and> calm s' h' \<and> nodes_from s' (rev as @ [a]) (Some last) \<and>
      set (rev as @ [a]) = dom s' \<and> last \<in> store_roots s'"
    using assms by (intro build_chain_run [OF m(2)]) (auto simp: new_object_def)
  then obtain last h2 s2 where h2: "build_chain sz as 1 a (h1\<lparr>mem := m\<rparr>) = ret (last, h2)" "calm s2 h2"
      "nodes_from s2 (rev as @ [a]) (Some last)" "set (rev as @ [a]) = dom s2" "last \<in> store_roots s2" by blast
  have "set (rev as @ [a]) \<subseteq> store_reach s2"
    by (rule nodes_from_reach [OF h2(3)]) (use h2(5) store_reach.root in auto)
  then have "dom s2 \<subseteq> store_reach s2" unfolding h2(4) .
  then have "s2 |` store_reach s2 = s2" by (intro ext) (metis domIff restrict_in restrict_out subsetD)
  then obtain h3 where h3: "force_collect p h2 = ret (bytes_allocated h3, h3)" "calm s2 h3" using calm_collect [OF h2(2), of p] by auto
  obtain cur h4 s4 where h4: "walk_chain last 0 h3 = ret (100, cur, h4)" "calm s4 h4" "dom s4 = dom s2" "cur \<in> dom s2"
    using walk_chain_run [OF h3(2) h2(3), of 0] assms(2) by auto
  have "set [cur, a] \<subseteq> dom s4" using h4(3,4) h2(4) by auto
  from drops_run [OF h4(2) this] obtain h5 where "for_each drop_root [cur, a] h4 = ret h5" by blast
  then show ?thesis using h1(1) m(1) h2(1) h3(1) h4(1) by (simp add: tracing_chain_keeps_all_nodes_def)
qed

section \<open>The test of the write barrier\<close>

fun add_unrooted :: "usize \<Rightarrow> addr list \<Rightarrow> nat \<Rightarrow> store \<Rightarrow> store" where
  "add_unrooted sz [] i s = s"
| "add_unrooted sz (a # as) i s = add_unrooted sz as (Suc i) (s(a \<mapsto> dead_object (TPrim P_i32) sz (VPrim (int i))))"

lemma add_unrooted_other: "x \<notin> set as \<Longrightarrow> add_unrooted sz as i s x = s x"
  by (induction as arbitrary: i s) auto

lemma add_unrooted_dom: "dom (add_unrooted sz as i s) = dom s \<union> set as"
  by (induction as arbitrary: i s) auto

lemma add_unrooted_nth:
  "distinct as \<Longrightarrow> j < length as \<Longrightarrow>
   add_unrooted sz as i s (as ! j) = Some (dead_object (TPrim P_i32) sz (VPrim (int (i + j))))"
proof (induction as arbitrary: i j s)
  case (Cons a as)
  then show ?case by (cases j) (simp_all add: add_unrooted_other add.assoc)
qed simp

lemma unrooted_run:
  assumes "calm s h" and "distinct as" and "set as \<inter> dom s = {}" and "store_bytes s + length as * unat sz \<le> 1048576"
  shows "\<exists>h'. allocate_unrooted sz as i h = ret (as, h') \<and> calm (add_unrooted sz as i s) h' \<and>
    store_bytes (add_unrooted sz as i s) = store_bytes s + length as * unat sz"
  using assms
proof (induction as arbitrary: s h i)
  case (Cons a as)
  have a: "a \<notin> dom s" and sz: "store_bytes s + unat sz \<le> 1048576" using Cons.prems by auto
  let ?t = "TPrim P_i32" and ?v = "VPrim (int i)"
  let ?s = "s(a \<mapsto> dead_object ?t sz ?v)"
  obtain h1 where h1: "allocate h a ?t sz ?v = ret (a, h1)" "calm (s(a \<mapsto> new_object ?t sz ?v)) h1"
    using calm_allocate [OF Cons.prems(1) a, of ?t ?v sz] sz by auto
  obtain h2 where h2: "drop_root a h1 = ret h2" "calm ?s h2"
    using calm_handles(1) [OF h1(2), of a "new_object ?t sz ?v"] by (auto simp: dead_object_def new_object_def)
  have b: "store_bytes ?s = store_bytes s + unat sz"
    using store_bytes_fresh [OF calm_dom [OF Cons.prems(1)] a] by (simp add: dead_object_def new_object_def)
  have "\<exists>h'. allocate_unrooted sz as (Suc i) h2 = ret (as, h') \<and> calm (add_unrooted sz as (Suc i) ?s) h' \<and>
      store_bytes (add_unrooted sz as (Suc i) ?s) = store_bytes ?s + length as * unat sz"
    using Cons.prems(2-4) b by (intro Cons.IH [OF h2(2)]) (auto simp del: fun_upd_apply)
  then obtain h' where IH: "allocate_unrooted sz as (Suc i) h2 = ret (as, h')" "calm (add_unrooted sz as (Suc i) ?s) h'"
      "store_bytes (add_unrooted sz as (Suc i) ?s) = store_bytes ?s + length as * unat sz" by blast
  then show ?case using h1(1) h2(1) b by (intro exI [of _ h']) (simp add: gc_root_as_ptr_def del: fun_upd_apply)
qed simp

text \<open>Setting a cell of a calm heap.\<close>

lemma calm_set_cell:
  assumes c: "calm s h" and ob: "s a = Some ob" "obj_data ob = VCell w" and t: "vt_ty (obj_vtable ob) = TGcCell (TGcPtr True)"
    and q: "ptr_in s (True, x)"
  shows "\<exists>h'. cell_set h (Some []) a [] (VPtr True x) = ret (h', Some []) \<and> calm (s(a \<mapsto> ob\<lparr>obj_data := VCell (VPtr True x)\<rparr>)) h'"
proof -
  obtain b where b: "mem h a = Some b" "ob = object_of b" using calm_object [OF c ob(1)] by blast
  have gi: "gc_inv h" and qu: "quiescent h" using c by (auto simp: calm_def)
  have nm: "\<not> is_marking h" by (rule is_marking_quiescent [OF qu])
  have st: "storable (mem h) a [] (TGcPtr True) (VPtr True x)"
    using b ob(2) t calm_ptr_ok [OF c q] by (simp add: storable_def object_of_def)
  obtain h' where h': "cell_set h (Some []) a [] (VPtr True x) = ret (h', Some [])" "stored h a [] (VPtr True x) h'"
    using cell_set_idle_run [OF _ st, of "Some []"] nm by (auto simp: returns_iff)
  have "gc_inv h'" by (rule stored_quiescent_inv [OF gi qu st h'(2)])
  moreover have "store_of (mem h') = s(a \<mapsto> ob\<lparr>obj_data := VCell (VPtr True x)\<rparr>)"
    using h'(2) b c ob(2) by (auto simp: stored_def calm_def object_of_def set_data_def)
  moreover have "bytes_allocated h' = bytes_allocated h" "current_threshold h' = current_threshold h"
    using h'(2) by (auto simp: stored_def)
  ultimately have "calm (s(a \<mapsto> ob\<lparr>obj_data := VCell (VPtr True x)\<rparr>)) h'"
    using c stored_frame [OF h'(2)] by (simp add: calm_def quiescent_def)
  then show ?thesis using h'(1) by blast
qed

text \<open>
  The threads keep the values where they are and the cell rooted by main's handle. Once a thread has stored, some thread's latest
  value is in the cell.
\<close>

definition latest :: "nat \<Rightarrow> nat \<Rightarrow> nat" where
  "latest n k = min (k - 2) (n - 1)"

definition setters_inv :: "usize \<Rightarrow> gc_ptr list \<Rightarrow> gc_root \<Rightarrow> (nat \<Rightarrow> nat) \<times> heap \<Rightarrow> bool" where
  "setters_inv sz vs c st \<longleftrightarrow>
     (\<exists>s ob w. calm s (snd st) \<and> c \<notin> set vs \<and> s c = Some ob \<and> obj_data ob = VCell (VPtr True w) \<and>
        vt_ty (obj_vtable ob) = TGcCell (TGcPtr True) \<and>
        (\<forall>j<length vs. s (vs ! j) = Some (dead_object (TPrim P_i32) sz (VPrim (int j)))) \<and>
        obj_roots ob = 1 + of_nat (card {t. t < 4 \<and> 0 < fst st t \<and> fst st t < length vs + 2}) \<and>
        vs \<noteq> [] \<and> (\<forall>t<4. fst st t \<le> length vs + 2) \<and>
        ((\<forall>t<4. fst st t \<le> 1) \<or> (\<exists>t<4. 2 \<le> fst st t \<and> w = vs ! latest (length vs) (fst st t))))"

lemma setters_invI:
  assumes "calm s h" and "c \<notin> set vs" and "s c = Some ob" and "obj_data ob = VCell (VPtr True w)"
    and "vt_ty (obj_vtable ob) = TGcCell (TGcPtr True)"
    and "\<And>j. j < length vs \<Longrightarrow> s (vs ! j) = Some (dead_object (TPrim P_i32) sz (VPrim (int j)))"
    and "obj_roots ob = 1 + of_nat (card {t. t < 4 \<and> 0 < pos t \<and> pos t < length vs + 2})"
    and "vs \<noteq> []" and "\<forall>t<4. pos t \<le> length vs + 2"
    and "(\<forall>t<4. pos t \<le> 1) \<or> (\<exists>t<4. 2 \<le> pos t \<and> w = vs ! latest (length vs) (pos t))"
  shows "setters_inv sz vs c (pos, h)"
  unfolding setters_inv_def fst_conv snd_conv using assms by (intro exI [of _ s] exI [of _ ob] exI [of _ w] conjI) simp_all

lemma setter_step_run:
  assumes inv: "setters_inv sz vs c st" and t: "t < 4"
  shows "returns (setter_step vs c t st) (\<lambda>st'. setters_inv sz vs c st' \<and>
    fst st' = (fst st)(t := min (Suc (fst st t)) (length vs + 2)))"
proof -
  obtain pos h where st: "st = (pos, h)" by (cases st)
  let ?n = "length vs" and ?A = "\<lambda>pos. {u. u < (4::nat) \<and> 0 < pos u \<and> pos u < length vs + 2}"
  let ?pos = "pos(t := Suc (pos t))"
  obtain s ob w where I: "calm s h" "c \<notin> set vs" "s c = Some ob" "obj_data ob = VCell (VPtr True w)"
      "vt_ty (obj_vtable ob) = TGcCell (TGcPtr True)"
      "\<And>j. j < ?n \<Longrightarrow> s (vs ! j) = Some (dead_object (TPrim P_i32) sz (VPrim (int j)))"
      "obj_roots ob = 1 + of_nat (card (?A pos))" "vs \<noteq> []" "\<forall>t<4. pos t \<le> ?n + 2"
      "(\<forall>u<4. pos u \<le> 1) \<or> (\<exists>u<4. 2 \<le> pos u \<and> w = vs ! latest ?n (pos u))"
    using inv unfolding setters_inv_def st fst_conv snd_conv by blast
  have fin: "finite (?A q)" for q :: "nat \<Rightarrow> nat" by simp
  have n: "0 < ?n" using I(8) by simp
  have vals: "(s(c \<mapsto> ob')) (vs ! j) = Some (dead_object (TPrim P_i32) sz (VPrim (int j)))" if "j < ?n" for ob' j
    using I(2,6) that nth_mem by fastforce
  have put: "setters_inv sz vs c (q, h')"
    if "calm (s(c \<mapsto> ob')) h'" "obj_data ob' = VCell (VPtr True w')" "obj_vtable ob' = obj_vtable ob"
      "obj_roots ob' = 1 + of_nat (card (?A q))" "\<forall>u<4. q u \<le> ?n + 2"
      "(\<forall>u<4. q u \<le> 1) \<or> (\<exists>u<4. 2 \<le> q u \<and> w' = vs ! latest ?n (q u))" for q ob' h' w'
    by (rule setters_invI [OF that(1) I(2) _ that(2) _ vals that(4) I(8) that(5,6)]) (simp_all add: that(3) I(5))
  consider (spawn) "pos t = 0" | (store) "0 < pos t" "pos t \<le> ?n" | (leave) "pos t = Suc ?n" | (over) "Suc ?n < pos t" by linarith
  then show ?thesis
  proof cases
    case spawn
    obtain m where m: "gc_root_clone (mem h) c = ret (c, m)" "calm (s(c \<mapsto> ob\<lparr>obj_roots := obj_roots ob + 1\<rparr>)) (h\<lparr>mem := m\<rparr>)"
      using calm_handles(3) [OF I(1,3)] by blast
    have "?A ?pos = insert t (?A pos)" "t \<notin> ?A pos" using spawn t by auto
    then have "card (?A ?pos) = Suc (card (?A pos))" using fin by simp
    moreover have "(\<forall>u<4. ?pos u \<le> 1) \<or> (\<exists>u<4. 2 \<le> ?pos u \<and> w = vs ! latest ?n (?pos u))"
      using I(10) spawn by (metis One_nat_def fun_upd_apply not_numeral_le_zero order_refl)
    ultimately have "setters_inv sz vs c (?pos, h\<lparr>mem := m\<rparr>)"
      using I(4,7,9) spawn by (intro put [OF m(2), of w]) simp_all
    then show ?thesis using m(1) spawn by (simp add: setter_step_def st)
  next
    case store
    let ?x = "vs ! (pos t - 1)"
    have "ptr_in s (True, ?x)" using I(6) [of "pos t - 1"] store by (simp add: ptr_in_def dead_object_def new_object_def)
    then obtain h' where h': "cell_set h (Some []) c [] (VPtr True ?x) = ret (h', Some [])"
        "calm (s(c \<mapsto> ob\<lparr>obj_data := VCell (VPtr True ?x)\<rparr>)) h'"
      using calm_set_cell [OF I(1,3,4,5)] by blast
    have "?A ?pos = ?A pos" using store by auto
    moreover have "2 \<le> ?pos t \<and> ?x = vs ! latest ?n (?pos t)" using store by (simp add: latest_def)
    ultimately have "setters_inv sz vs c (?pos, h')"
      using I(7,9) t store by (intro put [OF h'(2), of ?x] disjI2 exI [of _ t]) simp_all
    then show ?thesis using h'(1) store by (simp add: setter_step_def st)
  next
    case leave
    obtain h' where h': "drop_root c h = ret h'" "calm (s(c \<mapsto> ob\<lparr>obj_roots := obj_roots ob - 1\<rparr>)) h'"
      using calm_handles(1) [OF I(1,3)] by blast
    have "?A pos = insert t (?A ?pos)" "t \<notin> ?A ?pos" using leave t by auto
    then have card: "card (?A pos) = Suc (card (?A ?pos))" using fin by simp
    have "\<not> (\<forall>u<4. pos u \<le> 1)" using leave t n by (auto intro!: exI [of _ t])
    then obtain u where u: "u < 4" "2 \<le> pos u" "w = vs ! latest ?n (pos u)" using I(10) by blast
    have "latest ?n (?pos u) = latest ?n (pos u)" using leave by (simp add: latest_def)
    then have "(\<forall>u<4. ?pos u \<le> 1) \<or> (\<exists>u<4. 2 \<le> ?pos u \<and> w = vs ! latest ?n (?pos u))"
      using u by (intro disjI2 exI [of _ u]) auto
    then have "setters_inv sz vs c (?pos, h')"
      using I(4,7,9) card leave by (intro put [OF h'(2), of w]) simp_all
    then show ?thesis using h'(1) leave by (simp add: setter_step_def st)
  next
    case over
    then have "pos t = ?n + 2" using I(9) t by (simp add: le_antisym)
    then show ?thesis using inv by (simp add: setter_step_def st fun_eq_iff)
  qed
qed

lemma setters_run:
  assumes "setters_inv sz vs c st" and "set ts \<subseteq> {..<4}"
  shows "returns (for_each (setter_step vs c) ts st) (\<lambda>st'. setters_inv sz vs c st' \<and>
    (\<forall>t<4. fst st' t = min (fst st t + count_list ts t) (length vs + 2)))"
  using assms
proof (induction ts arbitrary: st)
  case Nil
  then have "\<forall>t<4. fst st t \<le> length vs + 2" unfolding setters_inv_def by blast
  then show ?case using Nil.prems(1) by simp
next
  case (Cons t ts)
  then have t: "t < 4" by simp
  show ?case unfolding for_each.simps
  proof (rule returns_bindI [OF setter_step_run [OF Cons.prems(1) t]])
    fix st' assume st': "setters_inv sz vs c st' \<and> fst st' = (fst st)(t := min (Suc (fst st t)) (length vs + 2))"
    then have "setters_inv sz vs c st'" by blast
    from Cons.IH [OF this] show "returns (for_each (setter_step vs c) ts st') (\<lambda>st''. setters_inv sz vs c st'' \<and>
        (\<forall>u<4. fst st'' u = min (fst st u + count_list (t # ts) u) (length vs + 2)))"
      using Cons.prems(2) st' by (auto elim!: returns_mono)
  qed
qed

lemma barrier_setup_run:
  assumes "distinct (c # vs @ as)" and "vs \<noteq> []"
    and "length vs * unat sz_i32 + unat sz_cell + length as * unat sz_arr \<le> 1048576"
  shows "\<exists>h. barrier_setup sz_i32 sz_cell sz_arr vs c as (default_heap bg) = ret (vs, c, h) \<and> setters_inv sz_i32 vs c (\<lambda>_. 0, h)"
proof -
  let ?s1 = "add_unrooted sz_i32 vs 0 Map.empty"
  have 0: "store_bytes Map.empty = 0" by (simp add: store_bytes_def)
  obtain h1 where h1: "allocate_unrooted sz_i32 vs 0 (default_heap bg) = ret (vs, h1)" "calm ?s1 h1"
      "store_bytes ?s1 = length vs * unat sz_i32"
    using unrooted_run [OF calm_default, of vs sz_i32 0 bg] assms 0 by auto
  have vals: "?s1 (vs ! j) = Some (dead_object (TPrim P_i32) sz_i32 (VPrim (int j)))" if "j < length vs" for j
    using add_unrooted_nth [of vs j sz_i32 0 Map.empty] assms(1) that by simp
  let ?t = "TGcCell (TGcPtr True)" and ?v = "cell_new (VPtr True (hd vs))"
  have "ptr_in ?s1 (True, hd vs)"
    using vals [of 0] assms(2) by (auto simp: ptr_in_def dead_object_def new_object_def hd_conv_nth)
  moreover have c: "c \<notin> dom ?s1" using assms(1) by (simp add: add_unrooted_dom)
  ultimately obtain h2 where h2: "allocate h1 c ?t sz_cell ?v = ret (c, h2)" "calm (?s1(c \<mapsto> new_object ?t sz_cell ?v)) h2"
    using calm_allocate [OF h1(2) c, of ?t ?v sz_cell] h1(3) assms(3) by (auto simp: cell_new_def)
  let ?s2 = "?s1(c \<mapsto> new_object ?t sz_cell ?v)"
  have "store_bytes ?s2 = length vs * unat sz_i32 + unat sz_cell"
    using store_bytes_fresh [OF calm_dom [OF h1(2)] c] h1(3) by (simp add: new_object_def)
  then obtain h3 where h3: "allocate_temps (ByteArr 16) sz_arr (VSeq (replicate 16 (VPrim 0))) as h2 = ret h3"
      "calm (with_temps as (dead_object (ByteArr 16) sz_arr (VSeq (replicate 16 (VPrim 0)))) ?s2) h3"
    using temps_run [OF h2(2), of as sz_arr "ByteArr 16" "VSeq (replicate 16 (VPrim 0))"] assms(1,3)
    by (auto simp: ByteArr_def add_unrooted_dom list_all_iff Int_commute)
  have "setters_inv sz_i32 vs c (\<lambda>_. 0, h3)"
    using assms(1,2) vals
    by (intro setters_invI [OF h3(2), where w = "hd vs"])
      (auto simp: with_temps_def new_object_def cell_new_def nth_mem disjoint_iff)
  then show ?thesis using h1(1) h2(1) h3(1) by (simp add: barrier_setup_def)
qed

lemma barrier_check_passes:
  assumes inv: "setters_inv sz vs c st" and fin: "\<forall>t<4. fst st t = length vs + 2" and n: "length vs = 1000"
  shows "\<exists>h'. barrier_check p c (snd st) = ret ([True], h')"
proof -
  obtain s ob w where I: "calm s (snd st)" "c \<notin> set vs" "s c = Some ob" "obj_data ob = VCell (VPtr True w)"
      "vt_ty (obj_vtable ob) = TGcCell (TGcPtr True)"
      "\<And>j. j < length vs \<Longrightarrow> s (vs ! j) = Some (dead_object (TPrim P_i32) sz (VPrim (int j)))"
      "obj_roots ob = 1 + of_nat (card {t. t < 4 \<and> 0 < fst st t \<and> fst st t < length vs + 2})"
      "(\<forall>t<4. fst st t \<le> 1) \<or> (\<exists>t<4. 2 \<le> fst st t \<and> w = vs ! latest (length vs) (fst st t))"
    using inv unfolding setters_inv_def by blast
  have "\<not> (\<forall>t<4. fst st t \<le> 1)" using fin by (auto intro!: exI [of _ 0])
  then have w: "w = vs ! 999" using I(8) fin n by (auto simp: latest_def)
  have none: "{t. t < 4 \<and> 0 < fst st t \<and> fst st t < length vs + 2} = {}" using fin by auto
  have "obj_roots ob = 1" using I(7) unfolding none by simp
  then have c: "c \<in> store_reach s" using I(3) by (intro store_reach.root) (simp add: store_roots_def)
  have ow: "s w = Some (dead_object (TPrim P_i32) sz (VPrim 999))" using I(6) [of 999] n w by simp
  have "w \<in> store_reach s" by (rule store_reach.step [OF c]) (simp add: store_succs_def I(3,4))
  let ?s1 = "s |` store_reach s"
  obtain h1 where h1: "force_collect p (snd st) = ret (bytes_allocated h1, h1)" "calm ?s1 h1" using calm_collect [OF I(1)] by blast
  have s1: "?s1 c = Some ob" "?s1 w = Some (dead_object (TPrim P_i32) sz (VPrim 999))" using c \<open>w \<in> _\<close> I(3) ow by simp_all
  obtain b where b: "mem h1 c = Some b" "ob = object_of b" using calm_object [OF h1(2) s1(1)] by blast
  have get: "cell_get (mem h1) c [] = ret (Some (VPtr True w))"
    using b I(4) by (simp add: cell_get_def deref_def object_of_def)
  let ?ow = "dead_object (TPrim P_i32) sz (VPrim 999)"
  obtain m where m: "gc_ptr_root (mem h1) w = ret (w, m)" "calm (?s1(w \<mapsto> ?ow\<lparr>obj_roots := obj_roots ?ow + 1\<rparr>)) (h1\<lparr>mem := m\<rparr>)"
    using calm_handles(2) [OF h1(2) s1(2)] by blast
  have read: "gc_root_deref m w = ret (VPrim 999)"
    using calm_handles(4) [OF m(2), of w] by (simp add: dead_object_def new_object_def)
  have "set [w, c] \<subseteq> dom (?s1(w \<mapsto> ?ow\<lparr>obj_roots := obj_roots ?ow + 1\<rparr>))" using c I(3) by auto
  from drops_run [OF m(2) this] obtain h2 where "for_each drop_root [w, c] (h1\<lparr>mem := m\<rparr>) = ret h2" by blast
  then show ?thesis using h1(1) get m(1) read by (simp add: barrier_check_def)
qed

section \<open>Properties\<close>

text \<open>
  C34: the sequential integration tests pass: whichever addresses the allocator gives (those in use at a time are distinct), the
  assertions of the test of root preservation, of the test that the sweep frees memory, of the chain of a hundred nodes and of the
  five cycles over a graph of a hundred vectors hold, each in a context of its own that it leaves again. What is assumed of the sizes of the
  boxes is that all boxes of a test together stay below one megabyte, the default threshold, and that a vector has a size.
\<close>

theorem integration_tests_pass:
  assumes "distinct (a # as)" and "length as = 1000" and "unat sz_i32 + 1000 * unat sz_usize \<le> 1048576"
    and "distinct (rs @ bs)" and "length rs = 10" and "length bs = 500"
    and "0 < sz_vec" and "10 * unat sz_i32 + 500 * unat sz_vec \<le> 1048576"
    and "distinct (c # cs)" and "length cs = 99" and "100 * unat sz_node \<le> 1048576"
    and "distinct vs" and "length vs = 100" and "length ess = 5"
    and "\<forall>es\<in>set ess. distinct es \<and> length es = 500 \<and> set es \<inter> set vs = {}"
    and "100 * unat sz_vec + 500 * unat sz_arr \<le> 1048576"
  shows "(\<exists>s. in_new_context p (root_preservation_after_collection p sz_i32 sz_usize a as) system_init tid hid bg ctx = ret ([True], s)) \<and>
    (\<exists>s. in_new_context p (sweep_frees_memory p sz_i32 sz_vec rs bs) system_init tid hid bg ctx = ret ([True], s)) \<and>
    (\<exists>s. in_new_context p (tracing_chain_keeps_all_nodes p sz_node c cs) system_init tid hid bg ctx = ret ([True], s)) \<and>
    (\<exists>s. in_new_context p (large_object_graph_survives_multiple_cycles p sz_vec sz_arr vs ess) system_init tid hid bg ctx =
       ret (replicate 500 True, s))"
proof (intro conjI)
  show "\<exists>s. in_new_context p (root_preservation_after_collection p sz_i32 sz_usize a as) system_init tid hid bg ctx = ret ([True], s)"
    using root_preservation_passes [OF assms(1), of sz_i32 sz_usize p bg] assms(2,3) in_new_context_default by fastforce
  have "0 < unat sz_vec" using assms(7) by (simp add: word_less_nat_alt)
  then have "\<exists>h'. sweep_frees_memory p sz_i32 sz_vec rs bs (default_heap bg) = ret ([True], h')"
    using sweep_frees_memory_passes [OF assms(4), of sz_i32 sz_vec p bg] assms(5,6,8) by auto
  then show "\<exists>s. in_new_context p (sweep_frees_memory p sz_i32 sz_vec rs bs) system_init tid hid bg ctx = ret ([True], s)"
    using in_new_context_default by meson
  show "\<exists>s. in_new_context p (tracing_chain_keeps_all_nodes p sz_node c cs) system_init tid hid bg ctx = ret ([True], s)"
    using tracing_chain_passes [OF assms(9-11), of p bg] in_new_context_default by meson
  have "\<exists>h'. large_object_graph_survives_multiple_cycles p sz_vec sz_arr vs ess (default_heap bg) = ret (replicate 500 True, h')"
    using large_object_graph_passes [OF assms(12), of ess sz_vec sz_arr p bg] assms(13-16) by simp
  then show "\<exists>s. in_new_context p (large_object_graph_survives_multiple_cycles p sz_vec sz_arr vs ess) system_init tid hid bg ctx =
      ret (replicate 500 True, s)"
    using in_new_context_default by meson
qed

lemma upt_facts:
  "distinct (i # [Suc i..<j])" "distinct ([i..<j] @ [j..<k])" "set [j..<k] \<inter> set [i..<j] = {}" "length [i..<i + n] = n"
  "distinct (i # [Suc i..<Suc i + n] @ [Suc i + n..<Suc i + n + k])"
  by auto

theorem integration_tests_pass_witness:
  "(\<exists>s. in_new_context Debug (tracing_chain_keeps_all_nodes Debug 48 0 [Suc 0..<Suc 0 + 99]) system_init 1 0 9 5 = ret ([True], s)) \<and>
   (\<exists>s. in_new_context Debug (large_object_graph_survives_multiple_cycles Debug 56 96 [0..<0 + 100] (replicate 5 [0 + 100..<0 + 100 + 500]))
      system_init 1 0 9 5 = ret (replicate 500 True, s))"
proof -
  have u: "unat (40 :: usize) + 1000 * unat (40 :: usize) \<le> 1048576" "(0 :: usize) < 56"
      "10 * unat (40 :: usize) + 500 * unat (56 :: usize) \<le> 1048576" "100 * unat (48 :: usize) \<le> 1048576"
      "100 * unat (56 :: usize) + 500 * unat (96 :: usize) \<le> 1048576"
    by simp_all
  have e: "\<forall>es\<in>set (replicate 5 [0 + 100..<0 + 100 + 500]). distinct es \<and> length es = 500 \<and> set es \<inter> set [0..<0 + 100] = {}"
    by (metis upt_facts(3,4) distinct_upt in_set_replicate)
  show ?thesis
    using integration_tests_pass [where p = Debug and tid = 1 and hid = 0 and bg = 9 and ctx = 5 and a = 0 and c = 0,
        OF upt_facts(1) upt_facts(4) u(1) upt_facts(2) upt_facts(4) upt_facts(4) u(2,3) upt_facts(1) upt_facts(4) u(4)
          distinct_upt upt_facts(4) length_replicate e u(5)]
    by blast
qed

text \<open>
  The integration test of the write barrier passes under every schedule of its four threads that lets them end, and no schedule makes it
  test the barrier: its 3001 boxes stay below the default threshold, so from the moment before the threads start until they
  are joined no collection is due and none is marking, and every \<open>set\<close> of the test takes the path without a barrier. The comment of the
  test says that it exceeds the threshold to have the collector marking by then.
\<close>

theorem barrier_test_never_marks:
  assumes "distinct (c # vs @ as)" and "length vs = 1000" and "length as = 2000"
    and "1000 * unat sz_i32 + unat sz_cell + 2000 * unat sz_arr \<le> 1048576"
    and "set ts \<subseteq> {..<4}" and "\<forall>t<4. 1002 \<le> count_list ts t"
  shows "(\<exists>s. in_new_context p (write_barrier_concurrent_mutation p sz_i32 sz_cell sz_arr vs c as ts) system_init tid hid bg ctx =
      ret ([True], s)) \<and>
    (\<exists>h. barrier_setup sz_i32 sz_cell sz_arr vs c as (default_heap bg) = ret (vs, c, h) \<and>
      (\<forall>k. returns (for_each (setter_step vs c) (take k ts) (\<lambda>_. 0, h)) (\<lambda>(_, h'). \<not> should_collect h' \<and> \<not> is_marking h')))"
proof -
  have "vs \<noteq> []" using assms(2) by auto
  then obtain h where h: "barrier_setup sz_i32 sz_cell sz_arr vs c as (default_heap bg) = ret (vs, c, h)" "setters_inv sz_i32 vs c (\<lambda>_. 0, h)"
    using barrier_setup_run [OF assms(1)] assms(2-4) by metis
  have calm: "\<not> should_collect (snd st) \<and> \<not> is_marking (snd st)" if inv: "setters_inv sz_i32 vs c st" for st
  proof -
    obtain s where "calm s (snd st)" using inv unfolding setters_inv_def by blast
    then show ?thesis using calm_idle is_marking_quiescent calm_def by blast
  qed
  have n: "min (0 + m) (length vs + 2) = length vs + 2" if "1002 \<le> m" for m using assms(2) that by simp
  have no_mark: "returns (for_each (setter_step vs c) (take k ts) (\<lambda>_. 0, h)) (\<lambda>(_, h'). \<not> should_collect h' \<and> \<not> is_marking h')" for k
  proof (rule returns_mono [OF setters_run [OF h(2)]])
    show "set (take k ts) \<subseteq> {..<4}" using assms(5) set_take_subset by (rule subset_trans [rotated])
  qed (use calm in \<open>simp add: case_prod_unfold\<close>)
  obtain st where st: "for_each (setter_step vs c) ts (\<lambda>_. 0, h) = ret st" "setters_inv sz_i32 vs c st"
      "\<forall>t<4. fst st t = length vs + 2"
    using setters_run [OF h(2) assms(5)] assms(6) n by (auto elim!: returnsE)
  from barrier_check_passes [OF st(2,3) assms(2)] obtain h' where "barrier_check p c (snd st) = ret ([True], h')" by blast
  then have "write_barrier_concurrent_mutation p sz_i32 sz_cell sz_arr vs c as ts (default_heap bg) = ret ([True], h')"
    using h(1) st(1) by (simp add: write_barrier_concurrent_mutation_def case_prod_unfold)
  then have "\<exists>s. in_new_context p (write_barrier_concurrent_mutation p sz_i32 sz_cell sz_arr vs c as ts) system_init tid hid bg ctx =
      ret ([True], s)"
    using in_new_context_default by meson
  then show ?thesis using h(1) no_mark by blast
qed

lemma count_blocks: "count_list (concat (map (replicate n) ts)) t = n * count_list ts t"
proof (induction ts)
  case (Cons u ts)
  have "count_list (replicate n u) t = (if u = t then n else 0)" by (induction n) auto
  then show ?case using Cons by simp
qed simp

theorem barrier_test_never_marks_witness:
  "\<exists>s. in_new_context Debug (write_barrier_concurrent_mutation Debug 40 48 56 [Suc 0..<Suc 0 + 1000] 0
      [Suc 0 + 1000..<Suc 0 + 1000 + 2000] (concat (map (replicate 1002) [0, 1, 2, 3]))) system_init 1 0 9 5 = ret ([True], s)"
proof -
  have u: "1000 * unat (40 :: usize) + unat (48 :: usize) + 2000 * unat (56 :: usize) \<le> 1048576" by simp
  let ?ts = "concat (map (replicate 1002) [0, 1, 2, 3 :: nat])"
  have "count_list [0, 1, 2, 3 :: nat] t = 1" if "t < 4" for t
  proof -
    from that consider "t = 0" | "t = 1" | "t = 2" | "t = 3" by linarith
    then show ?thesis by cases simp_all
  qed
  then have c: "\<forall>t<4. 1002 \<le> count_list ?ts t" unfolding count_blocks by simp
  have s: "set ?ts \<subseteq> {..<4}" by (simp only: set_concat set_map set_replicate_conv_if) auto
  show ?thesis
    using barrier_test_never_marks [where p = Debug and tid = 1 and hid = 0 and bg = 9 and ctx = 5,
        OF upt_facts(5) upt_facts(4) upt_facts(4) u s c]
    by blast
qed

end
