(* ===== verification/Drop_Example.thy ===== *)
theory Drop_Example
  imports Integration_Tests
begin

text \<open>
  The example \<open>src/examples/vtable_drop_test.rs\<close>, which checks that destructors run. The drop function of a vtable runs the
  destructor of the value in a box and frees the box (\<open>drop_impl\<close>), so the destructor of an object has run exactly when its address holds no
  box any more; \<open>DROP_COUNT\<close> is read off the memory in this way. The texts of the strings are numbered.

  The collection that the first part calls is a parameter: \<open>collect\<close> in the program. A failing assertion ends the program; the unwinding drops the
  handles and the context like the end of their scope.
\<close>

section \<open>vtable\_drop\_test.rs\<close>

datatype drop_line = Drops nat | Content val | Panicked

definition DropCounter :: ty where
  "DropCounter = TStruct False [(False, TPrim P_usize)]"

definition drop_counter :: "int \<Rightarrow> val" where
  "drop_counter i = VStruct [(False, VPrim i)]"

definition DROP_COUNT :: "addr list \<Rightarrow> mem \<Rightarrow> nat" where
  "DROP_COUNT objs m = length (filter (\<lambda>a. m a = None) objs)"

definition drop_is_called :: "(heap \<Rightarrow> heap prog) \<Rightarrow> usize \<Rightarrow> addr \<Rightarrow> addr \<Rightarrow> addr \<Rightarrow> heap \<Rightarrow> (drop_line list \<times> heap) prog" where
  "drop_is_called gc sz a b c h =
     bind_prog (allocate h a DropCounter sz (drop_counter 1)) (\<lambda>(obj1, h1).
     bind_prog (allocate h1 b DropCounter sz (drop_counter 2)) (\<lambda>(obj2, h2).
     bind_prog (allocate h2 c DropCounter sz (drop_counter 3)) (\<lambda>(obj3, h3).
     bind_prog (for_each drop_root [obj2, obj3] h3) (\<lambda>h4.
     bind_prog (gc h4) (\<lambda>h5.
     bind_prog (drop_root obj1 h5) (\<lambda>h6. ret ([Drops (DROP_COUNT [obj1, obj2, obj3] (mem h5))], h6)))))))"

definition builtin_drops ::
    "profile \<Rightarrow> usize \<Rightarrow> usize \<Rightarrow> addr \<Rightarrow> addr \<Rightarrow> addr \<Rightarrow> addr \<Rightarrow> addr \<Rightarrow> heap \<Rightarrow> (drop_line list \<times> heap) prog" where
  "builtin_drops p sz_string sz_vec a b c d e h =
     bind_prog (allocate h a (TPrim P_String) sz_string (VPrim 1)) (\<lambda>(s1, h1).
     bind_prog (allocate h1 b (TPrim P_String) sz_string (VPrim 2)) (\<lambda>(s2, h2).
     bind_prog (allocate h2 c (TPrim P_String) sz_string (VPrim 3)) (\<lambda>(s3, h3).
     bind_prog (gc_root_deref (mem h3) s1) (\<lambda>x1.
     bind_prog (for_each drop_root [s2, s3] h3) (\<lambda>h4.
     bind_prog (collect p h4) (\<lambda>h5.
     bind_prog (gc_root_deref (mem h5) s1) (\<lambda>x2.
     bind_prog (allocate h5 d (TIter K_Vec (TPrim P_i32)) sz_vec (VSeq (map VPrim [1, 2, 3, 4, 5, 6, 7, 8, 9, 10]))) (\<lambda>(v1, h6).
     bind_prog (allocate h6 e (TIter K_Vec (TPrim P_str)) sz_vec (VSeq (map VPrim [4, 5, 6, 7, 8]))) (\<lambda>(v2, h7).
     bind_prog (gc_root_deref (mem h7) v1) (\<lambda>y1.
     bind_prog (drop_root v2 h7) (\<lambda>h8.
     bind_prog (collect p h8) (\<lambda>h9.
     bind_prog (gc_root_deref (mem h9) v1) (\<lambda>y2.
     bind_prog (for_each drop_root [v1, s1] h9) (\<lambda>h10.
     ret ([Content x1, Content x2, Content y1, Content y2], h10)))))))))))))))"

text \<open>The objects of a heap that has been dropped are gone.\<close>

definition heap_mem :: "system \<Rightarrow> heap_id \<Rightarrow> mem" where
  "heap_mem s hid = (case heaps s hid of None \<Rightarrow> Map.empty | Some h \<Rightarrow> mem h)"

definition vtable_drop_test ::
    "profile \<Rightarrow> usize \<Rightarrow> usize \<Rightarrow> usize \<Rightarrow> addr \<times> addr \<times> addr \<Rightarrow> addr \<times> addr \<times> addr \<times> addr \<times> addr \<Rightarrow> thread_id \<Rightarrow>
     heap_id \<times> thread_id \<times> ctx_id \<Rightarrow> heap_id \<times> thread_id \<times> ctx_id \<Rightarrow> (drop_line list \<times> system) prog" where
  "vtable_drop_test p sz sz_string sz_vec as bs tid first second =
     (case (as, bs, first, second) of ((a, b, c), (s1, s2, s3, v1, v2), (hid, bg, ctx), (hid', bg', ctx')) \<Rightarrow>
        bind_prog (in_new_context p (drop_is_called (collect p) sz a b c) system_init tid hid bg ctx) (\<lambda>(out1, st1).
        if out1 \<noteq> [Drops 2] then ret (out1 @ [Panicked], st1)
        else
          let total = DROP_COUNT [a, b, c] (heap_mem st1 hid); out2 = out1 @ [Drops total]
          in if total \<noteq> 3 then ret (out2 @ [Panicked], st1)
             else
               bind_prog (in_new_context p (builtin_drops p sz_string sz_vec s1 s2 s3 v1 v2) st1 tid hid' bg' ctx')
                 (\<lambda>(out3, st2). ret (out2 @ out3, st2))))"

section \<open>Runs\<close>

text \<open>The three objects after the drop of two handles: only the first is rooted.\<close>

abbreviation counter_store :: "usize \<Rightarrow> addr \<Rightarrow> addr \<Rightarrow> addr \<Rightarrow> store" where
  "counter_store sz a b c \<equiv>
     [a \<mapsto> new_object DropCounter sz (drop_counter 1), b \<mapsto> dead_object DropCounter sz (drop_counter 2),
      c \<mapsto> dead_object DropCounter sz (drop_counter 3)]"

lemma counter_types [simp]:
  "has_type DropCounter (drop_counter i)" "trace_contract DropCounter" "gc_ptrs (drop_counter i) = []"
  by (simp_all add: DropCounter_def drop_counter_def)

lemma counters_allocated:
  assumes "distinct [a, b, c]" and "3 * unat sz \<le> 1048576"
  shows "\<exists>h1 h2 h3 h4. allocate (default_heap bg) a DropCounter sz (drop_counter 1) = ret (a, h1) \<and>
    allocate h1 b DropCounter sz (drop_counter 2) = ret (b, h2) \<and> allocate h2 c DropCounter sz (drop_counter 3) = ret (c, h3) \<and>
    for_each drop_root [b, c] h3 = ret h4 \<and> calm (counter_store sz a b c) h4"
proof -
  have 0: "store_bytes Map.empty = 0" by (simp add: store_bytes_def)
  let ?n = "\<lambda>i. new_object DropCounter sz (drop_counter i)"
  obtain h1 where h1: "allocate (default_heap bg) a DropCounter sz (drop_counter 1) = ret (a, h1)" "calm [a \<mapsto> ?n 1] h1"
    using calm_allocate [OF calm_default, of a DropCounter "drop_counter 1" sz bg] assms(2) 0 by auto
  have b1: "store_bytes [a \<mapsto> ?n 1] = unat sz" using store_bytes_fresh [of Map.empty a "?n 1"] 0 by (simp add: new_object_def)
  obtain h2 where h2: "allocate h1 b DropCounter sz (drop_counter 2) = ret (b, h2)" "calm [a \<mapsto> ?n 1, b \<mapsto> ?n 2] h2"
    using calm_allocate [OF h1(2), of b DropCounter "drop_counter 2" sz] assms b1 by auto
  have b2: "store_bytes [a \<mapsto> ?n 1, b \<mapsto> ?n 2] = 2 * unat sz"
    using store_bytes_fresh [of "[a \<mapsto> ?n 1]" b "?n 2"] b1 assms(1) by (simp add: new_object_def)
  obtain h3 where h3: "allocate h2 c DropCounter sz (drop_counter 3) = ret (c, h3)" "calm [a \<mapsto> ?n 1, b \<mapsto> ?n 2, c \<mapsto> ?n 3] h3"
    using calm_allocate [OF h2(2), of c DropCounter "drop_counter 3" sz] assms b2 by auto
  have d: "\<And>i. (?n i)\<lparr>obj_roots := obj_roots (?n i) - 1\<rparr> = dead_object DropCounter sz (drop_counter i)"
    by (simp add: dead_object_def new_object_def)
  obtain h where h: "drop_root b h3 = ret h" "calm ([a \<mapsto> ?n 1, b \<mapsto> ?n 2, c \<mapsto> ?n 3](b \<mapsto> dead_object DropCounter sz (drop_counter 2))) h"
    using calm_handles(1) [OF h3(2), of b "?n 2"] assms(1) d by auto
  obtain h4 where h4: "drop_root c h = ret h4"
      "calm ([a \<mapsto> ?n 1, b \<mapsto> ?n 2, c \<mapsto> ?n 3, b \<mapsto> dead_object DropCounter sz (drop_counter 2),
        c \<mapsto> dead_object DropCounter sz (drop_counter 3)]) h4"
    using calm_handles(1) [OF h(2), of c "?n 3"] assms(1) d by auto
  have "[a \<mapsto> ?n 1, b \<mapsto> ?n 2, c \<mapsto> ?n 3, b \<mapsto> dead_object DropCounter sz (drop_counter 2),
      c \<mapsto> dead_object DropCounter sz (drop_counter 3)] = counter_store sz a b c"
    using assms(1) by (auto simp: fun_eq_iff)
  then show ?thesis using h1(1) h2(1) h3(1) h(1) h4 by auto
qed

lemma calm_DROP_COUNT: "calm s h \<Longrightarrow> DROP_COUNT objs (mem h) = length (filter (\<lambda>a. a \<notin> dom s) objs)"
  using dom_store_of [of "mem h"] by (auto simp: calm_def DROP_COUNT_def domIff intro!: arg_cong [of _ _ length] filter_cong)

lemma calm_not_collected: "calm s h \<Longrightarrow> collect p h = ret h"
  using calm_idle by (simp add: collect_def)

lemma drop_is_called_collect:
  assumes "distinct [a, b, c]" and "3 * unat sz \<le> 1048576"
  shows "\<exists>h. drop_is_called (collect p) sz a b c (default_heap bg) = ret ([Drops 0], h)"
proof -
  obtain h1 h2 h3 h4 where h: "allocate (default_heap bg) a DropCounter sz (drop_counter 1) = ret (a, h1)"
      "allocate h1 b DropCounter sz (drop_counter 2) = ret (b, h2)" "allocate h2 c DropCounter sz (drop_counter 3) = ret (c, h3)"
      "for_each drop_root [b, c] h3 = ret h4" "calm (counter_store sz a b c) h4"
    using counters_allocated [OF assms] by blast
  obtain h5 where "drop_root a h4 = ret h5" using calm_handles(1) [OF h(5), of a] assms(1) by auto
  moreover have "DROP_COUNT [a, b, c] (mem h4) = 0" using calm_DROP_COUNT [OF h(5), of "[a, b, c]"] by simp
  ultimately show ?thesis using h(1-4) calm_not_collected [OF h(5)] by (simp add: drop_is_called_def del: for_each.simps)
qed

lemma counter_store_reach: "distinct [a, b, c] \<Longrightarrow> store_reach (counter_store sz a b c) = {a}"
proof -
  assume d: "distinct [a, b, c]"
  have "x = a" if "x \<in> store_reach (counter_store sz a b c)" for x
    using that
    by induction (use d in \<open>auto simp: store_roots_def store_succs_def new_object_def dead_object_def split: if_splits\<close>)
  moreover have "a \<in> store_reach (counter_store sz a b c)"
    using d by (intro store_reach.root) (simp add: store_roots_def new_object_def)
  ultimately show ?thesis by blast
qed

lemma drop_is_called_force:
  assumes "distinct [a, b, c]" and "3 * unat sz \<le> 1048576"
  shows "\<exists>h. drop_is_called (\<lambda>h. bind_prog (force_collect p h) (\<lambda>(_, h'). ret h')) sz a b c (default_heap bg) = ret ([Drops 2], h) \<and>
    DROP_COUNT [a, b, c] (mem h) = 2"
proof -
  obtain h1 h2 h3 h4 where h: "allocate (default_heap bg) a DropCounter sz (drop_counter 1) = ret (a, h1)"
      "allocate h1 b DropCounter sz (drop_counter 2) = ret (b, h2)" "allocate h2 c DropCounter sz (drop_counter 3) = ret (c, h3)"
      "for_each drop_root [b, c] h3 = ret h4" "calm (counter_store sz a b c) h4"
    using counters_allocated [OF assms] by blast
  let ?ob = "new_object DropCounter sz (drop_counter 1)"
  have "counter_store sz a b c |` {a} = [a \<mapsto> ?ob]" using assms(1) by (auto simp: fun_eq_iff restrict_map_def)
  then obtain h5 where h5: "force_collect p h4 = ret (bytes_allocated h5, h5)" "calm [a \<mapsto> ?ob] h5"
    using calm_collect [OF h(5), of p] counter_store_reach [OF assms(1)] by auto
  obtain h6 where h6: "drop_root a h5 = ret h6" "calm [a \<mapsto> ?ob\<lparr>obj_roots := obj_roots ?ob - 1\<rparr>] h6"
    using calm_handles(1) [OF h5(2), of a ?ob] by auto
  have "DROP_COUNT [a, b, c] (mem h5) = 2" "DROP_COUNT [a, b, c] (mem h6) = 2"
    using calm_DROP_COUNT [OF h5(2), of "[a, b, c]"] calm_DROP_COUNT [OF h6(2), of "[a, b, c]"] assms(1) by simp_all
  then show ?thesis using h(1-4) h5(1) h6(1) by (intro exI [of _ h6]) (simp add: drop_is_called_def del: for_each.simps)
qed

lemma for_each_drop_resting:
  assumes "resting xs h" and "set as \<subseteq> set xs"
  shows "\<exists>h'. for_each drop_root as h = ret h' \<and> resting xs h' \<and> bytes_allocated h' = bytes_allocated h \<and>
    data_at (mem h') = data_at (mem h)"
  using assms
proof (induction as arbitrary: h)
  case (Cons a as)
  obtain h1 where h1: "drop_root a h = ret h1" "resting xs h1" "bytes_allocated h1 = bytes_allocated h"
      "data_at (mem h1) = data_at (mem h)"
    using drop_resting [OF Cons.prems(1), of a] Cons.prems(2) by auto
  then show ?case using Cons.IH [OF h1(2)] Cons.prems(2) by auto
qed simp

lemma builtin_drops_run:
  assumes d: "distinct [a, b, c, d, e]" and sz: "3 * unat sz_string + 2 * unat sz_vec \<le> 1048576"
  shows "\<exists>h'. builtin_drops p sz_string sz_vec a b c d e (default_heap bg) =
    ret ([Content (VPrim 1), Content (VPrim 1), Content (VSeq (map VPrim [1, 2, 3, 4, 5, 6, 7, 8, 9, 10])),
          Content (VSeq (map VPrim [1, 2, 3, 4, 5, 6, 7, 8, 9, 10]))], h')"
proof -
  let ?v = "VSeq (map VPrim [1, 2, 3, 4, 5, 6, 7, 8, 9, 10])" and ?w = "VSeq (map VPrim [4, 5, 6, 7, 8])"
  let ?ti = "TIter K_Vec (TPrim P_i32)" and ?ts = "TIter K_Vec (TPrim P_str)" and ?t = "TPrim P_String"
  from allocate_resting [OF resting_default, of a ?t "VPrim 1" bg sz_string] sz obtain h1
    where h1: "allocate (default_heap bg) a ?t sz_string (VPrim 1) = ret (a, h1)" "resting [a] h1"
      "unat (bytes_allocated h1) = unat sz_string" "data_at (mem h1) = [a \<mapsto> VPrim 1]"
    by (auto simp: data_at_empty)
  from allocate_resting [OF h1(2), of b ?t "VPrim 2" sz_string] d sz h1(3) obtain h2
    where h2: "allocate h1 b ?t sz_string (VPrim 2) = ret (b, h2)" "resting [b, a] h2"
      "unat (bytes_allocated h2) = 2 * unat sz_string" "data_at (mem h2) = (data_at (mem h1))(b \<mapsto> VPrim 2)"
    by auto
  from allocate_resting [OF h2(2), of c ?t "VPrim 3" sz_string] d sz h2(3) obtain h3
    where h3: "allocate h2 c ?t sz_string (VPrim 3) = ret (c, h3)" "resting [c, b, a] h3"
      "unat (bytes_allocated h3) = 3 * unat sz_string" "data_at (mem h3) = (data_at (mem h2))(c \<mapsto> VPrim 3)"
    by auto
  obtain h4 where h4: "for_each drop_root [b, c] h3 = ret h4" "resting [c, b, a] h4" "bytes_allocated h4 = bytes_allocated h3"
      "data_at (mem h4) = data_at (mem h3)" using for_each_drop_resting [OF h3(2), of "[b, c]"] by auto
  from allocate_resting [OF h4(2), of d ?ti ?v sz_vec] d sz h3(3) h4(3) obtain h6
    where h6: "allocate h4 d ?ti sz_vec ?v = ret (d, h6)" "resting [d, c, b, a] h6"
      "unat (bytes_allocated h6) = 3 * unat sz_string + unat sz_vec" "data_at (mem h6) = (data_at (mem h4))(d \<mapsto> ?v)"
    by auto
  from allocate_resting [OF h6(2), of e ?ts ?w sz_vec] d sz h6(3) obtain h7
    where h7: "allocate h6 e ?ts sz_vec ?w = ret (e, h7)" "resting [e, d, c, b, a] h7" "data_at (mem h7) = (data_at (mem h6))(e \<mapsto> ?w)"
    by auto
  obtain h8 where h8: "drop_root e h7 = ret h8" "resting [e, d, c, b, a] h8" "data_at (mem h8) = data_at (mem h7)"
    using drop_resting [OF h7(2), of e] by auto
  obtain h9 where h9: "for_each drop_root [d, a] h8 = ret h9" using for_each_drop_resting [OF h8(2), of "[d, a]"] by auto
  have "gc_root_deref (mem h3) a = ret (VPrim 1)" "gc_root_deref (mem h4) a = ret (VPrim 1)"
      "gc_root_deref (mem h7) d = ret ?v" "gc_root_deref (mem h8) d = ret ?v"
    by (rule deref_data_at, use d h1(4) h2(4) h3(4) h4(4) h6(4) h7(3) h8(3) in simp)+
  then show ?thesis
    using h1(1) h2(1) h3(1) h4(1) h6(1) h7(1) h8(1) h9 resting_collect [OF h4(2)] resting_collect [OF h8(2)]
    by (simp add: builtin_drops_def del: for_each.simps)
qed

section \<open>Properties\<close>

text \<open>
  C35: the example of destructors fails, for two reasons that are not destructors. Below the threshold its \<open>collect\<close> does nothing, so
  no destructor runs and its first assertion panics. With \<open>force_collect\<close> in that place the destructors of the two objects without handles
  run, and only those, as the example means to show; but after the scope of the context the count is still two and not three, because the
  background thread keeps the heap. Its other parts, on strings and vectors, keep the values they hold handles of.
\<close>

theorem vtable_drop_test_panics:
  assumes "distinct [a, b, c]" and "3 * unat sz \<le> 1048576"
    and "distinct [s1, s2, s3, v1, v2]" and "3 * unat sz_string + 2 * unat sz_vec \<le> 1048576"
  shows "(\<exists>s. vtable_drop_test p sz sz_string sz_vec (a, b, c) (s1, s2, s3, v1, v2) tid (hid, bg, ctx) second = ret ([Drops 0, Panicked], s)) \<and>
    (\<exists>s. in_new_context p (drop_is_called (\<lambda>h. bind_prog (force_collect p h) (\<lambda>(_, h'). ret h')) sz a b c) system_init tid hid bg ctx =
       ret ([Drops 2], s) \<and> DROP_COUNT [a, b, c] (heap_mem s hid) = 2) \<and>
    (\<exists>s. in_new_context p (builtin_drops p sz_string sz_vec s1 s2 s3 v1 v2) system_init tid hid bg ctx =
       ret ([Content (VPrim 1), Content (VPrim 1), Content (VSeq (map VPrim [1, 2, 3, 4, 5, 6, 7, 8, 9, 10])),
             Content (VSeq (map VPrim [1, 2, 3, 4, 5, 6, 7, 8, 9, 10]))], s))"
proof (intro conjI)
  obtain h where "drop_is_called (collect p) sz a b c (default_heap bg) = ret ([Drops 0], h)"
    using drop_is_called_collect [OF assms(1,2)] by blast
  then obtain s where s: "in_new_context p (drop_is_called (collect p) sz a b c) system_init tid hid bg ctx = ret ([Drops 0], s)"
    using in_new_context_default by meson
  obtain hid' bg' ctx' where sec: "second = (hid', bg', ctx')" by (cases second)
  show "\<exists>s. vtable_drop_test p sz sz_string sz_vec (a, b, c) (s1, s2, s3, v1, v2) tid (hid, bg, ctx) second = ret ([Drops 0, Panicked], s)"
    by (intro exI [of _ s]) (simp add: vtable_drop_test_def sec s)
  let ?body = "drop_is_called (\<lambda>h. bind_prog (force_collect p h) (\<lambda>(_, h'). ret h')) sz a b c"
  obtain h2 where h2: "?body (default_heap bg) = ret ([Drops 2], h2)" "DROP_COUNT [a, b, c] (mem h2) = 2"
    using drop_is_called_force [OF assms(1,2)] by blast
  then obtain st where st: "in_new_context p ?body system_init tid hid bg ctx = ret ([Drops 2], st)" "heaps st hid = Some h2"
    using in_new_context_default [of ?body bg "[Drops 2]" h2 p tid hid ctx] by blast
  then show "\<exists>s. in_new_context p ?body system_init tid hid bg ctx = ret ([Drops 2], s) \<and> DROP_COUNT [a, b, c] (heap_mem s hid) = 2"
    using h2(2) by (intro exI [of _ st]) (simp add: heap_mem_def)
  show "\<exists>s. in_new_context p (builtin_drops p sz_string sz_vec s1 s2 s3 v1 v2) system_init tid hid bg ctx =
       ret ([Content (VPrim 1), Content (VPrim 1), Content (VSeq (map VPrim [1, 2, 3, 4, 5, 6, 7, 8, 9, 10])),
             Content (VSeq (map VPrim [1, 2, 3, 4, 5, 6, 7, 8, 9, 10]))], s)"
    using builtin_drops_run [OF assms(3,4), of p bg] in_new_context_default by meson
qed

theorem vtable_drop_test_panics_witness:
  "(\<exists>s. vtable_drop_test Release 40 56 56 (2, 3, 4) (5, 6, 7, 8, 9) 1 (0, 9, 5) (1, 10, 6) = ret ([Drops 0, Panicked], s)) \<and>
   (\<exists>s. in_new_context Release (drop_is_called (\<lambda>h. bind_prog (force_collect Release h) (\<lambda>(_, h'). ret h')) 40 2 3 4) system_init 1 0 9 5 =
      ret ([Drops 2], s) \<and> DROP_COUNT [2, 3, 4] (heap_mem s 0) = 2)"
  using vtable_drop_test_panics [of 2 3 4 40 5 6 7 8 9 56 56 Release 1 0 9 5 "(1, 10, 6)"] by simp

end
